(* ===== verification/Prelude.thy ===== *)
theory Prelude
  imports Main "HOL-Library.Char_ord" "HOL-Library.List_Lexorder" "HOL-Library.Product_Lexorder"
    "HOL-Library.Multiset"
begin

text \<open>
  Shared vocabulary of the development: what the components use of Python's
  strings, sequences and dictionaries, and the generic lemmas their proofs
  rest on.

  Strings are \<^typ>\<open>string\<close>, compared by code point as Python compares them
  (the orderings of \<open>List_Lexorder\<close> and \<open>Char_ord\<close>). An identifier the code
  keeps as a \<open>UUID\<close> is its canonical text, which is how the code compares it
  with the textual ids of other rows. A dictionary whose order is observable
  is an association list in insertion order, any other a map.
\<close>

named_theorems outcome_simps \<open>case analysis of error results\<close>

type_synonym ident = string
type_synonym ('e, 'a) outcome = "'e + 'a"

section \<open>Strings\<close>

text \<open>
  The characters \<open>str.strip\<close> removes, among the code points a \<^typ>\<open>char\<close> has.
\<close>

definition py_space :: "char \<Rightarrow> bool" where
  "py_space c \<longleftrightarrow> (let n = (of_char c :: nat) in (9 \<le> n \<and> n \<le> 13) \<or> (28 \<le> n \<and> n \<le> 32) \<or> n = 133 \<or> n = 160)"

definition blank :: "string \<Rightarrow> bool" where
  "blank s \<longleftrightarrow> list_all py_space s"

section \<open>Sequences\<close>

text \<open>
  \<open>index_of x xs\<close> is \<open>{k: i for i, k in enumerate(xs)}.get(x, len(xs))\<close> for
  a sequence without repetitions.
\<close>

fun index_of :: "'a \<Rightarrow> 'a list \<Rightarrow> nat" where
  "index_of x [] = 0"
| "index_of x (y # ys) = (if x = y then 0 else Suc (index_of x ys))"

lemma index_of_le: "index_of x xs \<le> length xs"
  by (induction xs) auto

lemma index_of_less_iff [simp]: "index_of x xs < length xs \<longleftrightarrow> x \<in> set xs"
  by (induction xs) auto

lemma nth_index_of [simp]: "x \<in> set xs \<Longrightarrow> xs ! index_of x xs = x"
  by (induction xs) auto

lemma index_of_inject: "x \<in> set xs \<Longrightarrow> index_of x xs = index_of y xs \<Longrightarrow> x = y"
  by (induction xs) (auto split: if_splits)

text \<open>\<open>sorted\<close> of a set-like sequence does not depend on how the set was enumerated.\<close>

lemma sort_key_permutation:
  assumes "mset xs = mset ys" and "inj_on f (set xs)"
  shows "sort_key f xs = sort_key f ys"
proof (rule properties_for_sort_key)
  show "mset (sort_key f ys) = mset xs"
    using assms(1) by simp
  fix k assume k: "k \<in> set (sort_key f ys)"
  have "set xs = set ys"
    using assms(1) by (metis set_mset_mset)
  then have "filter (\<lambda>x. f k = f x) zs = filter (\<lambda>x. x = k) zs" if "set zs \<subseteq> set xs" for zs
    using that k assms(2) by (intro filter_cong) (auto simp: inj_on_def)
  moreover have "filter (\<lambda>x. x = k) zs = replicate (count (mset zs) k) k" for zs
    by (induction zs) auto
  ultimately show "filter (\<lambda>x. f k = f x) (sort_key f ys) = filter (\<lambda>x. f k = f x) xs"
    using assms(1) \<open>set xs = set ys\<close> by simp
qed simp

lemma sort_key_Nil_iff [simp]: "sort_key f xs = [] \<longleftrightarrow> xs = []"
  by (metis set_sort set_empty)

lemma find_SomeD: "find P xs = Some x \<Longrightarrow> x \<in> set xs \<and> P x"
  by (induction xs) (auto split: if_splits)

section \<open>Error results\<close>

text \<open>Going on after a step that may raise, and doing so for each element of a sequence.\<close>

definition and_then :: "('e, 'a) outcome \<Rightarrow> ('a \<Rightarrow> ('e, 'b) outcome) \<Rightarrow> ('e, 'b) outcome" where
  "and_then r f = (case r of Inl e \<Rightarrow> Inl e | Inr x \<Rightarrow> f x)"

lemma and_then_simps [simp]: "and_then (Inl e) f = Inl e" "and_then (Inr x) f = f x"
  by (simp_all add: and_then_def)

lemma and_then_Inr: "and_then r f = Inr y \<longleftrightarrow> (\<exists>x. r = Inr x \<and> f x = Inr y)"
  by (cases r) simp_all

fun map_outcome :: "('a \<Rightarrow> ('e, 'b) outcome) \<Rightarrow> 'a list \<Rightarrow> ('e, 'b list) outcome" where
  "map_outcome f [] = Inr []"
| "map_outcome f (x # xs) = and_then (f x) (\<lambda>y. and_then (map_outcome f xs) (\<lambda>ys. Inr (y # ys)))"

lemma map_outcome_cong [fundef_cong]:
  "xs = ys \<Longrightarrow> (\<And>x. x \<in> set ys \<Longrightarrow> f x = g x) \<Longrightarrow> map_outcome f xs = map_outcome g ys"
  by (induction xs arbitrary: ys) auto

lemma map_outcome_Inr: "map_outcome f xs = Inr ys \<longleftrightarrow> list_all2 (\<lambda>x y. f x = Inr y) xs ys"
  by (induction xs arbitrary: ys) (auto simp: and_then_Inr list_all2_Cons1)

lemma map_outcome_total: "(\<And>x. x \<in> set xs \<Longrightarrow> f x = Inr (g x)) \<Longrightarrow> map_outcome f xs = Inr (map g xs)"
  by (induction xs) simp_all

end
