(* ===== verification/State_Machine.thy ===== *)
theory State_Machine
  imports Prelude
begin

text \<open>
  The generic lifecycle machine of \<open>core/state_machine.py\<close>: a table of allowed
  hops, the ordered successor view, the transition check, the exit check and
  the breadth-first \<open>path_to\<close>. Every lifecycle of the system (tasks, plans,
  projects, Kanban columns, sprints, client requests) is an instance.

  The table is a Python dictionary from a state to a \<open>frozenset\<close>; it is kept as
  an association list in declaration order, the frozenset as a list without
  repetitions, and \<open>successors_enumeration\<close> shows that no result depends on the
  order of that list. Log records are not modelled.
\<close>

section \<open>The machine\<close>

text \<open>\<open>HopRules\<close> and the constructor's fields; \<open>sm_value\<close> is the wire value of a state.\<close>

record 's state_machine =
  sm_transitions :: "('s \<times> 's list) list"
  sm_value :: "'s \<Rightarrow> string"
  sm_name :: string
  sm_display_label :: string
  sm_unconditional_targets :: "'s list"
  sm_no_transit_states :: "'s list"

datatype 's sm_error =
    Missing_Entries string "string list"
  | No_Table_Entry string 's
  | Invalid_Transition string 's 's "string list"

record 's hop_rules =
  unconditional_targets :: "'s list"
  no_transit_states :: "'s list"

definition no_hop_rules :: "'s hop_rules" where
  "no_hop_rules = \<lparr>unconditional_targets = [], no_transit_states = []\<rparr>"

definition replace_underscores :: "string \<Rightarrow> string" where
  "replace_underscores = map (\<lambda>c. if c = CHR ''_'' then CHR '' '' else c)"

definition make_state_machine ::
  "('s \<Rightarrow> string) \<Rightarrow> ('s \<times> 's list) list \<Rightarrow> string \<Rightarrow> 's list option \<Rightarrow> string option
    \<Rightarrow> 's hop_rules option \<Rightarrow> ('s sm_error, 's state_machine) outcome" where
  "make_state_machine val table name all_states label hops =
     (let rules = (case hops of None \<Rightarrow> no_hop_rules | Some r \<Rightarrow> r);
          missing = (case all_states of None \<Rightarrow> []
                     | Some ss \<Rightarrow> filter (\<lambda>s. s \<notin> set (map fst table)) (remdups ss))
      in if missing \<noteq> [] then Inl (Missing_Entries name (sort (map val missing)))
         else Inr \<lparr>sm_transitions = map (\<lambda>(s, ts). (s, remdups ts)) table,
                   sm_value = val,
                   sm_name = name,
                   sm_display_label =
                     (case label of
                        Some l \<Rightarrow> if l = [] then replace_underscores name else l
                      | None \<Rightarrow> replace_underscores name),
                   sm_unconditional_targets = unconditional_targets rules,
                   sm_no_transit_states = no_transit_states rules\<rparr>)"

definition states :: "'s state_machine \<Rightarrow> 's list" where
  "states m = map fst (sm_transitions m)"

definition successors :: "'s state_machine \<Rightarrow> 's \<Rightarrow> 's list" where
  "successors m current =
     (case map_of (sm_transitions m) current of
        None \<Rightarrow> []
      | Some targets \<Rightarrow> sort_key (\<lambda>s. (index_of s (states m), sm_value m s)) targets)"

definition allowed :: "'s state_machine \<Rightarrow> 's \<Rightarrow> 's list option" where
  "allowed m current = map_of (sm_transitions m) current"

definition is_terminal :: "'s state_machine \<Rightarrow> 's \<Rightarrow> bool" where
  "is_terminal m s \<longleftrightarrow>
     (case map_of (sm_transitions m) s of None \<Rightarrow> False | Some targets \<Rightarrow> targets = [])"

definition validate :: "'s state_machine \<Rightarrow> 's \<Rightarrow> 's \<Rightarrow> ('s sm_error, unit) outcome" where
  "validate m current target =
     (case map_of (sm_transitions m) current of
        None \<Rightarrow> Inl (No_Table_Entry (sm_display_label m) current)
      | Some targets \<Rightarrow>
          if target \<in> set targets then Inr ()
          else Inl (Invalid_Transition (sm_display_label m) current target
                      (sort (map (sm_value m) targets))))"

section \<open>Breadth-first search\<close>

text \<open>
  \<open>bfs_scan\<close> is the inner \<open>for\<close> loop of \<open>path_to\<close>: it either meets the target
  or hands back the extended \<open>came_from\<close>, queue and seen set. \<open>came_from\<close>
  keeps its newest entry first.
\<close>

datatype 's scan = Found "('s \<times> 's) list" | More "('s \<times> 's) list" "'s list" "'s list"

fun bfs_scan :: "'s list \<Rightarrow> 's \<Rightarrow> 's \<Rightarrow> 's list \<Rightarrow> ('s \<times> 's) list \<Rightarrow> 's list \<Rightarrow> 's list \<Rightarrow> 's scan" where
  "bfs_scan nt target st [] cf queue seen = More cf queue seen"
| "bfs_scan nt target st (n # ns) cf queue seen =
     (if n \<in> set seen then bfs_scan nt target st ns cf queue seen
      else if n = target then Found ((n, st) # cf)
      else if n \<in> set nt then bfs_scan nt target st ns ((n, st) # cf) queue (n # seen)
      else bfs_scan nt target st ns ((n, st) # cf) (queue @ [n]) (n # seen))"

text \<open>The states a scan discovers, in order.\<close>

fun fresh :: "'s list \<Rightarrow> 's list \<Rightarrow> 's list" where
  "fresh seen [] = []"
| "fresh seen (n # ns) = (if n \<in> set seen then fresh seen ns else n # fresh (n # seen) ns)"

lemma set_fresh [simp]: "set (fresh seen ns) = set ns - set seen"
  by (induction ns arbitrary: seen) auto

lemma distinct_fresh [simp]: "distinct (fresh seen ns)"
  by (induction ns arbitrary: seen) auto

lemma bfs_scan_eq:
  "bfs_scan nt t s ns cf q seen =
     (let new = fresh seen ns in
      if t \<in> set new
      then Found ((t, s) # rev (map (\<lambda>n. (n, s)) (takeWhile (\<lambda>n. n \<noteq> t) new)) @ cf)
      else More (rev (map (\<lambda>n. (n, s)) new) @ cf) (q @ filter (\<lambda>n. n \<notin> set nt) new) (rev new @ seen))"
  by (induction ns arbitrary: cf q seen) (auto simp: Let_def)

text \<open>Every state a walk can meet.\<close>

definition universe :: "'s state_machine \<Rightarrow> 's set" where
  "universe m = set (states m) \<union> \<Union> (set ` snd ` set (sm_transitions m))"

lemma finite_universe [simp]: "finite (universe m)"
  by (auto simp: universe_def)

lemma set_successors:
  "set (successors m s) = (case map_of (sm_transitions m) s of None \<Rightarrow> {} | Some ts \<Rightarrow> set ts)"
  by (auto simp: successors_def split: option.splits)

lemma is_terminal_iff: "is_terminal m s \<longleftrightarrow> s \<in> set (states m) \<and> successors m s = []"
proof (cases "map_of (sm_transitions m) s")
  case None
  then have "s \<notin> set (states m)"
    by (simp add: states_def map_of_eq_None_iff)
  with None show ?thesis by (simp add: is_terminal_def)
next
  case (Some ts)
  then have "s \<in> set (states m)"
    by (auto simp: states_def rev_image_eqI dest: map_of_SomeD)
  with Some show ?thesis by (simp add: is_terminal_def successors_def)
qed

lemma successors_universe: "set (successors m s) \<subseteq> universe m"
  by (auto simp: set_successors universe_def split: option.splits dest!: map_of_SomeD)

lemma card_after_scan:
  assumes "set ns \<subseteq> U" and "finite U"
  shows "card (U - set (rev (fresh seen ns) @ seen)) + length (filter P (fresh seen ns))
    \<le> card (U - set seen)"
proof -
  let ?new = "set (fresh seen ns)"
  have "U - set (rev (fresh seen ns) @ seen) = (U - set seen) - ?new"
    by auto
  moreover have "?new \<subseteq> U - set seen"
    using assms(1) by auto
  ultimately have "card (U - set (rev (fresh seen ns) @ seen)) = card (U - set seen) - card ?new"
    using assms(2) by (simp only: card_Diff_subset[OF finite_set])
  moreover have "card ?new = length (fresh seen ns)"
    by (simp add: distinct_card del: set_fresh)
  moreover have "card ?new \<le> card (U - set seen)"
    using \<open>?new \<subseteq> U - set seen\<close> assms(2) by (intro card_mono) auto
  moreover have "length (filter P (fresh seen ns)) \<le> length (fresh seen ns)"
    by (rule length_filter_le)
  ultimately show ?thesis by linarith
qed

text \<open>The outer \<open>while queue\<close> loop: \<open>came_from\<close> once the target is met.\<close>

function bfs :: "'s state_machine \<Rightarrow> 's \<Rightarrow> 's list \<Rightarrow> ('s \<times> 's) list \<Rightarrow> 's list \<Rightarrow> ('s \<times> 's) list option" where
  "bfs m target [] cf seen = None"
| "bfs m target (st # queue) cf seen =
     (case bfs_scan (sm_no_transit_states m) target st (successors m st) cf queue seen of
        Found cf' \<Rightarrow> Some cf'
      | More cf' queue' seen' \<Rightarrow> bfs m target queue' cf' seen')"
  by pat_completeness auto
termination
proof (relation "measure (\<lambda>(m, t, q, cf, seen). card (universe m - set seen) + length q)",
    simp, goal_cases)
  case (1 m t st q cf seen cf' q' seen')
  let ?new = "fresh seen (successors m st)"
  from 1 have "q' = q @ filter (\<lambda>n. n \<notin> set (sm_no_transit_states m)) ?new" "seen' = rev ?new @ seen"
    by (auto simp: bfs_scan_eq Let_def split: if_splits)
  then show ?case
    using card_after_scan[OF successors_universe finite_universe,
        of m seen st "\<lambda>n. n \<notin> set (sm_no_transit_states m)"] by simp
qed

text \<open>
  Reading the path back: \<open>came_from[cursor]\<close> raises \<open>KeyError\<close> on a missing
  entry, and a cyclic \<open>came_from\<close> would never return. Both are values here;
  \<open>path_to_shortest\<close> shows neither occurs.
\<close>

datatype walk_error = Key_Error | Out_Of_Fuel

fun walk_back :: "nat \<Rightarrow> ('s \<times> 's) list \<Rightarrow> 's \<Rightarrow> 's \<Rightarrow> 's list \<Rightarrow> (walk_error, 's list) outcome" where
  "walk_back 0 cf current cursor hops = Inl Out_Of_Fuel"
| "walk_back (Suc fuel) cf current cursor hops =
     (case map_of cf cursor of
        None \<Rightarrow> Inl Key_Error
      | Some p \<Rightarrow> if p = current then Inr (rev hops)
                  else walk_back fuel cf current p (hops @ [p]))"

definition path_to :: "'s state_machine \<Rightarrow> 's \<Rightarrow> 's \<Rightarrow> (walk_error, 's list option) outcome" where
  "path_to m current target =
     (if current = target then Inr (Some [])
      else if current \<notin> set (states m) then Inr None
      else case bfs m target [current] [] [current] of
             None \<Rightarrow> Inr None
           | Some cf \<Rightarrow> (case walk_back (length cf) cf current target [target] of
                            Inl e \<Rightarrow> Inl e
                          | Inr hops \<Rightarrow> Inr (Some hops)))"

section \<open>Routes and what the search finds\<close>

text \<open>
  A route is a sequence of single hops; a legal one passes through no state the
  hop rules declare a destination only.
\<close>

fun route :: "'s state_machine \<Rightarrow> 's \<Rightarrow> 's list \<Rightarrow> bool" where
  "route m s [] \<longleftrightarrow> True"
| "route m s (x # xs) \<longleftrightarrow> x \<in> set (successors m s) \<and> route m x xs"

definition legal_route :: "'s state_machine \<Rightarrow> 's \<Rightarrow> 's \<Rightarrow> 's list \<Rightarrow> bool" where
  "legal_route m s t p \<longleftrightarrow>
     route m s p \<and> last (s # p) = t \<and> (\<forall>x \<in> set (butlast p). x \<notin> set (sm_no_transit_states m))"

lemma route_append: "route m s (p @ q) \<longleftrightarrow> route m s p \<and> route m (last (s # p)) q"
  by (induction p arbitrary: s) auto

definition corridor :: "'s state_machine \<Rightarrow> 's \<Rightarrow> 's \<Rightarrow> bool" where
  "corridor m c x \<longleftrightarrow> x = c \<or> x \<notin> set (sm_no_transit_states m)"

text \<open>
  The loop invariant, over a ghost depth: \<open>came_from\<close> is a tree rooted at the
  start whose edges are hops out of corridor states, the queue is sorted by
  depth, no seen state is deeper than one below the head of the queue, and every
  corridor state already taken off the queue has all its successors seen.
\<close>

definition bfs_inv :: "'s state_machine \<Rightarrow> 's \<Rightarrow> ('s \<Rightarrow> nat) \<Rightarrow> 's list \<Rightarrow> ('s \<times> 's) list \<Rightarrow> 's list \<Rightarrow> bool" where
  "bfs_inv m c dep q cf seen \<longleftrightarrow>
     dep c = 0 \<and> c \<in> set seen \<and> set q \<subseteq> set seen \<and> (\<forall>x \<in> set q. corridor m c x) \<and>
     (\<forall>y \<in> set seen. y \<noteq> c \<longrightarrow> (\<exists>p. map_of cf y = Some p \<and> p \<in> set seen \<and> corridor m c p \<and>
        y \<in> set (successors m p) \<and> dep y = Suc (dep p))) \<and>
     (\<forall>y \<in> set seen. dep y \<le> length cf) \<and>
     sorted (map dep q) \<and>
     (\<forall>y \<in> set seen. q \<noteq> [] \<longrightarrow> dep y \<le> Suc (dep (hd q))) \<and>
     (\<forall>x \<in> set seen. x \<notin> set q \<longrightarrow> corridor m c x \<longrightarrow>
        (\<forall>y \<in> set (successors m x). y \<in> set seen \<and> dep y \<le> Suc (dep x)))"

lemma bfs_inv_init: "bfs_inv m c (\<lambda>_. 0) [c] [] [c]"
  by (simp add: bfs_inv_def corridor_def)

lemma map_of_rev_const:
  "map_of (rev (map (\<lambda>n. (n, s)) xs)) y = (if y \<in> set xs then Some s else None)"
  by (induction xs) (auto simp: map_add_def)

lemma bfs_inv_step:
  fixes m :: "'s state_machine"
  assumes inv: "bfs_inv m c dep (s # q) cf seen"
  defines "new \<equiv> fresh seen (successors m s)"
  defines "dep' \<equiv> \<lambda>x. if x \<in> set new then Suc (dep s) else dep x"
  shows "bfs_inv m c dep' (q @ filter (\<lambda>n. n \<notin> set (sm_no_transit_states m)) new)
    (rev (map (\<lambda>n. (n, s)) new) @ cf) (rev new @ seen)"
proof -
  let ?q' = "q @ filter (\<lambda>n. n \<notin> set (sm_no_transit_states m)) new"
  let ?cf' = "rev (map (\<lambda>n. (n, s)) new) @ cf"
  let ?seen' = "rev new @ seen"
  have root: "dep c = 0" "c \<in> set seen" and q: "set (s # q) \<subseteq> set seen" "\<forall>x \<in> set (s # q). corridor m c x"
    and tree: "\<And>y. y \<in> set seen \<Longrightarrow> y \<noteq> c \<Longrightarrow> \<exists>p. map_of cf y = Some p \<and> p \<in> set seen \<and> corridor m c p \<and>
        y \<in> set (successors m p) \<and> dep y = Suc (dep p)"
    and len: "\<And>y. y \<in> set seen \<Longrightarrow> dep y \<le> length cf"
    and srt: "sorted (map dep (s # q))"
    and near: "\<And>y. y \<in> set seen \<Longrightarrow> dep y \<le> Suc (dep s)"
    and closed: "\<And>x y. x \<in> set seen \<Longrightarrow> x \<notin> set (s # q) \<Longrightarrow> corridor m c x \<Longrightarrow> y \<in> set (successors m x) \<Longrightarrow>
        y \<in> set seen \<and> dep y \<le> Suc (dep x)"
    using inv by (auto simp: bfs_inv_def)
  have new: "set new = set (successors m s) - set seen"
    by (simp add: new_def)
  have old [simp]: "dep' y = dep y" if "y \<in> set seen" for y
    using that new by (simp add: dep'_def)
  have disc [simp]: "dep' y = Suc (dep s)" if "y \<in> set new" for y
    using that by (simp add: dep'_def)
  have deep: "dep' y \<le> Suc (dep s)" if "y \<in> set ?seen'" for y
    using that near by auto
  have tree': "\<exists>p. map_of ?cf' y = Some p \<and> p \<in> set ?seen' \<and> corridor m c p \<and>
        y \<in> set (successors m p) \<and> dep' y = Suc (dep' p)" if y: "y \<in> set ?seen'" "y \<noteq> c" for y
  proof (cases "y \<in> set new")
    case True
    then show ?thesis using new q by (intro exI[of _ s]) (simp add: map_of_rev_const map_add_def)
  next
    case False
    with y have "y \<in> set seen" by simp
    with tree[OF this y(2)] False show ?thesis by (auto simp: map_of_rev_const map_add_def)
  qed
  have srt': "sorted (map dep' ?q')"
  proof -
    have "map dep' q = map dep q" using q by auto
    then have "sorted (map dep' q)" using srt by (simp only: list.map sorted_simps)
    moreover have "map dep' (filter P new) = map (\<lambda>_. Suc (dep s)) (filter P new)" for P
      by (rule map_cong) auto
    then have "sorted (map dep' (filter P new))" for P
      by (simp only: map_replicate_const sorted_replicate)
    ultimately show ?thesis using q near by (auto simp: sorted_append)
  qed
  have near': "dep' y \<le> Suc (dep' (hd ?q'))" if "?q' \<noteq> []" "y \<in> set ?seen'" for y
  proof -
    have "hd ?q' \<in> set q \<or> hd ?q' \<in> set new"
      using that(1) by (cases q) (auto dest: hd_in_set)
    then have "dep s \<le> dep' (hd ?q')"
      using srt q by auto
    then show ?thesis using deep[OF that(2)] by linarith
  qed
  have closed': "y \<in> set ?seen' \<and> dep' y \<le> Suc (dep' x)"
    if x: "x \<in> set ?seen'" "x \<notin> set ?q'" "corridor m c x" "y \<in> set (successors m x)" for x y
  proof (cases "x = s")
    case True
    then show ?thesis using x(4) new q near by (cases "y \<in> set seen") auto
  next
    case False
    have "x \<notin> set new" using x(2,3) new root by (auto simp: corridor_def)
    then have "x \<in> set seen" "x \<notin> set (s # q)" using x False by auto
    with closed[OF this x(3,4)] show ?thesis by auto
  qed
  have len': "dep' y \<le> length ?cf'" if "y \<in> set ?seen'" for y
  proof (cases "y \<in> set new")
    case True
    then have "0 < length new" by (cases new) auto
    moreover have "dep s \<le> length cf" using len[of s] q by simp
    ultimately have "Suc (dep s) \<le> length new + length cf" by linarith
    then show ?thesis using True by simp
  next
    case False
    then show ?thesis using that len[of y] by auto
  qed
  have q': "set ?q' \<subseteq> set ?seen'" "\<forall>x \<in> set ?q'. corridor m c x"
    using q by (auto simp: corridor_def)
  have root': "dep' c = 0" "c \<in> set ?seen'"
    using root by auto
  show ?thesis
    unfolding bfs_inv_def
    using root' q' tree' len' srt' near' closed' by blast
qed

text \<open>Every way out of the explored region passes through the queue.\<close>

lemma bfs_inv_frontier:
  assumes "bfs_inv m c dep q cf seen"
  shows "route m c p \<Longrightarrow> \<forall>x \<in> set (butlast p). corridor m c x \<Longrightarrow>
    (last (c # p) \<in> set seen \<and> dep (last (c # p)) \<le> length p) \<or> (\<exists>x \<in> set q. dep x < length p)"
proof (induction p rule: rev_induct)
  case Nil
  then show ?case using assms by (simp add: bfs_inv_def)
next
  case (snoc y p)
  let ?x = "last (c # p)"
  have p: "route m c p" and y: "y \<in> set (successors m ?x)"
    using snoc.prems(1) by (simp_all add: route_append split: if_splits)
  have "\<forall>x \<in> set p. corridor m c x"
    using snoc.prems(2) by simp
  then have "corridor m c ?x" and "\<forall>x \<in> set (butlast p). corridor m c x"
    by (auto simp: corridor_def dest: in_set_butlastD)
  with snoc.IH[OF p] consider "?x \<in> set seen" "dep ?x \<le> length p" | x where "x \<in> set q" "dep x < length p"
    by blast
  then show ?case
  proof cases
    case 1
    show ?thesis
    proof (cases "?x \<in> set q")
      case True
      with 1 show ?thesis by (metis length_append_singleton less_Suc_eq_le)
    next
      case False
      with assms 1 \<open>corridor m c ?x\<close> y have "y \<in> set seen" "dep y \<le> Suc (dep ?x)"
        unfolding bfs_inv_def by blast+
      with 1 show ?thesis by simp
    qed
  next
    case 2
    then show ?thesis by (auto intro: less_SucI)
  qed
qed

text \<open>What is known of \<open>came_from\<close> when the target has been met.\<close>

definition found_tree :: "'s state_machine \<Rightarrow> 's \<Rightarrow> 's \<Rightarrow> ('s \<Rightarrow> nat) \<Rightarrow> ('s \<times> 's) list \<Rightarrow> 's set \<Rightarrow> bool" where
  "found_tree m c t dep cf T \<longleftrightarrow>
     dep c = 0 \<and> t \<in> T \<and> dep t \<le> length cf \<and>
     (\<forall>y \<in> T. y \<noteq> c \<longrightarrow> (\<exists>p. map_of cf y = Some p \<and> p \<in> T \<and> corridor m c p \<and>
        y \<in> set (successors m p) \<and> dep y = Suc (dep p))) \<and>
     (\<forall>p. legal_route m c t p \<longrightarrow> dep t \<le> length p)"

lemma bfs_found:
  assumes inv: "bfs_inv m c dep (s # q) cf seen" and t: "t \<notin> set seen" "t \<in> set (successors m s)"
  shows "\<exists>dep' T. found_tree m c t dep'
    ((t, s) # rev (map (\<lambda>n. (n, s)) (takeWhile (\<lambda>n. n \<noteq> t) (fresh seen (successors m s)))) @ cf) T"
    (is "\<exists>dep' T. found_tree m c t dep' ?cf T")
proof -
  let ?dep = "dep(t := Suc (dep s))"
  have new: "y \<notin> set (takeWhile (\<lambda>n. n \<noteq> t) (fresh seen (successors m s)))" if "y \<in> set seen" for y
    using that by (auto dest: set_takeWhileD)
  have s: "s \<in> set seen" "corridor m c s" and c: "c \<in> set seen" "dep c = 0"
    using inv by (auto simp: bfs_inv_def)
  have "dep t' \<le> length cf" if "t' \<in> set seen" for t'
    using inv that by (simp add: bfs_inv_def)
  with s have "?dep t \<le> length ?cf" by (simp add: trans_le_add2)
  moreover have "\<exists>p. map_of ?cf y = Some p \<and> p \<in> insert t (set seen) \<and> corridor m c p \<and>
        y \<in> set (successors m p) \<and> ?dep y = Suc (?dep p)" if y: "y \<in> insert t (set seen)" "y \<noteq> c" for y
  proof (cases "y = t")
    case True
    then show ?thesis using s t by auto
  next
    case False
    then have "y \<in> set seen" using y by simp
    then obtain p where "map_of cf y = Some p \<and> p \<in> set seen \<and> corridor m c p \<and>
        y \<in> set (successors m p) \<and> dep y = Suc (dep p)"
      using inv y(2) by (auto simp: bfs_inv_def)
    moreover from this have "p \<noteq> t" using t by auto
    ultimately show ?thesis
      using False new[OF \<open>y \<in> set seen\<close>] by (auto simp: map_of_rev_const map_add_def)
  qed
  moreover have "?dep t \<le> length p" if "legal_route m c t p" for p
  proof -
    have "route m c p" "last (c # p) = t" "\<forall>x \<in> set (butlast p). corridor m c x"
      using that by (auto simp: legal_route_def corridor_def)
    with bfs_inv_frontier[OF inv, of p] t obtain x where "x \<in> set (s # q)" "dep x < length p"
      by metis
    moreover have "\<forall>x \<in> set q. dep s \<le> dep x"
      using inv by (auto simp: bfs_inv_def)
    ultimately have "dep s < length p" by fastforce
    then show ?thesis by simp
  qed
  ultimately show ?thesis
    using c t by (intro exI[of _ ?dep] exI[of _ "insert t (set seen)"]) (auto simp: found_tree_def)
qed

lemma bfs_exhausted:
  assumes inv: "bfs_inv m c dep [] cf seen" and "t \<notin> set seen"
  shows "\<not> legal_route m c t p"
proof
  assume "legal_route m c t p"
  then have "route m c p" "last (c # p) = t" "\<forall>x \<in> set (butlast p). corridor m c x"
    by (auto simp: legal_route_def corridor_def)
  with bfs_inv_frontier[OF inv, of p] assms(2) show False by auto
qed

lemma bfs_result:
  assumes "bfs_inv m c dep q cf seen" and "t \<notin> set seen"
  shows "case bfs m t q cf seen of
      None \<Rightarrow> \<forall>p. \<not> legal_route m c t p
    | Some cf' \<Rightarrow> \<exists>dep' T. found_tree m c t dep' cf' T"
  using assms
proof (induction m t q cf seen arbitrary: dep rule: bfs.induct)
  case (1 m t cf seen)
  then show ?case using bfs_exhausted[of m c dep cf seen t] by simp
next
  case (2 m t s q cf seen)
  show ?case
  proof (cases "t \<in> set (fresh seen (successors m s))")
    case True
    then show ?thesis
      using bfs_found[OF "2.prems"] "2.prems"(2) by (simp add: bfs_scan_eq Let_def)
  next
    case False
    then show ?thesis
      using "2.IH"[OF _ bfs_inv_step[OF "2.prems"(1)]] "2.prems"(2) by (simp add: bfs_scan_eq Let_def)
  qed
qed

lemma walk_back_found:
  assumes tree: "\<forall>y \<in> T. y \<noteq> c \<longrightarrow> (\<exists>p. map_of cf y = Some p \<and> p \<in> T \<and> corridor m c p \<and>
        y \<in> set (successors m p) \<and> dep y = Suc (dep p))" and "dep c = 0"
  shows "x \<in> T \<Longrightarrow> x \<noteq> c \<Longrightarrow> dep x \<le> fuel \<Longrightarrow>
    \<exists>p. walk_back fuel cf c x hops = Inr (p @ rev hops) \<and> route m c (p @ [x]) \<and>
      (\<forall>y \<in> set p. y \<notin> set (sm_no_transit_states m)) \<and> Suc (length p) = dep x"
proof (induction fuel arbitrary: x hops)
  case 0
  then show ?case using tree by fastforce
next
  case (Suc fuel)
  from tree Suc.prems obtain y where y: "map_of cf x = Some y" "y \<in> T" "corridor m c y"
      "x \<in> set (successors m y)" "dep x = Suc (dep y)"
    by blast
  show ?case
  proof (cases "y = c")
    case True
    then show ?thesis using y assms(2) by (intro exI[of _ "[]"]) simp
  next
    case False
    then obtain p where p: "walk_back fuel cf c y (hops @ [y]) = Inr (p @ rev (hops @ [y]))"
        "route m c (p @ [y])" "\<forall>z \<in> set p. z \<notin> set (sm_no_transit_states m)" "Suc (length p) = dep y"
      using Suc.IH[of y "hops @ [y]"] y Suc.prems by auto
    moreover have "route m c ((p @ [y]) @ [x])"
      using p(2) y(4) by (subst route_append) simp
    ultimately show ?thesis
      using y False by (intro exI[of _ "p @ [y]"]) (auto simp: corridor_def)
  qed
qed

lemma path_to_correct:
  "case path_to m c t of
     Inl e \<Rightarrow> False
   | Inr None \<Rightarrow> c \<noteq> t \<and> (\<forall>p. \<not> legal_route m c t p)
   | Inr (Some p) \<Rightarrow> legal_route m c t p \<and> (\<forall>q. legal_route m c t q \<longrightarrow> length p \<le> length q)"
proof (cases "c = t \<or> c \<notin> set (states m)")
  case True
  then show ?thesis
  proof (cases "c = t")
    case False
    with True have "map_of (sm_transitions m) c = None"
      by (simp add: states_def map_of_eq_None_iff)
    then have "set (successors m c) = {}"
      by (simp add: set_successors)
    with False have "\<not> legal_route m c t p" for p
      by (cases p) (auto simp: legal_route_def)
    with True False show ?thesis by (simp add: path_to_def)
  qed (simp add: path_to_def legal_route_def)
next
  case False
  then have res: "case bfs m t [c] [] [c] of
      None \<Rightarrow> \<forall>p. \<not> legal_route m c t p
    | Some cf' \<Rightarrow> \<exists>dep' T. found_tree m c t dep' cf' T"
    by (intro bfs_result[OF bfs_inv_init]) auto
  show ?thesis
  proof (cases "bfs m t [c] [] [c]")
    case None
    then show ?thesis using False res by (simp add: path_to_def del: bfs.simps)
  next
    case (Some cf)
    with res obtain dep T where ft: "found_tree m c t dep cf T" by (auto simp del: bfs.simps)
    then obtain p where p: "walk_back (length cf) cf c t [t] = Inr (p @ [t])" "route m c (p @ [t])"
        "\<forall>y \<in> set p. y \<notin> set (sm_no_transit_states m)" "Suc (length p) = dep t"
      using walk_back_found[of T c cf m dep t "length cf" "[t]"] False by (auto simp: found_tree_def)
    then show ?thesis
      using False Some ft by (auto simp: path_to_def legal_route_def[of m c t "p @ [t]"] found_tree_def simp del: bfs.simps)
  qed
qed

section \<open>Exits over unconditional hops\<close>

text \<open>The inner loop of \<open>unconditional_exit_reachable\<close>, then the loop itself.\<close>

fun exit_scan :: "'s list \<Rightarrow> 's list \<Rightarrow> 's list \<Rightarrow> 's list \<Rightarrow> 's list \<times> 's list" where
  "exit_scan uncond [] queue seen = (queue, seen)"
| "exit_scan uncond (n # ns) queue seen =
     (if n \<in> set seen \<or> n \<notin> set uncond then exit_scan uncond ns queue seen
      else exit_scan uncond ns (queue @ [n]) (n # seen))"

lemma exit_scan_eq:
  "exit_scan uncond ns q seen =
     (let new = fresh seen (filter (\<lambda>n. n \<in> set uncond) ns) in (q @ new, rev new @ seen))"
  by (induction ns arbitrary: q seen) (auto simp: Let_def)

function exit_search :: "'s state_machine \<Rightarrow> 's list \<Rightarrow> 's list \<Rightarrow> bool" where
  "exit_search m [] seen = False"
| "exit_search m (st # queue) seen =
     (if st \<notin> set (states m) then False
      else if successors m st = [] then True
      else (case exit_scan (sm_unconditional_targets m) (successors m st) queue seen of
              (queue', seen') \<Rightarrow> exit_search m queue' seen'))"
  by pat_completeness auto
termination
proof (relation "measure (\<lambda>(m, q, seen). card (universe m - set seen) + length q)", simp, goal_cases)
  case (1 m st q seen q' seen')
  let ?ns = "filter (\<lambda>n. n \<in> set (sm_unconditional_targets m)) (successors m st)"
  have "set ?ns \<subseteq> universe m"
    using successors_universe[of m st] by auto
  from card_after_scan[OF this finite_universe, of seen "\<lambda>_. True"] 1 show ?case
    by (simp add: exit_scan_eq Let_def)
qed

definition unconditional_exit_reachable :: "'s state_machine \<Rightarrow> 's \<Rightarrow> bool" where
  "unconditional_exit_reachable m current =
     (if current \<notin> set (states m) then False else exit_search m [current] [current])"

text \<open>The table names no state it has no entry for.\<close>

definition closed_table :: "'s state_machine \<Rightarrow> bool" where
  "closed_table m \<longleftrightarrow> (\<forall>s. set (successors m s) \<subseteq> set (states m))"

lemma exit_search_sound:
  "exit_search m q seen \<Longrightarrow>
   \<exists>x \<in> set q. \<exists>p. route m x p \<and> set p \<subseteq> set (sm_unconditional_targets m) \<and> is_terminal m (last (x # p))"
proof (induction m q seen rule: exit_search.induct)
  case (2 m st q seen)
  let ?new = "fresh seen (filter (\<lambda>n. n \<in> set (sm_unconditional_targets m)) (successors m st))"
  have st: "st \<in> set (states m)"
    using "2.prems" by (simp split: if_splits)
  show ?case
  proof (cases "successors m st = []")
    case True
    then have "is_terminal m st"
      using st by (simp add: is_terminal_iff)
    then show ?thesis by (intro bexI[of _ st] exI[of _ "[]"]) auto
  next
    case False
    then have "exit_search m (q @ ?new) (rev ?new @ seen)"
      using "2.prems" st by (simp add: exit_scan_eq Let_def)
    from "2.IH"[OF _ False _ this] st obtain x p where x: "x \<in> set (q @ ?new)" "route m x p"
        "set p \<subseteq> set (sm_unconditional_targets m)" "is_terminal m (last (x # p))"
      by (auto simp: exit_scan_eq Let_def)
    show ?thesis
    proof (cases "x \<in> set q")
      case True
      then show ?thesis using x by (intro bexI[of _ x] exI[of _ p]) auto
    next
      case False
      then show ?thesis using x by (intro bexI[of _ st] exI[of _ "x # p"]) auto
    qed
  qed
qed simp

lemma exit_search_complete:
  assumes "\<not> exit_search m q seen" and "closed_table m" and "set q \<subseteq> set seen"
    and "set seen \<subseteq> set (states m)"
    and "\<forall>x \<in> set seen. x \<notin> set q \<longrightarrow>
      successors m x \<noteq> [] \<and> set (successors m x) \<inter> set (sm_unconditional_targets m) \<subseteq> set seen"
  shows "\<exists>S. set seen \<subseteq> S \<and> (\<forall>x \<in> S. successors m x \<noteq> [] \<and>
      set (successors m x) \<inter> set (sm_unconditional_targets m) \<subseteq> S)"
  using assms
proof (induction m q seen rule: exit_search.induct)
  case (1 m seen)
  then show ?case by auto
next
  case (2 m st q seen)
  let ?new = "fresh seen (filter (\<lambda>n. n \<in> set (sm_unconditional_targets m)) (successors m st))"
  have st: "st \<in> set (states m)" "successors m st \<noteq> []"
    using "2.prems" by (auto split: if_splits)
  have "\<exists>S. set (rev ?new @ seen) \<subseteq> S \<and> (\<forall>x \<in> S. successors m x \<noteq> [] \<and>
      set (successors m x) \<inter> set (sm_unconditional_targets m) \<subseteq> S)"
  proof (rule "2.IH"[of "q @ ?new" "rev ?new @ seen"])
    show "\<not> exit_search m (q @ ?new) (rev ?new @ seen)"
      using "2.prems"(1) st by (simp add: exit_scan_eq Let_def)
    show "set (rev ?new @ seen) \<subseteq> set (states m)"
      using "2.prems"(2,4) by (auto simp: closed_table_def)
    show "\<forall>x \<in> set (rev ?new @ seen). x \<notin> set (q @ ?new) \<longrightarrow> successors m x \<noteq> [] \<and>
        set (successors m x) \<inter> set (sm_unconditional_targets m) \<subseteq> set (rev ?new @ seen)"
      using "2.prems"(5) st by auto
  qed (use "2.prems" st in \<open>auto simp: exit_scan_eq Let_def\<close>)
  then show ?case by auto
qed

lemma closed_route:
  assumes "\<forall>x \<in> S. set (successors m x) \<inter> U \<subseteq> S" and "s \<in> S"
  shows "route m s p \<Longrightarrow> set p \<subseteq> U \<Longrightarrow> last (s # p) \<in> S"
proof (induction p rule: rev_induct)
  case (snoc y p)
  then have "last (s # p) \<in> S" "y \<in> set (successors m (last (s # p)))" "y \<in> U"
    by (simp_all add: route_append split: if_splits)
  with assms(1) show ?case by auto
qed (use assms in simp)

lemma unconditional_exit_reachable_iff:
  assumes "closed_table m"
  shows "unconditional_exit_reachable m s \<longleftrightarrow>
    (\<exists>p. route m s p \<and> set p \<subseteq> set (sm_unconditional_targets m) \<and> is_terminal m (last (s # p)))"
    (is "_ \<longleftrightarrow> ?exit")
proof
  assume "unconditional_exit_reachable m s"
  then show ?exit
    using exit_search_sound[of m "[s]" "[s]"]
    by (auto simp: unconditional_exit_reachable_def simp del: exit_search.simps split: if_splits)
next
  assume ?exit
  then obtain p where p: "route m s p" "set p \<subseteq> set (sm_unconditional_targets m)" "is_terminal m (last (s # p))"
    by blast
  have s: "s \<in> set (states m)"
  proof (cases p)
    case Nil
    then show ?thesis using p by (simp add: is_terminal_iff)
  next
    case (Cons x xs)
    then have "x \<in> set (successors m s)" using p by simp
    then show ?thesis
      by (cases "map_of (sm_transitions m) s") (auto simp: set_successors states_def map_of_eq_None_iff rev_image_eqI dest: map_of_SomeD)
  qed
  show "unconditional_exit_reachable m s"
  proof (rule ccontr)
    assume "\<not> unconditional_exit_reachable m s"
    with s have "\<not> exit_search m [s] [s]" by (simp add: unconditional_exit_reachable_def del: exit_search.simps)
    from exit_search_complete[OF this assms] s obtain S where S: "s \<in> S"
        "\<forall>x \<in> S. successors m x \<noteq> [] \<and> set (successors m x) \<inter> set (sm_unconditional_targets m) \<subseteq> S"
      by auto
    with closed_route[of S m "set (sm_unconditional_targets m)" s p] p have "last (s # p) \<in> S"
      by blast
    with S p show False by (auto simp: is_terminal_iff)
  qed
qed

section \<open>The contract of a lifecycle\<close>

text \<open>\<open>validate\<close> accepts exactly the hops of the successor view.\<close>

lemma validate_iff: "validate m s t = Inr () \<longleftrightarrow> t \<in> set (successors m s)"
  by (simp add: validate_def set_successors split: option.splits)

text \<open>Driving an entity along a list of hops, each one validated first.\<close>

fun drive :: "'s state_machine \<Rightarrow> 's \<Rightarrow> 's list \<Rightarrow> ('s sm_error, 's) outcome" where
  "drive m s [] = Inr s"
| "drive m s (x # xs) = (case validate m s x of Inl e \<Rightarrow> Inl e | Inr _ \<Rightarrow> drive m x xs)"

lemma drive_route: "drive m s p = Inr t \<longleftrightarrow> route m s p \<and> last (s # p) = t"
proof (induction p arbitrary: s)
  case (Cons x xs)
  have "(validate m s x = Inr ()) = (x \<in> set (successors m s))"
    by (rule validate_iff)
  with Cons show ?case by (cases "validate m s x") (auto split: if_splits)
qed simp

lemma drive_last_hop:
  assumes "drive m s p = Inr t" and "s \<noteq> t"
  shows "p \<noteq> [] \<and> t \<in> set (successors m (last (s # butlast p)))"
proof (cases p rule: rev_cases)
  case (snoc q y)
  have "route m s (q @ [y])" "y = t"
    using assms(1) snoc by (auto simp: drive_route simp del: drive.simps)
  with snoc show ?thesis by (simp only: route_append) simp
qed (use assms in simp)

text \<open>
  The enumeration order of a frozenset is not observable: two tables that differ
  only in it have the same ordered successors.
\<close>

lemma successors_enumeration:
  assumes "inj (sm_value m)" and "map fst (sm_transitions m') = map fst (sm_transitions m)"
    and "sm_value m' = sm_value m"
    and "\<And>s. rel_option (\<lambda>ts ts'. mset ts = mset ts') (map_of (sm_transitions m) s) (map_of (sm_transitions m') s)"
  shows "successors m s = successors m' s"
proof -
  have "states m' = states m" using assms(2) by (simp add: states_def)
  moreover have "inj (\<lambda>x. (index_of x (states m), sm_value m x))"
    using assms(1) by (auto simp: inj_on_def)
  then have perm: "mset ts = mset ts' \<Longrightarrow>
      sort_key (\<lambda>x. (index_of x (states m), sm_value m x)) ts
        = sort_key (\<lambda>x. (index_of x (states m), sm_value m x)) ts'" for ts ts'
    by (auto intro!: sort_key_permutation intro: inj_on_subset)
  show ?thesis
  proof (cases "map_of (sm_transitions m) s")
    case None
    then show ?thesis using assms(4)[of s] by (simp add: successors_def)
  next
    case (Some ts)
    with assms(4)[of s] obtain ts' where "map_of (sm_transitions m') s = Some ts'" "mset ts = mset ts'"
      by (auto simp: option_rel_Some1)
    with Some perm[of ts ts'] \<open>states m' = states m\<close> assms(3) show ?thesis
      by (simp add: successors_def)
  qed
qed

text \<open>
  What every machine of the system relies on: the constructor accepted its
  table for the whole status enumeration. A \<open>lifecycle\<close> is a machine whose exit
  gate also holds for every status.
\<close>

locale covered_machine =
  fixes m :: "'s state_machine"
  assumes covers: "set (states m) = UNIV"
begin

lemma table_closed: "closed_table m"
  by (simp add: closed_table_def covers)

lemma terminal_iff: "is_terminal m s \<longleftrightarrow> (\<forall>t. validate m s t \<noteq> Inr ())"
  by (auto simp: is_terminal_iff covers validate_iff)

lemma validate_error: "validate m s t = Inl e \<Longrightarrow> \<exists>as. e = Invalid_Transition (sm_display_label m) s t as"
  using covers by (auto simp: validate_def states_def map_of_eq_None_iff split: option.splits if_splits)

lemma path_to_drives: "path_to m s t = Inr (Some p) \<Longrightarrow> drive m s p = Inr t"
  using path_to_correct[where m = m and c = s and t = t] by (simp add: drive_route legal_route_def)

lemma path_to_terminal: "is_terminal m s \<Longrightarrow> s \<noteq> t \<Longrightarrow> path_to m s t = Inr None"
proof -
  assume "is_terminal m s" "s \<noteq> t"
  then have "\<not> legal_route m s t p" for p
    by (cases p) (auto simp: legal_route_def is_terminal_iff)
  with path_to_correct[where m = m and c = s and t = t] show ?thesis
    by (auto split: sum.splits option.splits)
qed
end

locale lifecycle = covered_machine m for m :: "'s state_machine" +
  assumes exits: "unconditional_exit_reachable m s"
begin

text \<open>No status is a dead end: a writer can always walk the entity to a terminal one.\<close>

lemma no_dead_end:
  "\<exists>p t. drive m s p = Inr t \<and> is_terminal m t \<and> set p \<subseteq> set (sm_unconditional_targets m)"
proof -
  obtain p where "route m s p" "set p \<subseteq> set (sm_unconditional_targets m)" "is_terminal m (last (s # p))"
    using exits[of s] unconditional_exit_reachable_iff[OF table_closed] by blast
  then have "drive m s p = Inr (last (s # p))"
    by (simp only: drive_route)
  with \<open>is_terminal m (last (s # p))\<close> \<open>set p \<subseteq> set (sm_unconditional_targets m)\<close> show ?thesis
    by blast
qed

end

text \<open>
  C40. \<open>path_to\<close> always returns, and what it returns is right: a shortest
  sequence of single legal hops from the current to the target state that passes
  through no park, \<open>()\<close> exactly when already there, and \<open>None\<close> exactly when no
  such sequence exists.
\<close>

theorem path_to_shortest:
  "\<exists>r. path_to m current target = Inr r \<and>
     (case r of
        None \<Rightarrow> \<not> (\<exists>p. legal_route m current target p)
      | Some p \<Rightarrow> is_arg_min length (legal_route m current target) p \<and>
          (p = [] \<longleftrightarrow> current = target))"
proof -
  have "legal_route m current target [] \<longleftrightarrow> current = target"
    by (simp add: legal_route_def)
  then show ?thesis
    using path_to_correct[where m = m and c = current and t = target]
    by (auto simp: is_arg_min_def not_less split: sum.splits option.splits)
qed

end
