(* ===== verification/Task_Lifecycle.thy ===== *)
theory Task_Lifecycle
  imports State_Machine
begin

text \<open>
  The task lifecycle: the enumerations of \<open>core/task_enums.py\<close>, the transition
  table, hop rules and machine of \<open>core/task_transitions.py\<close>.
\<close>

section \<open>Enumerations\<close>

datatype task_status =
    CREATED | ASSIGNED | IN_PROGRESS | IN_REVIEW | COMPLETED | BLOCKED | FAILED | INTERRUPTED
  | SUSPENDED | CANCELLED | REJECTED | AUTH_REQUIRED | AWAITING_INPUT

definition all_task_statuses :: "task_status list" where
  "all_task_statuses =
     [CREATED, ASSIGNED, IN_PROGRESS, IN_REVIEW, COMPLETED, BLOCKED, FAILED, INTERRUPTED,
      SUSPENDED, CANCELLED, REJECTED, AUTH_REQUIRED, AWAITING_INPUT]"

fun task_status_value :: "task_status \<Rightarrow> string" where
  "task_status_value CREATED = ''created''"
| "task_status_value ASSIGNED = ''assigned''"
| "task_status_value IN_PROGRESS = ''in_progress''"
| "task_status_value IN_REVIEW = ''in_review''"
| "task_status_value COMPLETED = ''completed''"
| "task_status_value BLOCKED = ''blocked''"
| "task_status_value FAILED = ''failed''"
| "task_status_value INTERRUPTED = ''interrupted''"
| "task_status_value SUSPENDED = ''suspended''"
| "task_status_value CANCELLED = ''cancelled''"
| "task_status_value REJECTED = ''rejected''"
| "task_status_value AUTH_REQUIRED = ''auth_required''"
| "task_status_value AWAITING_INPUT = ''awaiting_input''"

datatype blocked_reason =
    ORACLE_ESCALATED | WAVE_RELEASED | REVIEWER_UNSTAFFED | RED_TEAM_UNSTAFFED
  | NO_CAPABLE_AGENT | DEPENDENCY_FAILED | RUN_STOPPED

definition all_blocked_reasons :: "blocked_reason list" where
  "all_blocked_reasons =
     [ORACLE_ESCALATED, WAVE_RELEASED, REVIEWER_UNSTAFFED, RED_TEAM_UNSTAFFED,
      NO_CAPABLE_AGENT, DEPENDENCY_FAILED, RUN_STOPPED]"

datatype park_exit = OPERATOR | SWEEP | REPLAN

fun PARK_EXIT :: "blocked_reason \<Rightarrow> park_exit" where
  "PARK_EXIT ORACLE_ESCALATED = OPERATOR"
| "PARK_EXIT NO_CAPABLE_AGENT = OPERATOR"
| "PARK_EXIT REVIEWER_UNSTAFFED = SWEEP"
| "PARK_EXIT RED_TEAM_UNSTAFFED = SWEEP"
| "PARK_EXIT WAVE_RELEASED = REPLAN"
| "PARK_EXIT DEPENDENCY_FAILED = REPLAN"
| "PARK_EXIT RUN_STOPPED = REPLAN"

definition STAFFING_BLOCKED_REASONS :: "blocked_reason list" where
  "STAFFING_BLOCKED_REASONS = filter (\<lambda>r. PARK_EXIT r = SWEEP) all_blocked_reasons"

definition ATTENDED_BLOCKED_REASONS :: "blocked_reason list" where
  "ATTENDED_BLOCKED_REASONS = filter (\<lambda>r. PARK_EXIT r \<noteq> REPLAN) all_blocked_reasons"

datatype task_type = DEVELOPMENT | DESIGN | RESEARCH | REVIEW | ADMIN | ANALYSIS
datatype priority = PRIORITY_CRITICAL | PRIORITY_HIGH | PRIORITY_MEDIUM | PRIORITY_LOW
datatype complexity = SIMPLE | COMPLEXITY_MEDIUM | COMPLEX | EPIC
datatype task_structure = STRUCTURE_AUTO | SEQUENTIAL | PARALLEL | MIXED
datatype coordination_topology = SAS | CENTRALIZED | DECENTRALIZED | CONTEXT_DEPENDENT | TOPOLOGY_AUTO
datatype task_source = INTERNAL | CLIENT | SIMULATION

text \<open>Stakes and their order.\<close>

datatype stakes = STAKES_LOW | STAKES_NORMAL | STAKES_HIGH | STAKES_CRITICAL

definition STAKES_ORDER :: "stakes list" where
  "STAKES_ORDER = [STAKES_LOW, STAKES_NORMAL, STAKES_HIGH, STAKES_CRITICAL]"

definition compare_stakes :: "stakes \<Rightarrow> stakes \<Rightarrow> int" where
  "compare_stakes a b = int (index_of a STAKES_ORDER) - int (index_of b STAKES_ORDER)"

definition is_high_stakes :: "stakes \<Rightarrow> bool" where
  "is_high_stakes s \<longleftrightarrow> compare_stakes s STAKES_HIGH \<ge> 0"

instantiation stakes :: linorder
begin

definition less_eq_stakes :: "stakes \<Rightarrow> stakes \<Rightarrow> bool" where
  "less_eq_stakes a b \<longleftrightarrow> compare_stakes a b \<le> 0"

definition less_stakes :: "stakes \<Rightarrow> stakes \<Rightarrow> bool" where
  "less_stakes a b \<longleftrightarrow> compare_stakes a b < 0"

instance
proof
  fix a b :: stakes
  show "a \<le> b \<Longrightarrow> b \<le> a \<Longrightarrow> a = b"
    by (cases a; cases b) (auto simp: less_eq_stakes_def compare_stakes_def STAKES_ORDER_def)
qed (auto simp: less_eq_stakes_def less_stakes_def compare_stakes_def)

end

section \<open>The transition table\<close>

definition VALID_TRANSITIONS :: "(task_status \<times> task_status list) list" where
  "VALID_TRANSITIONS =
     [(CREATED, [ASSIGNED, BLOCKED, REJECTED, FAILED]),
      (ASSIGNED, [IN_PROGRESS, AUTH_REQUIRED, BLOCKED, CANCELLED, FAILED, INTERRUPTED, SUSPENDED]),
      (IN_PROGRESS, [IN_REVIEW, AWAITING_INPUT, AUTH_REQUIRED, BLOCKED, CANCELLED, FAILED,
                     INTERRUPTED, SUSPENDED]),
      (IN_REVIEW, [COMPLETED, IN_PROGRESS, BLOCKED, CANCELLED]),
      (AWAITING_INPUT, [IN_PROGRESS, CANCELLED]),
      (AUTH_REQUIRED, [ASSIGNED, CANCELLED]),
      (BLOCKED, [ASSIGNED, CANCELLED, IN_REVIEW]),
      (FAILED, [ASSIGNED, CANCELLED]),
      (INTERRUPTED, [ASSIGNED, CANCELLED]),
      (SUSPENDED, [ASSIGNED, CANCELLED]),
      (COMPLETED, []),
      (CANCELLED, []),
      (REJECTED, [])]"

definition task_hop_rules :: "task_status hop_rules" where
  "task_hop_rules =
     \<lparr>unconditional_targets = [CANCELLED, REJECTED, FAILED],
      no_transit_states = [BLOCKED, AWAITING_INPUT, AUTH_REQUIRED, SUSPENDED, INTERRUPTED]\<rparr>"

definition build_task_machine :: "(task_status sm_error, task_status state_machine) outcome" where
  "build_task_machine =
     make_state_machine task_status_value VALID_TRANSITIONS ''task_status'' (Some all_task_statuses)
       (Some ''task status'') (Some task_hop_rules)"

definition task_machine :: "task_status state_machine" where
  "task_machine = projr build_task_machine"

definition validate_transition :: "task_status \<Rightarrow> task_status \<Rightarrow> (task_status sm_error, unit) outcome" where
  "validate_transition current target = validate task_machine current target"

definition transition_path :: "task_status \<Rightarrow> task_status \<Rightarrow> (walk_error, task_status list option) outcome" where
  "transition_path current target = path_to task_machine current target"

lemma all_task_statuses_UNIV: "set all_task_statuses = UNIV"
proof (intro equalityI subsetI UNIV_I)
  fix s :: task_status show "s \<in> set all_task_statuses"
    by (cases s) (simp_all add: all_task_statuses_def)
qed

lemma all_task_statuses_iff: "(\<forall>s. P s) \<longleftrightarrow> list_all P all_task_statuses"
  by (simp add: list_all_iff all_task_statuses_UNIV)

lemma build_task_machine_Inr: "build_task_machine = Inr task_machine"
proof -
  have "isl build_task_machine = False"
    by code_simp
  then show ?thesis
    unfolding task_machine_def by (simp add: isl_def sum.collapse)
qed

lemma states_task_machine: "states task_machine = map fst VALID_TRANSITIONS"
  by code_simp

lemma exits_check: "list_all (unconditional_exit_reachable task_machine) all_task_statuses"
  by code_simp

interpretation task_lc: lifecycle task_machine
proof
  show "set (states task_machine) = UNIV"
    unfolding states_task_machine
    by (auto simp: VALID_TRANSITIONS_def) (metis task_status.exhaust)
  show "unconditional_exit_reachable task_machine s" for s
    using exits_check by (simp add: list_all_iff all_task_statuses_UNIV)
qed

text \<open>The successor view, one equation per status.\<close>

lemma task_successors [simp]:
  "successors task_machine CREATED = [ASSIGNED, BLOCKED, FAILED, REJECTED]"
  "successors task_machine ASSIGNED = [IN_PROGRESS, AUTH_REQUIRED, BLOCKED, FAILED, INTERRUPTED, SUSPENDED, CANCELLED]"
  "successors task_machine IN_PROGRESS =
     [IN_REVIEW, AWAITING_INPUT, AUTH_REQUIRED, BLOCKED, FAILED, INTERRUPTED, SUSPENDED, CANCELLED]"
  "successors task_machine IN_REVIEW = [IN_PROGRESS, BLOCKED, COMPLETED, CANCELLED]"
  "successors task_machine AWAITING_INPUT = [IN_PROGRESS, CANCELLED]"
  "successors task_machine AUTH_REQUIRED = [ASSIGNED, CANCELLED]"
  "successors task_machine BLOCKED = [ASSIGNED, IN_REVIEW, CANCELLED]"
  "successors task_machine FAILED = [ASSIGNED, CANCELLED]"
  "successors task_machine INTERRUPTED = [ASSIGNED, CANCELLED]"
  "successors task_machine SUSPENDED = [ASSIGNED, CANCELLED]"
  "successors task_machine COMPLETED = []"
  "successors task_machine CANCELLED = []"
  "successors task_machine REJECTED = []"
  by code_simp+

lemma validate_transition_iff:
  "validate_transition s t = Inr () \<longleftrightarrow> t \<in> set (successors task_machine s)"
  by (simp add: validate_transition_def validate_iff)

lemma validate_transition_Inr:
  "validate_transition s t = Inr u \<longleftrightarrow> t \<in> set (successors task_machine s)"
  using validate_transition_iff[of s t] by simp

lemma task_terminal_iff: "is_terminal task_machine s \<longleftrightarrow> s \<in> {COMPLETED, CANCELLED, REJECTED}"
  by (cases s) (auto simp: is_terminal_iff task_lc.covers)

lemma completed_predecessor: "COMPLETED \<in> set (successors task_machine s) \<Longrightarrow> s = IN_REVIEW"
  by (cases s) auto

section \<open>Properties of the task lifecycle\<close>

text \<open>
  The completion chokepoint: however a task is driven by validated hops, it
  reaches COMPLETED only by a last hop out of IN_REVIEW.
\<close>

theorem completed_only_from_review:
  assumes "drive task_machine s p = Inr COMPLETED" and "s \<noteq> COMPLETED"
  shows "p \<noteq> [] \<and> last (s # butlast p) = IN_REVIEW"
  using drive_last_hop[OF assms] completed_predecessor by blast

text \<open>
  No task is stuck: from every status some sequence of validated hops, each
  into a status a writer can always enter (CANCELLED, REJECTED or FAILED, none of
  which needs an assignee), ends in a terminal status, and the terminal statuses
  are exactly COMPLETED, CANCELLED and REJECTED.
\<close>

theorem task_never_stuck:
  "(\<exists>p t. drive task_machine s p = Inr t \<and> set p \<subseteq> {CANCELLED, REJECTED, FAILED} \<and>
      t \<in> {COMPLETED, CANCELLED, REJECTED}) \<and>
   {t. \<nexists>u. validate_transition t u = Inr ()} = {COMPLETED, CANCELLED, REJECTED}"
proof (intro conjI)
  have "set (sm_unconditional_targets task_machine) = {CANCELLED, REJECTED, FAILED}"
    by code_simp
  then show "\<exists>p t. drive task_machine s p = Inr t \<and> set p \<subseteq> {CANCELLED, REJECTED, FAILED} \<and>
      t \<in> {COMPLETED, CANCELLED, REJECTED}"
    using task_lc.no_dead_end[of s] by (simp only: task_terminal_iff)  blast
  show "{t. \<nexists>u. validate_transition t u = Inr ()} = {COMPLETED, CANCELLED, REJECTED}"
    using task_terminal_iff task_lc.terminal_iff
    by (auto simp: validate_transition_def)
qed

end
