(* ===== verification/Board_Lifecycle.thy ===== *)
theory Board_Lifecycle
  imports Task_Lifecycle
begin

text \<open>
  The Kanban board of \<open>engine/workflow/kanban_columns.py\<close>: the columns, their
  bridge to task statuses, the column machine and the status path of a column
  move; and the intake lifecycle of a client request (\<open>client/models.py\<close>).
\<close>

section \<open>Kanban columns\<close>

datatype kanban_column = K_BACKLOG | K_READY | K_IN_PROGRESS | K_REVIEW | K_DONE

definition all_kanban_columns :: "kanban_column list" where
  "all_kanban_columns = [K_BACKLOG, K_READY, K_IN_PROGRESS, K_REVIEW, K_DONE]"

fun kanban_column_value :: "kanban_column \<Rightarrow> string" where
  "kanban_column_value K_BACKLOG = ''backlog''"
| "kanban_column_value K_READY = ''ready''"
| "kanban_column_value K_IN_PROGRESS = ''in_progress''"
| "kanban_column_value K_REVIEW = ''review''"
| "kanban_column_value K_DONE = ''done''"

definition COLUMN_TO_STATUSES :: "(kanban_column \<times> task_status list) list" where
  "COLUMN_TO_STATUSES =
     [(K_BACKLOG, [CREATED]), (K_READY, [ASSIGNED]), (K_IN_PROGRESS, [IN_PROGRESS]),
      (K_REVIEW, [IN_REVIEW]), (K_DONE, [COMPLETED])]"

definition STATUS_TO_COLUMN :: "(task_status \<times> kanban_column option) list" where
  "STATUS_TO_COLUMN =
     [(CREATED, Some K_BACKLOG), (ASSIGNED, Some K_READY), (IN_PROGRESS, Some K_IN_PROGRESS),
      (IN_REVIEW, Some K_REVIEW), (COMPLETED, Some K_DONE), (BLOCKED, None), (FAILED, None),
      (INTERRUPTED, None), (SUSPENDED, None), (CANCELLED, None), (REJECTED, None),
      (AUTH_REQUIRED, None), (AWAITING_INPUT, None)]"

text \<open>The import-time guards.\<close>

definition validate_status_column_consistency :: bool where
  "validate_status_column_consistency \<longleftrightarrow>
     list_all (\<lambda>c. c \<in> set (map fst COLUMN_TO_STATUSES)) all_kanban_columns \<and>
     list_all (\<lambda>s. s \<in> set (map fst STATUS_TO_COLUMN)) all_task_statuses \<and>
     list_all (\<lambda>(status, column). case column of
        None \<Rightarrow> True
      | Some c \<Rightarrow> (case map_of COLUMN_TO_STATUSES c of None \<Rightarrow> False | Some ss \<Rightarrow> status \<in> set ss))
       STATUS_TO_COLUMN"

definition VALID_COLUMN_TRANSITIONS :: "(kanban_column \<times> kanban_column list) list" where
  "VALID_COLUMN_TRANSITIONS =
     [(K_BACKLOG, [K_READY, K_DONE]),
      (K_READY, [K_IN_PROGRESS, K_BACKLOG]),
      (K_IN_PROGRESS, [K_REVIEW, K_BACKLOG, K_READY]),
      (K_REVIEW, [K_DONE, K_IN_PROGRESS]),
      (K_DONE, [])]"

definition build_column_machine :: "(kanban_column sm_error, kanban_column state_machine) outcome" where
  "build_column_machine =
     make_state_machine kanban_column_value VALID_COLUMN_TRANSITIONS ''kanban_column''
       (Some all_kanban_columns) (Some ''Kanban column'') None"

definition column_machine :: "kanban_column state_machine" where
  "column_machine = projr build_column_machine"

definition COLUMN_MOVE_STATUS_PATH :: "((kanban_column \<times> kanban_column) \<times> task_status list) list" where
  "COLUMN_MOVE_STATUS_PATH =
     [((K_BACKLOG, K_READY), [ASSIGNED]),
      ((K_BACKLOG, K_DONE), [ASSIGNED, IN_PROGRESS, IN_REVIEW, COMPLETED]),
      ((K_READY, K_IN_PROGRESS), [IN_PROGRESS]),
      ((K_READY, K_BACKLOG), [BLOCKED, ASSIGNED, BLOCKED]),
      ((K_IN_PROGRESS, K_REVIEW), [IN_REVIEW]),
      ((K_IN_PROGRESS, K_BACKLOG), [BLOCKED, ASSIGNED, BLOCKED]),
      ((K_IN_PROGRESS, K_READY), [BLOCKED, ASSIGNED]),
      ((K_REVIEW, K_DONE), [COMPLETED]),
      ((K_REVIEW, K_IN_PROGRESS), [IN_PROGRESS])]"

definition validate_status_path_coverage :: bool where
  "validate_status_path_coverage \<longleftrightarrow>
     list_all (\<lambda>(from_col, targets).
       list_all (\<lambda>to_col. (from_col, to_col) \<in> set (map fst COLUMN_MOVE_STATUS_PATH)) targets)
       VALID_COLUMN_TRANSITIONS"

definition validate_column_transition ::
  "kanban_column \<Rightarrow> kanban_column \<Rightarrow> (kanban_column sm_error, unit) outcome" where
  "validate_column_transition current target = validate column_machine current target"

datatype kanban_error = No_Status_Path kanban_column kanban_column

definition resolve_task_transitions ::
  "kanban_column \<Rightarrow> kanban_column \<Rightarrow> (kanban_error, task_status list) outcome" where
  "resolve_task_transitions from_column to_column =
     (case map_of COLUMN_MOVE_STATUS_PATH (from_column, to_column) of
        None \<Rightarrow> Inl (No_Status_Path from_column to_column)
      | Some path \<Rightarrow> Inr path)"

lemma all_kanban_columns_UNIV: "set all_kanban_columns = UNIV"
proof (intro equalityI subsetI UNIV_I)
  fix c :: kanban_column show "c \<in> set all_kanban_columns"
    by (cases c) (simp_all add: all_kanban_columns_def)
qed

lemma states_column_machine: "states column_machine = all_kanban_columns"
  by code_simp

lemma build_column_machine_Inr: "build_column_machine = Inr column_machine"
proof -
  have "isl build_column_machine = False" by code_simp
  then show ?thesis unfolding column_machine_def by (simp add: isl_def sum.collapse)
qed

interpretation column_sm: covered_machine column_machine
  by unfold_locales (simp add: states_column_machine all_kanban_columns_UNIV)

text \<open>
  What a resolved move does to a task that sits in the source column: the
  status the engine leaves it in.
\<close>

definition apply_column_move :: "kanban_column \<Rightarrow> kanban_column \<Rightarrow> task_status \<Rightarrow> task_status option" where
  "apply_column_move c d s =
     (case resolve_task_transitions c d of
        Inl _ \<Rightarrow> None
      | Inr path \<Rightarrow> (case drive task_machine s path of Inl _ \<Rightarrow> None | Inr t \<Rightarrow> Some t))"

definition landing_status :: "kanban_column \<Rightarrow> task_status" where
  "landing_status c = (if c = K_BACKLOG then BLOCKED else hd (the (map_of COLUMN_TO_STATUSES c)))"

lemma column_moves_table:
  "list_all (\<lambda>c. list_all (\<lambda>d. list_all (\<lambda>s.
     map_of STATUS_TO_COLUMN s \<noteq> Some (Some c) \<or>
     apply_column_move c d s =
       (if validate_column_transition c d = Inr () then Some (landing_status d) else None))
     all_task_statuses) all_kanban_columns) all_kanban_columns"
  by code_simp

text \<open>
  The board and the task lifecycle agree: for a task whose status is shown in
  column \<open>c\<close>, a move to \<open>d\<close> has a status path of single legal task hops exactly
  when the column machine allows it, and the path leaves the task in the status
  of \<open>d\<close>, except that a move back to BACKLOG parks it as BLOCKED, off the board.
\<close>

theorem column_move_refines_task_lifecycle:
  assumes "map_of STATUS_TO_COLUMN s = Some (Some c)"
  shows "apply_column_move c d s =
    (if validate_column_transition c d = Inr () then Some (landing_status d) else None) \<and>
    map_of STATUS_TO_COLUMN (landing_status d) = Some (if d = K_BACKLOG then None else Some d)"
proof
  show "apply_column_move c d s =
    (if validate_column_transition c d = Inr () then Some (landing_status d) else None)"
    using column_moves_table assms
    by (simp only: list_all_iff all_kanban_columns_UNIV all_task_statuses_UNIV ball_UNIV) blast
  show "map_of STATUS_TO_COLUMN (landing_status d) = Some (if d = K_BACKLOG then None else Some d)"
    by (cases d) (simp_all add: landing_status_def COLUMN_TO_STATUSES_def STATUS_TO_COLUMN_def)
qed

lemma kanban_import_guards: "validate_status_column_consistency \<and> validate_status_path_coverage"
  by code_simp

section \<open>Client requests\<close>

datatype request_status =
    R_SUBMITTED | R_TRIAGING | R_SCOPING | R_APPROVED | R_TASK_CREATED | R_CANCELLED

definition all_request_statuses :: "request_status list" where
  "all_request_statuses = [R_SUBMITTED, R_TRIAGING, R_SCOPING, R_APPROVED, R_TASK_CREATED, R_CANCELLED]"

fun request_status_value :: "request_status \<Rightarrow> string" where
  "request_status_value R_SUBMITTED = ''submitted''"
| "request_status_value R_TRIAGING = ''triaging''"
| "request_status_value R_SCOPING = ''scoping''"
| "request_status_value R_APPROVED = ''approved''"
| "request_status_value R_TASK_CREATED = ''task_created''"
| "request_status_value R_CANCELLED = ''cancelled''"

definition VALID_REQUEST_TRANSITIONS :: "(request_status \<times> request_status list) list" where
  "VALID_REQUEST_TRANSITIONS =
     [(R_SUBMITTED, [R_TRIAGING, R_CANCELLED]),
      (R_TRIAGING, [R_SCOPING, R_CANCELLED]),
      (R_SCOPING, [R_APPROVED, R_CANCELLED]),
      (R_APPROVED, [R_TASK_CREATED, R_CANCELLED]),
      (R_TASK_CREATED, []),
      (R_CANCELLED, [])]"

definition build_request_machine :: "(request_status sm_error, request_status state_machine) outcome" where
  "build_request_machine =
     make_state_machine request_status_value VALID_REQUEST_TRANSITIONS ''client_request''
       (Some all_request_statuses) (Some ''request'') None"

definition request_machine :: "request_status state_machine" where
  "request_machine = projr build_request_machine"

definition validate_request_transition ::
  "request_status \<Rightarrow> request_status \<Rightarrow> (request_status sm_error, unit) outcome" where
  "validate_request_transition current target = validate request_machine current target"

lemma states_request_machine: "states request_machine = all_request_statuses"
  by code_simp

interpretation request_sm: covered_machine request_machine
proof
  show "set (states request_machine) = UNIV"
    unfolding states_request_machine all_request_statuses_def
    by (auto intro: request_status.exhaust)
qed

text \<open>A request is driven forward only, one stage at a time, or cancelled.\<close>

lemma request_hops:
  "list_all (\<lambda>s. list_all (\<lambda>t.
     (validate_request_transition s t = Inr ()) =
       (\<not> is_terminal request_machine s \<and>
        (t = R_CANCELLED \<or> index_of t all_request_statuses = Suc (index_of s all_request_statuses))))
     all_request_statuses) all_request_statuses"
  by code_simp

end
