(* ===== verification/Task_Model.thy ===== *)
theory Task_Model
  imports Task_Lifecycle Complex_Main
begin

text \<open>
  The task row of \<open>core/task.py\<close>: its fields, the per-field constraints the
  model declares, the cross-field rules of \<open>core/_task_invariants.py\<close>, and
  \<open>with_transition\<close>.

  A field typed \<open>UUID\<close> is its canonical text, a float is a rational, an aware
  datetime is an instant, a metadata value is opaque text. Whether a deadline
  parses (\<open>datetime.fromisoformat\<close>) is the parameter \<open>is_iso\<close> of every operation
  that validates a row.
\<close>

section \<open>Rows\<close>

datatype artifact_type = ARTIFACT_CODE | ARTIFACT_TESTS | ARTIFACT_DOCUMENTATION

record expected_artifact =
  ea_type :: artifact_type
  ea_path :: string

record acceptance_criterion =
  ac_description :: string
  ac_met :: bool

record task =
  t_id :: ident
  t_title :: string
  t_description :: string
  t_type :: task_type
  t_priority :: priority
  t_project :: string
  t_blocked_reason :: "blocked_reason option"
  t_plan_id :: "ident option"
  t_plan_item_id :: "ident option"
  t_created_by :: string
  t_requested_by_user_id :: "string option"
  t_assigned_to :: "string option"
  t_reviewers :: "string list"
  t_dependencies :: "ident list"
  t_artifacts_expected :: "expected_artifact list"
  t_acceptance_criteria :: "acceptance_criterion list"
  t_estimated_complexity :: complexity
  t_stakes :: stakes
  t_budget_limit :: rat
  t_deadline :: "string option"
  t_max_retries :: int
  t_status :: task_status
  t_parent_task_id :: "ident option"
  t_delegation_chain :: "string list"
  t_task_structure :: "task_structure option"
  t_coordination_topology :: coordination_topology
  t_source :: "task_source option"
  t_middleware_override :: "string list option"
  t_metadata :: "(string \<times> string) list"
  t_hard_ceiling :: "rat option"
  t_hard_token_ceiling :: "int option"
  t_forecast_id :: "ident option"
  t_created_at :: int

text \<open>A row with every field at its declared default but the required ones.\<close>

definition new_task ::
  "ident \<Rightarrow> string \<Rightarrow> string \<Rightarrow> task_type \<Rightarrow> string \<Rightarrow> string \<Rightarrow> int \<Rightarrow> task" where
  "new_task i title descr ty project created_by created_at =
     \<lparr>t_id = i, t_title = title, t_description = descr, t_type = ty,
      t_priority = PRIORITY_MEDIUM, t_project = project, t_blocked_reason = None,
      t_plan_id = None, t_plan_item_id = None, t_created_by = created_by,
      t_requested_by_user_id = None, t_assigned_to = None, t_reviewers = [],
      t_dependencies = [], t_artifacts_expected = [], t_acceptance_criteria = [],
      t_estimated_complexity = COMPLEXITY_MEDIUM, t_stakes = STAKES_NORMAL,
      t_budget_limit = 0, t_deadline = None, t_max_retries = 1, t_status = CREATED,
      t_parent_task_id = None, t_delegation_chain = [], t_task_structure = None,
      t_coordination_topology = TOPOLOGY_AUTO, t_source = None, t_middleware_override = None,
      t_metadata = [], t_hard_ceiling = None, t_hard_token_ceiling = None,
      t_forecast_id = None, t_created_at = created_at\<rparr>"

section \<open>Validation\<close>

definition not_blank :: "string \<Rightarrow> bool" where
  "not_blank s \<longleftrightarrow> \<not> blank s"

abbreviation opt_all :: "('a \<Rightarrow> bool) \<Rightarrow> 'a option \<Rightarrow> bool" where
  "opt_all P x \<equiv> (case x of None \<Rightarrow> True | Some y \<Rightarrow> P y)"

text \<open>The declared constraint of each field, in declaration order.\<close>

definition task_field_checks :: "task \<Rightarrow> (string \<times> bool) list" where
  "task_field_checks t =
     [(''id'', True), (''title'', not_blank (t_title t)),
      (''description'', not_blank (t_description t)), (''type'', True), (''priority'', True),
      (''project'', not_blank (t_project t)), (''blocked_reason'', True), (''plan_id'', True),
      (''plan_item_id'', True), (''created_by'', not_blank (t_created_by t)),
      (''requested_by_user_id'', opt_all not_blank (t_requested_by_user_id t)),
      (''assigned_to'', opt_all not_blank (t_assigned_to t)),
      (''reviewers'', list_all not_blank (t_reviewers t)),
      (''dependencies'', list_all not_blank (t_dependencies t)),
      (''artifacts_expected'', list_all (\<lambda>a. not_blank (ea_path a)) (t_artifacts_expected t)),
      (''acceptance_criteria'', list_all (\<lambda>c. not_blank (ac_description c)) (t_acceptance_criteria t)),
      (''estimated_complexity'', True), (''stakes'', True), (''budget_limit'', 0 \<le> t_budget_limit t),
      (''deadline'', True), (''max_retries'', 0 \<le> t_max_retries t), (''status'', True),
      (''parent_task_id'', opt_all not_blank (t_parent_task_id t)),
      (''delegation_chain'', list_all not_blank (t_delegation_chain t)),
      (''task_structure'', True), (''coordination_topology'', True), (''source'', True),
      (''middleware_override'', opt_all (list_all not_blank) (t_middleware_override t)),
      (''metadata'', True), (''hard_ceiling'', opt_all (\<lambda>c. 0 \<le> c) (t_hard_ceiling t)),
      (''hard_token_ceiling'', opt_all (\<lambda>c. 0 \<le> c) (t_hard_token_ceiling t)),
      (''forecast_id'', True), (''created_at'', True)]"

definition task_fields :: "string list" where
  "task_fields =
     [''id'', ''title'', ''description'', ''type'', ''priority'', ''project'', ''blocked_reason'',
      ''plan_id'', ''plan_item_id'', ''created_by'', ''requested_by_user_id'', ''assigned_to'',
      ''reviewers'', ''dependencies'', ''artifacts_expected'', ''acceptance_criteria'',
      ''estimated_complexity'', ''stakes'', ''budget_limit'', ''deadline'', ''max_retries'',
      ''status'', ''parent_task_id'', ''delegation_chain'', ''task_structure'',
      ''coordination_topology'', ''source'', ''middleware_override'', ''metadata'',
      ''hard_ceiling'', ''hard_token_ceiling'', ''forecast_id'', ''created_at'']"

lemma task_fields_checks: "map fst (task_field_checks t) = task_fields"
  by (simp add: task_field_checks_def task_fields_def)

datatype validation_error =
    Field_Errors "string list"
  | Deadline_Blank
  | Deadline_Not_Iso string
  | Self_Dependency ident
  | Duplicate_Entries string "string list"
  | Self_Parent ident
  | Assignee_In_Chain string
  | Created_With_Assignee
  | Assignee_Required task_status
  | Stale_Blocked_Reason blocked_reason task_status
  | Item_Without_Plan

definition validate_iso8601_deadline ::
  "(string \<Rightarrow> bool) \<Rightarrow> string option \<Rightarrow> (validation_error, unit) outcome" where
  "validate_iso8601_deadline is_iso deadline =
     (case deadline of
        None \<Rightarrow> Inr ()
      | Some d \<Rightarrow> if blank d then Inl Deadline_Blank
                  else if is_iso d then Inr () else Inl (Deadline_Not_Iso d))"

definition REQUIRES_ASSIGNEE :: "task_status list" where
  "REQUIRES_ASSIGNEE = [ASSIGNED, IN_PROGRESS, IN_REVIEW, COMPLETED, AUTH_REQUIRED, AWAITING_INPUT]"

definition duplicates :: "string list \<Rightarrow> string list" where
  "duplicates xs = sort (filter (\<lambda>x. count_list xs x > 1) (remdups xs))"

definition check_collections :: "task \<Rightarrow> (validation_error, unit) outcome" where
  "check_collections t =
     (if t_id t \<in> set (t_dependencies t) then Inl (Self_Dependency (t_id t))
      else if duplicates (t_dependencies t) \<noteq> []
      then Inl (Duplicate_Entries ''dependencies'' (duplicates (t_dependencies t)))
      else if duplicates (t_reviewers t) \<noteq> []
      then Inl (Duplicate_Entries ''reviewers'' (duplicates (t_reviewers t)))
      else Inr ())"

definition check_delegation :: "task \<Rightarrow> (validation_error, unit) outcome" where
  "check_delegation t =
     (if t_parent_task_id t = Some (t_id t) then Inl (Self_Parent (t_id t))
      else if duplicates (t_delegation_chain t) \<noteq> []
      then Inl (Duplicate_Entries ''delegation_chain'' (duplicates (t_delegation_chain t)))
      else (case t_assigned_to t of
              None \<Rightarrow> Inr ()
            | Some a \<Rightarrow> if a \<in> set (t_delegation_chain t) then Inl (Assignee_In_Chain a) else Inr ()))"

definition check_assignment_consistency :: "task \<Rightarrow> (validation_error, unit) outcome" where
  "check_assignment_consistency t =
     (if t_status t = CREATED \<and> t_assigned_to t \<noteq> None then Inl Created_With_Assignee
      else if t_status t \<in> set REQUIRES_ASSIGNEE \<and> t_assigned_to t = None
      then Inl (Assignee_Required (t_status t))
      else Inr ())"

definition check_blocked_reason_pairing :: "task \<Rightarrow> (validation_error, unit) outcome" where
  "check_blocked_reason_pairing t =
     (case t_blocked_reason t of
        None \<Rightarrow> Inr ()
      | Some r \<Rightarrow> if t_status t \<noteq> BLOCKED then Inl (Stale_Blocked_Reason r (t_status t)) else Inr ())"

definition check_plan_linkage :: "task \<Rightarrow> (validation_error, unit) outcome" where
  "check_plan_linkage t =
     (if t_plan_id t = None \<and> t_plan_item_id t \<noteq> None then Inl Item_Without_Plan else Inr ())"

text \<open>The first error of a sequence of checks.\<close>

fun first_error :: "('e, unit) outcome list \<Rightarrow> ('e, unit) outcome" where
  "first_error [] = Inr ()"
| "first_error (Inl e # rs) = Inl e"
| "first_error (Inr _ # rs) = first_error rs"

lemma first_error_Inr [simp]: "first_error rs = Inr u \<longleftrightarrow> (\<forall>r \<in> set rs. r = Inr ())"
  by (induction rs rule: first_error.induct) auto

definition validate_invariants :: "task \<Rightarrow> (validation_error, unit) outcome" where
  "validate_invariants t =
     first_error [check_collections t, check_delegation t, check_assignment_consistency t,
                  check_blocked_reason_pairing t, check_plan_linkage t]"

text \<open>
  A payload on its way into a row: the values that parse, and the names of the
  fields whose value has the wrong type.
\<close>

type_synonym task_payload = "task \<times> string list"

definition model_validate :: "(string \<Rightarrow> bool) \<Rightarrow> task_payload \<Rightarrow> (validation_error, task) outcome" where
  "model_validate is_iso p =
     (case p of (t, ill) \<Rightarrow>
        let bad = map fst (filter (\<lambda>(name, ok). \<not> ok \<or> name \<in> set ill) (task_field_checks t))
                    @ filter (\<lambda>name. name \<notin> set task_fields) ill
        in if bad \<noteq> [] then Inl (Field_Errors bad)
           else (case first_error [validate_iso8601_deadline is_iso (t_deadline t), validate_invariants t] of
                   Inl e \<Rightarrow> Inl e
                 | Inr _ \<Rightarrow> Inr t))"

definition task_valid :: "(string \<Rightarrow> bool) \<Rightarrow> task \<Rightarrow> bool" where
  "task_valid is_iso t \<longleftrightarrow> model_validate is_iso (t, []) = Inr t"

section \<open>Field updates\<close>

text \<open>
  An entry of the \<open>updates\<close> or \<open>overrides\<close> mapping of a mutation, with its value
  as the row parses it: a value of the wrong type is \<open>Ill_Typed\<close>, a key that is
  not a field \<open>Unknown_Field\<close>.
\<close>

datatype field_update =
    Set_Id ident | Set_Title string | Set_Description string | Set_Type task_type
  | Set_Priority priority | Set_Project string | Set_Blocked_Reason "blocked_reason option"
  | Set_Plan_Id "ident option" | Set_Plan_Item_Id "ident option" | Set_Created_By string
  | Set_Requested_By_User_Id "string option" | Set_Assigned_To "string option"
  | Set_Reviewers "string list" | Set_Dependencies "ident list"
  | Set_Artifacts_Expected "expected_artifact list"
  | Set_Acceptance_Criteria "acceptance_criterion list"
  | Set_Estimated_Complexity complexity | Set_Stakes stakes | Set_Budget_Limit rat
  | Set_Deadline "string option" | Set_Max_Retries int | Set_Status task_status
  | Set_Parent_Task_Id "ident option" | Set_Delegation_Chain "string list"
  | Set_Task_Structure "task_structure option" | Set_Coordination_Topology coordination_topology
  | Set_Source "task_source option" | Set_Middleware_Override "string list option"
  | Set_Metadata "(string \<times> string) list" | Set_Hard_Ceiling "rat option"
  | Set_Hard_Token_Ceiling "int option" | Set_Forecast_Id "ident option" | Set_Created_At int
  | Ill_Typed string | Unknown_Field string

fun update_key :: "field_update \<Rightarrow> string" where
  "update_key (Set_Id _) = ''id''"
| "update_key (Set_Title _) = ''title''"
| "update_key (Set_Description _) = ''description''"
| "update_key (Set_Type _) = ''type''"
| "update_key (Set_Priority _) = ''priority''"
| "update_key (Set_Project _) = ''project''"
| "update_key (Set_Blocked_Reason _) = ''blocked_reason''"
| "update_key (Set_Plan_Id _) = ''plan_id''"
| "update_key (Set_Plan_Item_Id _) = ''plan_item_id''"
| "update_key (Set_Created_By _) = ''created_by''"
| "update_key (Set_Requested_By_User_Id _) = ''requested_by_user_id''"
| "update_key (Set_Assigned_To _) = ''assigned_to''"
| "update_key (Set_Reviewers _) = ''reviewers''"
| "update_key (Set_Dependencies _) = ''dependencies''"
| "update_key (Set_Artifacts_Expected _) = ''artifacts_expected''"
| "update_key (Set_Acceptance_Criteria _) = ''acceptance_criteria''"
| "update_key (Set_Estimated_Complexity _) = ''estimated_complexity''"
| "update_key (Set_Stakes _) = ''stakes''"
| "update_key (Set_Budget_Limit _) = ''budget_limit''"
| "update_key (Set_Deadline _) = ''deadline''"
| "update_key (Set_Max_Retries _) = ''max_retries''"
| "update_key (Set_Status _) = ''status''"
| "update_key (Set_Parent_Task_Id _) = ''parent_task_id''"
| "update_key (Set_Delegation_Chain _) = ''delegation_chain''"
| "update_key (Set_Task_Structure _) = ''task_structure''"
| "update_key (Set_Coordination_Topology _) = ''coordination_topology''"
| "update_key (Set_Source _) = ''source''"
| "update_key (Set_Middleware_Override _) = ''middleware_override''"
| "update_key (Set_Metadata _) = ''metadata''"
| "update_key (Set_Hard_Ceiling _) = ''hard_ceiling''"
| "update_key (Set_Hard_Token_Ceiling _) = ''hard_token_ceiling''"
| "update_key (Set_Forecast_Id _) = ''forecast_id''"
| "update_key (Set_Created_At _) = ''created_at''"
| "update_key (Ill_Typed k) = k"
| "update_key (Unknown_Field k) = k"

fun set_field :: "field_update \<Rightarrow> task_payload \<Rightarrow> task_payload" where
  "set_field (Set_Id v) (t, ill) = (t\<lparr>t_id := v\<rparr>, ill)"
| "set_field (Set_Title v) (t, ill) = (t\<lparr>t_title := v\<rparr>, ill)"
| "set_field (Set_Description v) (t, ill) = (t\<lparr>t_description := v\<rparr>, ill)"
| "set_field (Set_Type v) (t, ill) = (t\<lparr>t_type := v\<rparr>, ill)"
| "set_field (Set_Priority v) (t, ill) = (t\<lparr>t_priority := v\<rparr>, ill)"
| "set_field (Set_Project v) (t, ill) = (t\<lparr>t_project := v\<rparr>, ill)"
| "set_field (Set_Blocked_Reason v) (t, ill) = (t\<lparr>t_blocked_reason := v\<rparr>, ill)"
| "set_field (Set_Plan_Id v) (t, ill) = (t\<lparr>t_plan_id := v\<rparr>, ill)"
| "set_field (Set_Plan_Item_Id v) (t, ill) = (t\<lparr>t_plan_item_id := v\<rparr>, ill)"
| "set_field (Set_Created_By v) (t, ill) = (t\<lparr>t_created_by := v\<rparr>, ill)"
| "set_field (Set_Requested_By_User_Id v) (t, ill) = (t\<lparr>t_requested_by_user_id := v\<rparr>, ill)"
| "set_field (Set_Assigned_To v) (t, ill) = (t\<lparr>t_assigned_to := v\<rparr>, ill)"
| "set_field (Set_Reviewers v) (t, ill) = (t\<lparr>t_reviewers := v\<rparr>, ill)"
| "set_field (Set_Dependencies v) (t, ill) = (t\<lparr>t_dependencies := v\<rparr>, ill)"
| "set_field (Set_Artifacts_Expected v) (t, ill) = (t\<lparr>t_artifacts_expected := v\<rparr>, ill)"
| "set_field (Set_Acceptance_Criteria v) (t, ill) = (t\<lparr>t_acceptance_criteria := v\<rparr>, ill)"
| "set_field (Set_Estimated_Complexity v) (t, ill) = (t\<lparr>t_estimated_complexity := v\<rparr>, ill)"
| "set_field (Set_Stakes v) (t, ill) = (t\<lparr>t_stakes := v\<rparr>, ill)"
| "set_field (Set_Budget_Limit v) (t, ill) = (t\<lparr>t_budget_limit := v\<rparr>, ill)"
| "set_field (Set_Deadline v) (t, ill) = (t\<lparr>t_deadline := v\<rparr>, ill)"
| "set_field (Set_Max_Retries v) (t, ill) = (t\<lparr>t_max_retries := v\<rparr>, ill)"
| "set_field (Set_Status v) (t, ill) = (t\<lparr>t_status := v\<rparr>, ill)"
| "set_field (Set_Parent_Task_Id v) (t, ill) = (t\<lparr>t_parent_task_id := v\<rparr>, ill)"
| "set_field (Set_Delegation_Chain v) (t, ill) = (t\<lparr>t_delegation_chain := v\<rparr>, ill)"
| "set_field (Set_Task_Structure v) (t, ill) = (t\<lparr>t_task_structure := v\<rparr>, ill)"
| "set_field (Set_Coordination_Topology v) (t, ill) = (t\<lparr>t_coordination_topology := v\<rparr>, ill)"
| "set_field (Set_Source v) (t, ill) = (t\<lparr>t_source := v\<rparr>, ill)"
| "set_field (Set_Middleware_Override v) (t, ill) = (t\<lparr>t_middleware_override := v\<rparr>, ill)"
| "set_field (Set_Metadata v) (t, ill) = (t\<lparr>t_metadata := v\<rparr>, ill)"
| "set_field (Set_Hard_Ceiling v) (t, ill) = (t\<lparr>t_hard_ceiling := v\<rparr>, ill)"
| "set_field (Set_Hard_Token_Ceiling v) (t, ill) = (t\<lparr>t_hard_token_ceiling := v\<rparr>, ill)"
| "set_field (Set_Forecast_Id v) (t, ill) = (t\<lparr>t_forecast_id := v\<rparr>, ill)"
| "set_field (Set_Created_At v) (t, ill) = (t\<lparr>t_created_at := v\<rparr>, ill)"
| "set_field (Ill_Typed k) (t, ill) = (t, k # ill)"
| "set_field (Unknown_Field k) (t, ill) = (t, k # ill)"

definition merge_updates :: "field_update list \<Rightarrow> task_payload \<Rightarrow> task_payload" where
  "merge_updates us p = fold set_field us p"

section \<open>Status transitions\<close>

datatype transition_error =
    Status_In_Overrides
  | Hop_Refused "task_status sm_error"
  | Row_Refused validation_error

definition with_transition ::
  "(string \<Rightarrow> bool) \<Rightarrow> task \<Rightarrow> task_status \<Rightarrow> field_update list \<Rightarrow> (transition_error, task) outcome" where
  "with_transition is_iso t target overrides =
     (if ''status'' \<in> set (map update_key overrides) then Inl Status_In_Overrides
      else case validate_transition (t_status t) target of
        Inl e \<Rightarrow> Inl (Hop_Refused e)
      | Inr _ \<Rightarrow>
          let cleared = (if target \<noteq> BLOCKED then t\<lparr>t_blocked_reason := None\<rparr> else t);
              (row, ill) = merge_updates overrides (cleared, [])
          in (case model_validate is_iso (row\<lparr>t_status := target\<rparr>, ill) of
                Inl e \<Rightarrow> Inl (Row_Refused e)
              | Inr t' \<Rightarrow> Inr t'))"

section \<open>What validation and transitions guarantee\<close>

lemma update_key_set_field:
  "''status'' \<noteq> update_key u \<Longrightarrow> t_status (fst (set_field u p)) = t_status (fst p)"
  "''id'' \<noteq> update_key u \<Longrightarrow> t_id (fst (set_field u p)) = t_id (fst p)"
  "''created_by'' \<noteq> update_key u \<Longrightarrow> t_created_by (fst (set_field u p)) = t_created_by (fst p)"
  "''blocked_reason'' \<noteq> update_key u \<Longrightarrow> t_blocked_reason (fst (set_field u p)) = t_blocked_reason (fst p)"
  by (cases u; cases p; simp)+

lemma merge_updates_keeps:
  "''status'' \<notin> set (map update_key us) \<Longrightarrow> t_status (fst (merge_updates us p)) = t_status (fst p)"
  "''id'' \<notin> set (map update_key us) \<Longrightarrow> t_id (fst (merge_updates us p)) = t_id (fst p)"
  "''created_by'' \<notin> set (map update_key us) \<Longrightarrow> t_created_by (fst (merge_updates us p)) = t_created_by (fst p)"
  "''blocked_reason'' \<notin> set (map update_key us) \<Longrightarrow>
     t_blocked_reason (fst (merge_updates us p)) = t_blocked_reason (fst p)"
  by (induction us arbitrary: p) (simp_all add: merge_updates_def update_key_set_field)

text \<open>A validated row is the payload itself, and validates again.\<close>

lemma model_validate_Inr:
  assumes "model_validate is_iso (t, ill) = Inr t'"
  shows "t' = t" and "task_valid is_iso t"
proof -
  let ?bad = "\<lambda>ill. map fst (filter (\<lambda>(name, ok). \<not> ok \<or> name \<in> set ill) (task_field_checks t))"
  have nil: "?bad ill = []" "t' = t"
    "first_error [validate_iso8601_deadline is_iso (t_deadline t), validate_invariants t] = Inr ()"
    using assms by (auto simp: model_validate_def Let_def split: if_splits sum.splits)
  then have "?bad [] = []"
    by (auto simp: filter_empty_conv)
  with nil show "t' = t" "task_valid is_iso t"
    by (simp_all add: task_valid_def model_validate_def)
qed

lemma task_valid_iff:
  "task_valid is_iso t \<longleftrightarrow>
     list_all snd (task_field_checks t) \<and>
     validate_iso8601_deadline is_iso (t_deadline t) = Inr () \<and>
     check_collections t = Inr () \<and> check_delegation t = Inr () \<and>
     check_assignment_consistency t = Inr () \<and> check_blocked_reason_pairing t = Inr () \<and>
     check_plan_linkage t = Inr ()"
proof -
  have "map fst (filter (\<lambda>(name, ok). \<not> ok \<or> name \<in> set []) cs) = [] \<longleftrightarrow> list_all snd cs"
    for cs :: "(string \<times> bool) list"
    by (auto simp: filter_empty_conv list_all_iff)
  then show ?thesis
    by (auto simp: task_valid_def model_validate_def validate_invariants_def Let_def split: sum.splits)
qed

lemma duplicates_Nil_iff [simp]: "duplicates xs = [] \<longleftrightarrow> distinct xs"
proof -
  have "duplicates xs = [] \<longleftrightarrow> (\<forall>x \<in> set xs. count_list xs x = 1)"
    using count_list_0_iff[of xs] by (auto simp: duplicates_def filter_empty_conv le_less_linear le_Suc_eq not_less)
  also have "\<dots> \<longleftrightarrow> distinct xs"
    by (auto simp: distinct_count_atmost_1 count_mset[symmetric] count_list_0_iff)
  finally show ?thesis .
qed

text \<open>The meaning of the cross-field rules.\<close>

lemma task_coherent:
  assumes "task_valid is_iso t"
  shows "t_id t \<notin> set (t_dependencies t)" "distinct (t_dependencies t)" "distinct (t_reviewers t)"
    "t_parent_task_id t \<noteq> Some (t_id t)" "distinct (t_delegation_chain t)"
    "t_assigned_to t = Some a \<Longrightarrow> a \<notin> set (t_delegation_chain t)"
    "t_status t = CREATED \<Longrightarrow> t_assigned_to t = None"
    "t_status t \<in> set REQUIRES_ASSIGNEE \<Longrightarrow> t_assigned_to t \<noteq> None"
    "t_blocked_reason t \<noteq> None \<Longrightarrow> t_status t = BLOCKED"
    "t_plan_item_id t \<noteq> None \<Longrightarrow> t_plan_id t \<noteq> None"
  using assms
  by (auto simp: task_valid_iff check_collections_def check_delegation_def check_assignment_consistency_def
      check_blocked_reason_pairing_def check_plan_linkage_def split: if_splits option.splits)

lemma with_transition_Inr:
  assumes "with_transition is_iso t target us = Inr t'"
  shows "target \<in> set (successors task_machine (t_status t))" "''status'' \<notin> set (map update_key us)"
    "t_status t' = target" "task_valid is_iso t'"
    "''id'' \<notin> set (map update_key us) \<Longrightarrow> t_id t' = t_id t"
    "''created_by'' \<notin> set (map update_key us) \<Longrightarrow> t_created_by t' = t_created_by t"
proof -
  let ?c = "if target \<noteq> BLOCKED then t\<lparr>t_blocked_reason := None\<rparr> else t"
  obtain row ill where m: "merge_updates us (?c, []) = (row, ill)" by fastforce
  have hop: "validate_transition (t_status t) target = Inr ()" and s: "''status'' \<notin> set (map update_key us)"
    and v: "model_validate is_iso (row\<lparr>t_status := target\<rparr>, ill) = Inr t'"
    using assms m by (auto simp: with_transition_def Let_def split: if_splits sum.splits)
  show "target \<in> set (successors task_machine (t_status t))" "''status'' \<notin> set (map update_key us)"
    using hop s by (simp_all add: validate_transition_iff)
  from model_validate_Inr[OF v] show "t_status t' = target" "task_valid is_iso t'"
    by simp_all
  have c: "t_id ?c = t_id t" "t_created_by ?c = t_created_by t" by simp_all
  show "t_id t' = t_id t" if "''id'' \<notin> set (map update_key us)"
    using model_validate_Inr(1)[OF v] merge_updates_keeps(2)[OF that, of "(?c, [])"] m c by simp
  show "t_created_by t' = t_created_by t" if "''created_by'' \<notin> set (map update_key us)"
    using model_validate_Inr(1)[OF v] merge_updates_keeps(3)[OF that, of "(?c, [])"] m c by simp
qed

end
