(* ===== verification/Plan_Lifecycle.thy ===== *)
theory Plan_Lifecycle
  imports State_Machine "HOL-Library.Sublist"
begin

text \<open>
  The lifecycles of an initiative: plan statuses with the status sets of
  \<open>core/plan_enums.py\<close> and the table of \<open>core/plan_transitions.py\<close>, project
  statuses and the table of \<open>core/project_transitions.py\<close>.
\<close>

section \<open>Plans\<close>

datatype plan_status =
    PL_PLANNING | PL_DRAFT | PL_PENDING_REVIEW | PL_APPROVED | PL_SKELETON | PL_EXECUTING
  | PL_INTEGRATING | PL_EVALUATING | PL_COMPLETED | PL_REJECTED | PL_SUPERSEDED | PL_FAILED

definition all_plan_statuses :: "plan_status list" where
  "all_plan_statuses =
     [PL_PLANNING, PL_DRAFT, PL_PENDING_REVIEW, PL_APPROVED, PL_SKELETON, PL_EXECUTING,
      PL_INTEGRATING, PL_EVALUATING, PL_COMPLETED, PL_REJECTED, PL_SUPERSEDED, PL_FAILED]"

fun plan_status_value :: "plan_status \<Rightarrow> string" where
  "plan_status_value PL_PLANNING = ''planning''"
| "plan_status_value PL_DRAFT = ''draft''"
| "plan_status_value PL_PENDING_REVIEW = ''pending_review''"
| "plan_status_value PL_APPROVED = ''approved''"
| "plan_status_value PL_SKELETON = ''skeleton''"
| "plan_status_value PL_EXECUTING = ''executing''"
| "plan_status_value PL_INTEGRATING = ''integrating''"
| "plan_status_value PL_EVALUATING = ''evaluating''"
| "plan_status_value PL_COMPLETED = ''completed''"
| "plan_status_value PL_REJECTED = ''rejected''"
| "plan_status_value PL_SUPERSEDED = ''superseded''"
| "plan_status_value PL_FAILED = ''failed''"

definition REWORKABLE_STATUSES :: "plan_status set" where
  "REWORKABLE_STATUSES = {PL_DRAFT, PL_PENDING_REVIEW}"

definition TERMINAL_STATUSES :: "plan_status set" where
  "TERMINAL_STATUSES = {PL_COMPLETED, PL_REJECTED, PL_SUPERSEDED, PL_FAILED}"

definition TAIL_STATUSES :: "plan_status set" where
  "TAIL_STATUSES = {PL_INTEGRATING, PL_EVALUATING}"

definition HEAD_STATUSES :: "plan_status set" where
  "HEAD_STATUSES = {PL_SKELETON}"

definition STAGE_STATUSES :: "plan_status set" where
  "STAGE_STATUSES = HEAD_STATUSES \<union> TAIL_STATUSES"

definition REPLANNABLE_STATUSES :: "plan_status set" where
  "REPLANNABLE_STATUSES = {PL_APPROVED, PL_SKELETON, PL_EXECUTING, PL_INTEGRATING, PL_EVALUATING}"

definition DELETABLE_STATUSES :: "plan_status set" where
  "DELETABLE_STATUSES = {PL_PLANNING, PL_DRAFT, PL_PENDING_REVIEW, PL_FAILED}"

definition ITEMLESS_STATUSES :: "plan_status set" where
  "ITEMLESS_STATUSES = {PL_PLANNING, PL_FAILED}"

lemmas plan_status_sets = REWORKABLE_STATUSES_def TERMINAL_STATUSES_def TAIL_STATUSES_def
  HEAD_STATUSES_def STAGE_STATUSES_def REPLANNABLE_STATUSES_def DELETABLE_STATUSES_def
  ITEMLESS_STATUSES_def

definition PLAN_TRANSITIONS :: "(plan_status \<times> plan_status list) list" where
  "PLAN_TRANSITIONS =
     [(PL_PLANNING, [PL_DRAFT, PL_PENDING_REVIEW, PL_SUPERSEDED, PL_FAILED]),
      (PL_DRAFT, [PL_PENDING_REVIEW, PL_SUPERSEDED, PL_FAILED]),
      (PL_PENDING_REVIEW, [PL_DRAFT, PL_APPROVED, PL_REJECTED, PL_SUPERSEDED, PL_FAILED]),
      (PL_APPROVED, [PL_SKELETON, PL_SUPERSEDED, PL_FAILED]),
      (PL_SKELETON, [PL_EXECUTING, PL_SUPERSEDED, PL_FAILED]),
      (PL_EXECUTING, [PL_INTEGRATING, PL_SUPERSEDED, PL_FAILED]),
      (PL_INTEGRATING, [PL_EVALUATING, PL_EXECUTING, PL_SUPERSEDED, PL_FAILED]),
      (PL_EVALUATING, [PL_COMPLETED, PL_EXECUTING, PL_SUPERSEDED, PL_FAILED]),
      (PL_COMPLETED, []),
      (PL_REJECTED, []),
      (PL_SUPERSEDED, []),
      (PL_FAILED, [])]"

definition build_plan_machine :: "(plan_status sm_error, plan_status state_machine) outcome" where
  "build_plan_machine =
     make_state_machine plan_status_value PLAN_TRANSITIONS ''plan_status'' (Some all_plan_statuses)
       (Some ''plan status'')
       (Some \<lparr>unconditional_targets = [PL_FAILED, PL_REJECTED], no_transit_states = []\<rparr>)"

definition plan_machine :: "plan_status state_machine" where
  "plan_machine = projr build_plan_machine"

definition plan_validate_transition :: "plan_status \<Rightarrow> plan_status \<Rightarrow> (plan_status sm_error, unit) outcome" where
  "plan_validate_transition current target = validate plan_machine current target"

definition plan_transition_path :: "plan_status \<Rightarrow> plan_status \<Rightarrow> (walk_error, plan_status list option) outcome" where
  "plan_transition_path current target =
     (if target = PL_COMPLETED then Inr None else path_to plan_machine current target)"

lemma all_plan_statuses_UNIV: "set all_plan_statuses = UNIV"
proof (intro equalityI subsetI UNIV_I)
  fix s :: plan_status show "s \<in> set all_plan_statuses"
    by (cases s) (simp_all add: all_plan_statuses_def)
qed

lemma build_plan_machine_Inr: "build_plan_machine = Inr plan_machine"
proof -
  have "isl build_plan_machine = False" by code_simp
  then show ?thesis unfolding plan_machine_def by (simp add: isl_def sum.collapse)
qed

lemma states_plan_machine: "states plan_machine = all_plan_statuses"
  by code_simp

lemma plan_exits_check: "list_all (unconditional_exit_reachable plan_machine) all_plan_statuses"
  by code_simp

interpretation plan_lc: lifecycle plan_machine
  by unfold_locales
    (use plan_exits_check in \<open>simp_all add: states_plan_machine all_plan_statuses_UNIV list_all_iff\<close>)

lemma plan_successors [simp]:
  "successors plan_machine PL_PLANNING = [PL_DRAFT, PL_PENDING_REVIEW, PL_SUPERSEDED, PL_FAILED]"
  "successors plan_machine PL_DRAFT = [PL_PENDING_REVIEW, PL_SUPERSEDED, PL_FAILED]"
  "successors plan_machine PL_PENDING_REVIEW = [PL_DRAFT, PL_APPROVED, PL_REJECTED, PL_SUPERSEDED, PL_FAILED]"
  "successors plan_machine PL_APPROVED = [PL_SKELETON, PL_SUPERSEDED, PL_FAILED]"
  "successors plan_machine PL_SKELETON = [PL_EXECUTING, PL_SUPERSEDED, PL_FAILED]"
  "successors plan_machine PL_EXECUTING = [PL_INTEGRATING, PL_SUPERSEDED, PL_FAILED]"
  "successors plan_machine PL_INTEGRATING = [PL_EXECUTING, PL_EVALUATING, PL_SUPERSEDED, PL_FAILED]"
  "successors plan_machine PL_EVALUATING = [PL_EXECUTING, PL_COMPLETED, PL_SUPERSEDED, PL_FAILED]"
  "successors plan_machine PL_COMPLETED = []"
  "successors plan_machine PL_REJECTED = []"
  "successors plan_machine PL_SUPERSEDED = []"
  "successors plan_machine PL_FAILED = []"
  by code_simp+

text \<open>The stages a plan at a given status still has ahead of it before delivery.\<close>

fun stages_ahead :: "plan_status \<Rightarrow> plan_status list" where
  "stages_ahead PL_PENDING_REVIEW = [PL_APPROVED, PL_SKELETON, PL_EXECUTING, PL_INTEGRATING, PL_EVALUATING, PL_COMPLETED]"
| "stages_ahead PL_APPROVED = [PL_SKELETON, PL_EXECUTING, PL_INTEGRATING, PL_EVALUATING, PL_COMPLETED]"
| "stages_ahead PL_SKELETON = [PL_EXECUTING, PL_INTEGRATING, PL_EVALUATING, PL_COMPLETED]"
| "stages_ahead PL_EXECUTING = [PL_INTEGRATING, PL_EVALUATING, PL_COMPLETED]"
| "stages_ahead PL_INTEGRATING = [PL_EVALUATING, PL_COMPLETED]"
| "stages_ahead PL_EVALUATING = [PL_COMPLETED]"
| "stages_ahead PL_COMPLETED = []"
| "stages_ahead _ = [PL_PENDING_REVIEW, PL_APPROVED, PL_SKELETON, PL_EXECUTING, PL_INTEGRATING, PL_EVALUATING, PL_COMPLETED]"

lemma stages_ahead_step:
  "x \<in> set (successors plan_machine s) \<Longrightarrow>
   stages_ahead s = x # stages_ahead x \<or> subseq (stages_ahead s) (stages_ahead x)"
  by (cases s) (auto intro: subseq_Cons2 list_emb_Cons)

lemma stages_ahead_subseq:
  "route plan_machine s p \<Longrightarrow> last (s # p) = PL_COMPLETED \<Longrightarrow> subseq (stages_ahead s) p"
proof (induction p arbitrary: s)
  case (Cons x xs)
  then have "subseq (stages_ahead x) xs" and x: "x \<in> set (successors plan_machine s)"
    by (auto split: if_splits)
  with stages_ahead_step[OF x] show ?case
    by (metis subseq_Cons' subseq_Cons2 subseq_order.order_trans list_emb_Cons)
qed simp

text \<open>
  A plan is delivered only through every stage, in order: any sequence of
  validated hops that takes a plan from a status before review to COMPLETED
  contains PENDING_REVIEW, APPROVED, SKELETON, EXECUTING, INTEGRATING,
  EVALUATING and COMPLETED as a subsequence.
\<close>

theorem plan_delivery_passes_every_stage:
  assumes "drive plan_machine s p = Inr PL_COMPLETED" and "s \<in> {PL_PLANNING, PL_DRAFT}"
  shows "subseq [PL_PENDING_REVIEW, PL_APPROVED, PL_SKELETON, PL_EXECUTING, PL_INTEGRATING,
                 PL_EVALUATING, PL_COMPLETED] p"
proof -
  have "route plan_machine s p" "last (s # p) = PL_COMPLETED"
    using assms(1) unfolding drive_route by auto
  then show ?thesis
    using stages_ahead_subseq[of s p] assms(2) by auto
qed

text \<open>
  The declared status sets agree with the machine: \<open>TERMINAL_STATUSES\<close> is
  exactly what no hop leaves, every live status is either the shell, reworkable
  or replannable, a replannable plan is never deletable, and every live status
  can still be superseded or failed.
\<close>

theorem plan_status_sets_agree:
  "{s. \<nexists>t. plan_validate_transition s t = Inr ()} = TERMINAL_STATUSES \<and>
   UNIV = {PL_PLANNING} \<union> REWORKABLE_STATUSES \<union> REPLANNABLE_STATUSES \<union> TERMINAL_STATUSES \<and>
   REWORKABLE_STATUSES \<inter> REPLANNABLE_STATUSES = {} \<and>
   (REPLANNABLE_STATUSES \<union> REWORKABLE_STATUSES) \<inter> TERMINAL_STATUSES = {} \<and>
   REPLANNABLE_STATUSES \<inter> DELETABLE_STATUSES = {} \<and> STAGE_STATUSES \<subseteq> REPLANNABLE_STATUSES \<and>
   {s. plan_validate_transition s PL_SUPERSEDED = Inr () \<and> plan_validate_transition s PL_FAILED = Inr ()}
     = - TERMINAL_STATUSES"
proof -
  have terminal: "is_terminal plan_machine s \<longleftrightarrow> s \<in> TERMINAL_STATUSES" for s
    by (cases s) (auto simp: is_terminal_iff plan_lc.covers plan_status_sets)
  have "UNIV = {PL_PLANNING} \<union> REWORKABLE_STATUSES \<union> REPLANNABLE_STATUSES \<union> TERMINAL_STATUSES"
    by (auto simp: plan_status_sets) (metis plan_status.exhaust)
  moreover have "plan_validate_transition s PL_SUPERSEDED = Inr () \<and> plan_validate_transition s PL_FAILED = Inr ()
      \<longleftrightarrow> s \<notin> TERMINAL_STATUSES" for s
    by (cases s) (auto simp: plan_validate_transition_def validate_iff plan_status_sets)
  ultimately show ?thesis
    using terminal plan_lc.terminal_iff
    by (auto simp: plan_validate_transition_def plan_status_sets)
qed

section \<open>Projects\<close>

datatype project_status =
    PJ_PLANNING | PJ_ACTIVE | PJ_INTEGRATING | PJ_EVALUATING | PJ_ON_HOLD | PJ_COMPLETED
  | PJ_CANCELLED | PJ_FAILED

definition all_project_statuses :: "project_status list" where
  "all_project_statuses =
     [PJ_PLANNING, PJ_ACTIVE, PJ_INTEGRATING, PJ_EVALUATING, PJ_ON_HOLD, PJ_COMPLETED,
      PJ_CANCELLED, PJ_FAILED]"

fun project_status_value :: "project_status \<Rightarrow> string" where
  "project_status_value PJ_PLANNING = ''planning''"
| "project_status_value PJ_ACTIVE = ''active''"
| "project_status_value PJ_INTEGRATING = ''integrating''"
| "project_status_value PJ_EVALUATING = ''evaluating''"
| "project_status_value PJ_ON_HOLD = ''on_hold''"
| "project_status_value PJ_COMPLETED = ''completed''"
| "project_status_value PJ_CANCELLED = ''cancelled''"
| "project_status_value PJ_FAILED = ''failed''"

definition PROJECT_TRANSITIONS :: "(project_status \<times> project_status list) list" where
  "PROJECT_TRANSITIONS =
     [(PJ_PLANNING, [PJ_ACTIVE, PJ_FAILED, PJ_CANCELLED]),
      (PJ_ACTIVE, [PJ_INTEGRATING, PJ_ON_HOLD, PJ_FAILED, PJ_CANCELLED]),
      (PJ_INTEGRATING, [PJ_EVALUATING, PJ_ACTIVE, PJ_ON_HOLD, PJ_FAILED, PJ_CANCELLED]),
      (PJ_EVALUATING, [PJ_COMPLETED, PJ_ACTIVE, PJ_ON_HOLD, PJ_FAILED, PJ_CANCELLED]),
      (PJ_ON_HOLD, [PJ_ACTIVE, PJ_CANCELLED]),
      (PJ_FAILED, [PJ_PLANNING, PJ_ACTIVE, PJ_CANCELLED]),
      (PJ_COMPLETED, []),
      (PJ_CANCELLED, [])]"

definition build_project_machine :: "(project_status sm_error, project_status state_machine) outcome" where
  "build_project_machine =
     make_state_machine project_status_value PROJECT_TRANSITIONS ''project_status''
       (Some all_project_statuses) (Some ''project status'')
       (Some \<lparr>unconditional_targets = [PJ_CANCELLED], no_transit_states = []\<rparr>)"

definition project_machine :: "project_status state_machine" where
  "project_machine = projr build_project_machine"

definition project_validate_transition ::
  "project_status \<Rightarrow> project_status \<Rightarrow> (project_status sm_error, unit) outcome" where
  "project_validate_transition current target = validate project_machine current target"

definition project_transition_path ::
  "project_status \<Rightarrow> project_status \<Rightarrow> (walk_error, project_status list option) outcome" where
  "project_transition_path current target = path_to project_machine current target"

lemma all_project_statuses_UNIV: "set all_project_statuses = UNIV"
proof (intro equalityI subsetI UNIV_I)
  fix s :: project_status show "s \<in> set all_project_statuses"
    by (cases s) (simp_all add: all_project_statuses_def)
qed

lemma build_project_machine_Inr: "build_project_machine = Inr project_machine"
proof -
  have "isl build_project_machine = False" by code_simp
  then show ?thesis unfolding project_machine_def by (simp add: isl_def sum.collapse)
qed

lemma set_states_project_machine: "set (states project_machine) = set all_project_statuses"
  by code_simp

lemma project_exits_check: "list_all (unconditional_exit_reachable project_machine) all_project_statuses"
  by code_simp

interpretation project_lc: lifecycle project_machine
  by unfold_locales
    (use project_exits_check in
      \<open>simp_all add: set_states_project_machine all_project_statuses_UNIV list_all_iff\<close>)

lemma project_successors [simp]:
  "set (successors project_machine PJ_PLANNING) = {PJ_ACTIVE, PJ_FAILED, PJ_CANCELLED}"
  "set (successors project_machine PJ_ACTIVE) = {PJ_INTEGRATING, PJ_ON_HOLD, PJ_FAILED, PJ_CANCELLED}"
  "set (successors project_machine PJ_INTEGRATING) =
     {PJ_EVALUATING, PJ_ACTIVE, PJ_ON_HOLD, PJ_FAILED, PJ_CANCELLED}"
  "set (successors project_machine PJ_EVALUATING) =
     {PJ_COMPLETED, PJ_ACTIVE, PJ_ON_HOLD, PJ_FAILED, PJ_CANCELLED}"
  "set (successors project_machine PJ_ON_HOLD) = {PJ_ACTIVE, PJ_CANCELLED}"
  "set (successors project_machine PJ_FAILED) = {PJ_PLANNING, PJ_ACTIVE, PJ_CANCELLED}"
  "set (successors project_machine PJ_COMPLETED) = {}"
  "set (successors project_machine PJ_CANCELLED) = {}"
  by code_simp+

text \<open>What a project at a given status still has ahead of it before delivery.\<close>

fun project_ahead :: "project_status \<Rightarrow> project_status list" where
  "project_ahead PJ_ACTIVE = [PJ_INTEGRATING, PJ_EVALUATING, PJ_COMPLETED]"
| "project_ahead PJ_INTEGRATING = [PJ_EVALUATING, PJ_COMPLETED]"
| "project_ahead PJ_EVALUATING = [PJ_COMPLETED]"
| "project_ahead PJ_COMPLETED = []"
| "project_ahead _ = [PJ_ACTIVE, PJ_INTEGRATING, PJ_EVALUATING, PJ_COMPLETED]"

lemma project_ahead_step:
  "x \<in> set (successors project_machine s) \<Longrightarrow>
   project_ahead s = x # project_ahead x \<or> subseq (project_ahead s) (project_ahead x)"
  by (cases s) (auto intro: subseq_Cons2 list_emb_Cons)

lemma project_ahead_subseq:
  "route project_machine s p \<Longrightarrow> last (s # p) = PJ_COMPLETED \<Longrightarrow> subseq (project_ahead s) p"
proof (induction p arbitrary: s)
  case (Cons x xs)
  then have "subseq (project_ahead x) xs" and x: "x \<in> set (successors project_machine s)"
    by (auto split: if_splits)
  with project_ahead_step[OF x] show ?case
    by (metis subseq_Cons' subseq_Cons2 subseq_order.order_trans list_emb_Cons)
qed simp

text \<open>
  A project is delivered only through its stages: any sequence of validated
  hops that takes a project that is planned, on hold or failed to COMPLETED
  passes ACTIVE, INTEGRATING and EVALUATING in that order, so a hold never
  completes and a resumed project re-derives its tail. The path the rollup uses
  is that delivery.
\<close>

theorem project_delivery_passes_every_stage:
  assumes "drive project_machine s p = Inr PJ_COMPLETED" and "s \<in> {PJ_PLANNING, PJ_ON_HOLD, PJ_FAILED}"
  shows "subseq [PJ_ACTIVE, PJ_INTEGRATING, PJ_EVALUATING, PJ_COMPLETED] p \<and>
    project_transition_path s PJ_COMPLETED
      = Inr (Some [PJ_ACTIVE, PJ_INTEGRATING, PJ_EVALUATING, PJ_COMPLETED])"
proof -
  have "route project_machine s p" "last (s # p) = PJ_COMPLETED"
    using assms(1) unfolding drive_route by auto
  then have "subseq [PJ_ACTIVE, PJ_INTEGRATING, PJ_EVALUATING, PJ_COMPLETED] p"
    using project_ahead_subseq[of s p] assms(2) by auto
  moreover have
    "project_transition_path PJ_PLANNING PJ_COMPLETED
      = Inr (Some [PJ_ACTIVE, PJ_INTEGRATING, PJ_EVALUATING, PJ_COMPLETED])"
    "project_transition_path PJ_ON_HOLD PJ_COMPLETED
      = Inr (Some [PJ_ACTIVE, PJ_INTEGRATING, PJ_EVALUATING, PJ_COMPLETED])"
    "project_transition_path PJ_FAILED PJ_COMPLETED
      = Inr (Some [PJ_ACTIVE, PJ_INTEGRATING, PJ_EVALUATING, PJ_COMPLETED])"
    by code_simp+
  ultimately show ?thesis using assms(2) by auto
qed

end
