(* ===== verification/Task_Engine.thy ===== *)
theory Task_Engine
  imports Task_Model Plan_Lifecycle
begin

text \<open>
  The single writer of task state: mutation requests and results
  (\<open>engine/task_engine_models.py\<close>), version and span tracking
  (\<open>engine/task_engine_version.py\<close>), the delete guard
  (\<open>engine/task_delete_guard.py\<close>) and the five appliers with their dispatch
  (\<open>engine/task_engine_apply.py\<close>).

  The repository is the map its protocol describes. What other writers do to the
  plan table between the statements of a delete, which rows of other tables
  restrict it, whether a save raises, the generated id and the clock are the
  environment of a call. Error messages are values that carry what the text
  names; log records are not modelled, metric observations are.
\<close>

section \<open>The task repository\<close>

type_synonym task_store = "ident \<rightharpoonup> task"

definition repo_get :: "task_store \<Rightarrow> ident \<Rightarrow> task option" where
  "repo_get store k = store k"

definition repo_save :: "task \<Rightarrow> task_store \<Rightarrow> task_store" where
  "repo_save t store = store(t_id t \<mapsto> t)"

definition repo_delete :: "ident \<Rightarrow> task_store \<Rightarrow> task_store" where
  "repo_delete k store = store(k := None)"

text \<open>What the engine relies on of the repository.\<close>

locale keyed_store =
  fixes lookup :: "'s \<Rightarrow> 'k \<Rightarrow> 'a option" and put :: "'a \<Rightarrow> 's \<Rightarrow> 's"
    and drop_key :: "'k \<Rightarrow> 's \<Rightarrow> 's" and key :: "'a \<Rightarrow> 'k"
  assumes lookup_put: "lookup (put x s) k = (if k = key x then Some x else lookup s k)"
    and lookup_drop: "lookup (drop_key i s) k = (if k = i then None else lookup s k)"
begin

lemma all_put:
  assumes "\<forall>k x. lookup s k = Some x \<longrightarrow> key x = k \<and> P x" and "P y"
  shows "\<forall>k x. lookup (put y s) k = Some x \<longrightarrow> key x = k \<and> P x"
  using assms by (auto simp: lookup_put)

lemma all_drop:
  assumes "\<forall>k x. lookup s k = Some x \<longrightarrow> key x = k \<and> P x"
  shows "\<forall>k x. lookup (drop_key i s) k = Some x \<longrightarrow> key x = k \<and> P x"
  using assms by (auto simp: lookup_drop)

lemma put_other: "k \<noteq> key x \<Longrightarrow> lookup (put x s) k = lookup s k"
  by (simp add: lookup_put)

end

interpretation repo: keyed_store repo_get repo_save repo_delete t_id
  by unfold_locales (auto simp: repo_get_def repo_save_def repo_delete_def)

section \<open>Version and span tracking\<close>

type_synonym version_tracker = "ident \<rightharpoonup> int"

definition vt_seed :: "ident \<Rightarrow> version_tracker \<Rightarrow> version_tracker" where
  "vt_seed k vs = (if vs k = None then vs(k \<mapsto> 1) else vs)"

definition vt_set_initial :: "ident \<Rightarrow> int \<Rightarrow> version_tracker \<Rightarrow> (string, version_tracker) outcome" where
  "vt_set_initial k v vs = (if v < 1 then Inl ''Version must be >= 1'' else Inr (vs(k \<mapsto> v)))"

definition vt_bump :: "ident \<Rightarrow> version_tracker \<Rightarrow> int \<times> version_tracker" where
  "vt_bump k vs =
     (let seeded = vt_seed k vs; v = the (seeded k) + 1 in (v, seeded(k \<mapsto> v)))"

definition vt_get :: "version_tracker \<Rightarrow> ident \<Rightarrow> int" where
  "vt_get vs k = (case vs k of None \<Rightarrow> 0 | Some v \<Rightarrow> v)"

definition vt_remove :: "ident \<Rightarrow> version_tracker \<Rightarrow> version_tracker" where
  "vt_remove k vs = vs(k := None)"

text \<open>\<open>check\<close>: the seeded tracker, and the current version when it disagrees.\<close>

definition vt_check :: "ident \<Rightarrow> int option \<Rightarrow> version_tracker \<Rightarrow> (int \<times> int) option \<times> version_tracker" where
  "vt_check k expected vs =
     (case expected of
        None \<Rightarrow> (None, vs)
      | Some v \<Rightarrow>
          let seeded = vt_seed k vs; current = the (seeded k)
          in (if current \<noteq> v then (Some (v, current), seeded) else (None, seeded)))"

record span_tracker =
  open_spans :: "ident \<rightharpoonup> task_type"
  ended_spans :: "(ident \<times> task_status option) list"

definition span_start :: "ident \<Rightarrow> task_type \<Rightarrow> span_tracker \<Rightarrow> span_tracker" where
  "span_start k ty sp =
     (let orphaned = (if open_spans sp k = None then ended_spans sp else ended_spans sp @ [(k, None)])
      in sp\<lparr>open_spans := (open_spans sp)(k \<mapsto> ty), ended_spans := orphaned\<rparr>)"

definition span_end :: "ident \<Rightarrow> task_status \<Rightarrow> span_tracker \<Rightarrow> span_tracker" where
  "span_end k final sp =
     (if open_spans sp k = None then sp
      else sp\<lparr>open_spans := (open_spans sp)(k := None),
              ended_spans := ended_spans sp @ [(k, Some final)]\<rparr>)"

definition span_remove :: "ident \<Rightarrow> span_tracker \<Rightarrow> span_tracker" where
  "span_remove k sp =
     (if open_spans sp k = None then sp
      else sp\<lparr>open_spans := (open_spans sp)(k := None), ended_spans := ended_spans sp @ [(k, None)]\<rparr>)"

section \<open>Requests\<close>

definition MAX_TASK_TITLE_LENGTH :: nat where "MAX_TASK_TITLE_LENGTH = 256"
definition MAX_TASK_DESCRIPTION_LENGTH :: nat where "MAX_TASK_DESCRIPTION_LENGTH = 4096"

record create_task_data =
  cd_title :: string
  cd_description :: string
  cd_type :: task_type
  cd_priority :: priority
  cd_project :: string
  cd_created_by :: string
  cd_assigned_to :: "string option"
  cd_dependencies :: "ident list"
  cd_estimated_complexity :: complexity
  cd_acceptance_criteria :: "acceptance_criterion list"
  cd_budget_limit :: rat

record create_mutation =
  cm_request_id :: string
  cm_requested_by :: string
  cm_task_data :: create_task_data

record update_mutation =
  um_request_id :: string
  um_requested_by :: string
  um_task_id :: ident
  um_updates :: "field_update list"
  um_expected_version :: "int option"

record transition_mutation =
  tm_request_id :: string
  tm_requested_by :: string
  tm_task_id :: ident
  tm_target_status :: task_status
  tm_reason :: string
  tm_overrides :: "field_update list"
  tm_expected_version :: "int option"

record delete_mutation =
  dm_request_id :: string
  dm_requested_by :: string
  dm_task_id :: ident

record cancel_mutation =
  xm_request_id :: string
  xm_requested_by :: string
  xm_task_id :: ident
  xm_reason :: string

datatype task_mutation =
    Create_Task create_mutation
  | Update_Task update_mutation
  | Transition_Task transition_mutation
  | Delete_Task delete_mutation
  | Cancel_Task cancel_mutation

definition ALWAYS_IMMUTABLE_FIELDS :: "string list" where
  "ALWAYS_IMMUTABLE_FIELDS = [''id'', ''created_by'']"

definition IMMUTABLE_TASK_FIELDS :: "string list" where
  "IMMUTABLE_TASK_FIELDS = ALWAYS_IMMUTABLE_FIELDS @ [''status'']"

datatype request_error = Malformed_Request | Unknown_Fields "string list" | Immutable_Fields "string list"

text \<open>
  \<open>_reject_immutable_fields\<close> and \<open>_reject_immutable_overrides\<close>: a mapping has
  each key once.
\<close>

definition reject_immutable_fields :: "field_update list \<Rightarrow> (request_error, unit) outcome" where
  "reject_immutable_fields us =
     (let keys = map update_key us;
          unknown = filter (\<lambda>k. k \<notin> set task_fields) keys;
          forbidden = filter (\<lambda>k. k \<in> set IMMUTABLE_TASK_FIELDS) keys
      in if \<not> distinct keys then Inl Malformed_Request
         else if unknown \<noteq> [] then Inl (Unknown_Fields (sort unknown))
         else if forbidden \<noteq> [] then Inl (Immutable_Fields (sort forbidden))
         else Inr ())"

definition create_data_ok :: "create_task_data \<Rightarrow> bool" where
  "create_data_ok d \<longleftrightarrow>
     not_blank (cd_title d) \<and> length (cd_title d) \<le> MAX_TASK_TITLE_LENGTH \<and>
     not_blank (cd_description d) \<and> length (cd_description d) \<le> MAX_TASK_DESCRIPTION_LENGTH \<and>
     not_blank (cd_project d) \<and> not_blank (cd_created_by d) \<and> opt_all not_blank (cd_assigned_to d) \<and>
     list_all not_blank (cd_dependencies d) \<and>
     list_all (\<lambda>c. not_blank (ac_description c)) (cd_acceptance_criteria d) \<and> 0 \<le> cd_budget_limit d"

text \<open>What constructing a request enforces.\<close>

fun construct_mutation :: "task_mutation \<Rightarrow> (request_error, task_mutation) outcome" where
  "construct_mutation (Create_Task m) =
     (if not_blank (cm_request_id m) \<and> not_blank (cm_requested_by m) \<and> create_data_ok (cm_task_data m)
      then Inr (Create_Task m) else Inl Malformed_Request)"
| "construct_mutation (Update_Task m) =
     (if not_blank (um_request_id m) \<and> not_blank (um_requested_by m) \<and> not_blank (um_task_id m) \<and>
         opt_all (\<lambda>v. 1 \<le> v) (um_expected_version m)
      then (case reject_immutable_fields (um_updates m) of Inl e \<Rightarrow> Inl e | Inr _ \<Rightarrow> Inr (Update_Task m))
      else Inl Malformed_Request)"
| "construct_mutation (Transition_Task m) =
     (if not_blank (tm_request_id m) \<and> not_blank (tm_requested_by m) \<and> not_blank (tm_task_id m) \<and>
         not_blank (tm_reason m) \<and> opt_all (\<lambda>v. 1 \<le> v) (tm_expected_version m)
      then (case reject_immutable_fields (tm_overrides m) of Inl e \<Rightarrow> Inl e | Inr _ \<Rightarrow> Inr (Transition_Task m))
      else Inl Malformed_Request)"
| "construct_mutation (Delete_Task m) =
     (if not_blank (dm_request_id m) \<and> not_blank (dm_requested_by m) \<and> not_blank (dm_task_id m)
      then Inr (Delete_Task m) else Inl Malformed_Request)"
| "construct_mutation (Cancel_Task m) =
     (if not_blank (xm_request_id m) \<and> not_blank (xm_requested_by m) \<and> not_blank (xm_task_id m) \<and>
         not_blank (xm_reason m)
      then Inr (Cancel_Task m) else Inl Malformed_Request)"

fun mutation_request_id :: "task_mutation \<Rightarrow> string" where
  "mutation_request_id (Create_Task m) = cm_request_id m"
| "mutation_request_id (Update_Task m) = um_request_id m"
| "mutation_request_id (Transition_Task m) = tm_request_id m"
| "mutation_request_id (Delete_Task m) = dm_request_id m"
| "mutation_request_id (Cancel_Task m) = xm_request_id m"

section \<open>Results\<close>

datatype task_error_code = NOT_FOUND | VERSION_CONFLICT | VALIDATION | INTERNAL_ERROR | PARENT_OF_PLAN

record plan_ref =
  pr_id :: ident
  pr_parent_task_id :: ident
  pr_status :: plan_status

text \<open>\<open>delete_refusal_message\<close>: a plan that never became work names the delete route.\<close>

datatype refusal_message = Delete_Plan_First ident ident | Plan_Retained ident ident plan_status

definition delete_refusal_message :: "ident \<Rightarrow> plan_ref \<Rightarrow> refusal_message" where
  "delete_refusal_message task_id plan =
     (if pr_status plan \<in> DELETABLE_STATUSES then Delete_Plan_First task_id (pr_id plan)
      else Plan_Retained task_id (pr_id plan) (pr_status plan))"

datatype mutation_error =
    E_Task_Not_Found ident
  | E_Version_Conflict ident int int
  | E_Invalid_Row validation_error
  | E_Invalid_Transition transition_error
  | E_Parent_Of_Plan refusal_message
  | E_Internal string

record mutation_result =
  mr_request_id :: string
  mr_success :: bool
  mr_task :: "task option"
  mr_version :: int
  mr_previous_status :: "task_status option"
  mr_error :: "mutation_error option"
  mr_error_code :: "task_error_code option"

definition check_consistency :: "mutation_result \<Rightarrow> bool" where
  "check_consistency r \<longleftrightarrow>
     not_blank (mr_request_id r) \<and> 0 \<le> mr_version r \<and>
     \<not> (mr_success r \<and> mr_error r \<noteq> None) \<and> \<not> (\<not> mr_success r \<and> mr_error r = None) \<and>
     \<not> (mr_success r \<and> mr_error_code r \<noteq> None) \<and> \<not> (\<not> mr_success r \<and> mr_error_code r = None)"

definition success_result :: "string \<Rightarrow> task option \<Rightarrow> int \<Rightarrow> task_status option \<Rightarrow> mutation_result" where
  "success_result rid t v prev =
     \<lparr>mr_request_id = rid, mr_success = True, mr_task = t, mr_version = v,
      mr_previous_status = prev, mr_error = None, mr_error_code = None\<rparr>"

definition failure_result :: "string \<Rightarrow> mutation_error \<Rightarrow> task_error_code \<Rightarrow> mutation_result" where
  "failure_result rid e c =
     \<lparr>mr_request_id = rid, mr_success = False, mr_task = None, mr_version = 0,
      mr_previous_status = None, mr_error = Some e, mr_error_code = Some c\<rparr>"

definition not_found_result :: "string \<Rightarrow> ident \<Rightarrow> mutation_result" where
  "not_found_result rid k = failure_result rid (E_Task_Not_Found k) NOT_FOUND"

section \<open>Appliers\<close>

definition RECORDED_STATUS_OUTCOME :: "task_status \<Rightarrow> string option" where
  "RECORDED_STATUS_OUTCOME s =
     map_of [(COMPLETED, ''succeeded''), (FAILED, ''failed''), (CANCELLED, ''cancelled''),
             (REJECTED, ''rejected'')] s"

definition TRULY_TERMINAL_STATUSES :: "task_status list" where
  "TRULY_TERMINAL_STATUSES = [COMPLETED, CANCELLED, REJECTED]"

definition compute_task_duration_sec :: "int \<Rightarrow> int \<Rightarrow> int" where
  "compute_task_duration_sec created_at now = max 0 (now - created_at)"

datatype metric =
    Task_Transition task_status task_status
  | Task_Run string int

record engine =
  tasks :: task_store
  versions :: version_tracker
  spans :: "span_tracker option"
  metrics :: "metric list"

record call_env =
  env_new_id :: ident
  env_now :: int
  env_save_raises :: bool
  env_plans_before :: "plan_ref list"
  env_plans_at_delete :: "plan_ref list"
  env_plans_after :: "plan_ref list"
  env_restricted :: "ident list"

datatype engine_exn = Store_Failure | Constraint_Violation

type_synonym applied = "(engine_exn, mutation_result) outcome \<times> engine"

definition on_spans :: "(span_tracker \<Rightarrow> span_tracker) \<Rightarrow> engine \<Rightarrow> engine" where
  "on_spans f e = e\<lparr>spans := map_option f (spans e)\<rparr>"

definition create_row :: "call_env \<Rightarrow> create_task_data \<Rightarrow> task" where
  "create_row env d =
     (new_task (env_new_id env) (cd_title d) (cd_description d) (cd_type d) (cd_project d)
        (cd_created_by d) (env_now env))
       \<lparr>t_priority := cd_priority d, t_assigned_to := cd_assigned_to d,
        t_dependencies := cd_dependencies d, t_estimated_complexity := cd_estimated_complexity d,
        t_acceptance_criteria := cd_acceptance_criteria d, t_budget_limit := cd_budget_limit d\<rparr>"

definition apply_create :: "(string \<Rightarrow> bool) \<Rightarrow> call_env \<Rightarrow> create_mutation \<Rightarrow> engine \<Rightarrow> applied" where
  "apply_create is_iso env m e =
     (case model_validate is_iso (create_row env (cm_task_data m), []) of
        Inl err \<Rightarrow> (Inr (failure_result (cm_request_id m) (E_Invalid_Row err) VALIDATION), e)
      | Inr t \<Rightarrow>
          if env_save_raises env then (Inl Store_Failure, e)
          else (case vt_set_initial (env_new_id env) 1 (versions e) of
                  Inl _ \<Rightarrow> (Inl Store_Failure, e\<lparr>tasks := repo_save t (tasks e)\<rparr>)
                | Inr vs \<Rightarrow>
                    (Inr (success_result (cm_request_id m) (Some t) 1 None),
                     on_spans (span_start (env_new_id env) (cd_type (cm_task_data m)))
                       (e\<lparr>tasks := repo_save t (tasks e), versions := vs\<rparr>))))"

definition apply_update :: "(string \<Rightarrow> bool) \<Rightarrow> call_env \<Rightarrow> update_mutation \<Rightarrow> engine \<Rightarrow> applied" where
  "apply_update is_iso env m e =
     (case repo_get (tasks e) (um_task_id m) of
        None \<Rightarrow> (Inr (not_found_result (um_request_id m) (um_task_id m)), e)
      | Some t \<Rightarrow>
          (case vt_check (um_task_id m) (um_expected_version m) (versions e) of
             (Some (v, current), vs) \<Rightarrow>
               (Inr (failure_result (um_request_id m)
                  (E_Version_Conflict (um_task_id m) v current) VERSION_CONFLICT), e\<lparr>versions := vs\<rparr>)
           | (None, vs) \<Rightarrow>
               if um_updates m = [] then
                 (Inr (success_result (um_request_id m) (Some t) (vt_get vs (um_task_id m))
                    (Some (t_status t))), e\<lparr>versions := vs\<rparr>)
               else (case model_validate is_iso (merge_updates (um_updates m) (t, [])) of
                  Inl err \<Rightarrow>
                    (Inr (failure_result (um_request_id m) (E_Invalid_Row err) VALIDATION),
                     e\<lparr>versions := vs\<rparr>)
                | Inr updated \<Rightarrow>
                    if env_save_raises env then (Inl Store_Failure, e\<lparr>versions := vs\<rparr>)
                    else (case vt_bump (um_task_id m) vs of (version, vs') \<Rightarrow>
                      (Inr (success_result (um_request_id m) (Some updated) version
                         (Some (t_status t))),
                       e\<lparr>tasks := repo_save updated (tasks e), versions := vs'\<rparr>)))))"

text \<open>The metrics and the span work that follow a persisted hop.\<close>

definition record_hop :: "call_env \<Rightarrow> ident \<Rightarrow> task_status \<Rightarrow> task \<Rightarrow> engine \<Rightarrow> engine" where
  "record_hop env k previous updated e =
     (let target = t_status updated;
          e1 = e\<lparr>metrics := metrics e @ [Task_Transition previous target]\<rparr>;
          e2 = (case RECORDED_STATUS_OUTCOME target of
                  None \<Rightarrow> e1
                | Some outcome \<Rightarrow>
                    e1\<lparr>metrics := metrics e1 @
                      [Task_Run outcome (compute_task_duration_sec (t_created_at updated) (env_now env))]\<rparr>);
          e3 = (if target \<in> set TRULY_TERMINAL_STATUSES \<or> target = FAILED
                then on_spans (span_end k target) e2 else e2)
      in if previous = FAILED \<and> target = ASSIGNED
         then on_spans (span_start k (t_type updated)) e3 else e3)"

definition apply_transition ::
  "(string \<Rightarrow> bool) \<Rightarrow> call_env \<Rightarrow> transition_mutation \<Rightarrow> engine \<Rightarrow> applied" where
  "apply_transition is_iso env m e =
     (case repo_get (tasks e) (tm_task_id m) of
        None \<Rightarrow> (Inr (not_found_result (tm_request_id m) (tm_task_id m)), e)
      | Some t \<Rightarrow>
          (case vt_check (tm_task_id m) (tm_expected_version m) (versions e) of
             (Some (v, current), vs) \<Rightarrow>
               (Inr (failure_result (tm_request_id m)
                  (E_Version_Conflict (tm_task_id m) v current) VERSION_CONFLICT), e\<lparr>versions := vs\<rparr>)
           | (None, vs) \<Rightarrow>
               (case with_transition is_iso t (tm_target_status m) (tm_overrides m) of
                  Inl err \<Rightarrow>
                    (Inr (failure_result (tm_request_id m) (E_Invalid_Transition err) VALIDATION),
                     e\<lparr>versions := vs\<rparr>)
                | Inr updated \<Rightarrow>
                    if env_save_raises env then (Inl Store_Failure, e\<lparr>versions := vs\<rparr>)
                    else (case vt_bump (tm_task_id m) vs of (version, vs') \<Rightarrow>
                      (Inr (success_result (tm_request_id m) (Some updated) version
                         (Some (t_status t))),
                       record_hop env (tm_task_id m) (t_status t) updated
                         (e\<lparr>tasks := repo_save updated (tasks e), versions := vs'\<rparr>))))))"

definition plan_blocking_delete :: "plan_ref list \<Rightarrow> ident \<Rightarrow> plan_ref option" where
  "plan_blocking_delete plans k = find (\<lambda>p. pr_parent_task_id p = k) plans"

definition parent_of_plan_result :: "delete_mutation \<Rightarrow> plan_ref \<Rightarrow> mutation_result" where
  "parent_of_plan_result m plan =
     failure_result (dm_request_id m) (E_Parent_Of_Plan (delete_refusal_message (dm_task_id m) plan))
       PARENT_OF_PLAN"

text \<open>
  The repository's delete: \<open>RESTRICT\<close> refuses to remove a row another table
  still names, otherwise it says whether there was a row.
\<close>

definition repo_try_delete ::
  "call_env \<Rightarrow> ident \<Rightarrow> task_store \<Rightarrow> (engine_exn, bool) outcome" where
  "repo_try_delete env k store =
     (if repo_get store k = None then Inr False
      else if plan_blocking_delete (env_plans_at_delete env) k \<noteq> None \<or> k \<in> set (env_restricted env)
      then Inl Constraint_Violation else Inr True)"

definition apply_delete :: "call_env \<Rightarrow> delete_mutation \<Rightarrow> engine \<Rightarrow> applied" where
  "apply_delete env m e =
     (case plan_blocking_delete (env_plans_before env) (dm_task_id m) of
        Some plan \<Rightarrow> (Inr (parent_of_plan_result m plan), e)
      | None \<Rightarrow>
          (case repo_try_delete env (dm_task_id m) (tasks e) of
             Inl exn \<Rightarrow>
               (case plan_blocking_delete (env_plans_after env) (dm_task_id m) of
                  None \<Rightarrow> (Inl exn, e)
                | Some raced \<Rightarrow> (Inr (parent_of_plan_result m raced), e))
           | Inr deleted \<Rightarrow>
               if \<not> deleted then (Inr (not_found_result (dm_request_id m) (dm_task_id m)), e)
               else (Inr (success_result (dm_request_id m) None 0 None),
                     on_spans (span_remove (dm_task_id m))
                       (e\<lparr>tasks := repo_delete (dm_task_id m) (tasks e),
                          versions := vt_remove (dm_task_id m) (versions e)\<rparr>))))"

definition apply_cancel :: "(string \<Rightarrow> bool) \<Rightarrow> call_env \<Rightarrow> cancel_mutation \<Rightarrow> engine \<Rightarrow> applied" where
  "apply_cancel is_iso env m e =
     (case repo_get (tasks e) (xm_task_id m) of
        None \<Rightarrow> (Inr (not_found_result (xm_request_id m) (xm_task_id m)), e)
      | Some t \<Rightarrow>
          (case with_transition is_iso t CANCELLED [] of
             Inl err \<Rightarrow>
               (Inr (failure_result (xm_request_id m) (E_Invalid_Transition err) VALIDATION), e)
           | Inr updated \<Rightarrow>
               if env_save_raises env then (Inl Store_Failure, e)
               else (case vt_bump (xm_task_id m) (versions e) of (version, vs) \<Rightarrow>
                 (Inr (success_result (xm_request_id m) (Some updated) version (Some (t_status t))),
                  on_spans (span_end (xm_task_id m) CANCELLED)
                    (e\<lparr>tasks := repo_save updated (tasks e), versions := vs,
                       metrics := metrics e @
                         [Task_Transition (t_status t) CANCELLED,
                          Task_Run ''cancelled''
                            (compute_task_duration_sec (t_created_at updated) (env_now env))]\<rparr>)))))"

fun dispatch :: "(string \<Rightarrow> bool) \<Rightarrow> call_env \<Rightarrow> task_mutation \<Rightarrow> engine \<Rightarrow> applied" where
  "dispatch is_iso env (Create_Task m) e = apply_create is_iso env m e"
| "dispatch is_iso env (Update_Task m) e = apply_update is_iso env m e"
| "dispatch is_iso env (Transition_Task m) e = apply_transition is_iso env m e"
| "dispatch is_iso env (Delete_Task m) e = apply_delete env m e"
| "dispatch is_iso env (Cancel_Task m) e = apply_cancel is_iso env m e"

section \<open>The abstract writer\<close>

text \<open>
  The version a check compares against: an untracked task counts as version 1,
  which is what seeding makes it.
\<close>

definition vt_level :: "version_tracker \<Rightarrow> ident \<Rightarrow> int" where
  "vt_level vs k = (case vs k of None \<Rightarrow> 1 | Some v \<Rightarrow> v)"

lemma vt_level_seed [simp]: "vt_level (vt_seed k vs) = vt_level vs"
  by (auto simp: vt_level_def vt_seed_def fun_eq_iff split: option.splits)

lemma the_seed [simp]: "the (vt_seed k vs k) = vt_level vs k"
  by (auto simp: vt_level_def vt_seed_def split: option.splits)

lemma vt_bump_eq [simp]: "fst (vt_bump k vs) = vt_level vs k + 1"
  "vt_level (snd (vt_bump k vs)) = (vt_level vs)(k := vt_level vs k + 1)"
  by (auto simp: vt_bump_def Let_def vt_level_def vt_seed_def fun_eq_iff split: option.splits)

lemma vt_bump_pair:
  "vt_bump k vs = (v, vs') \<Longrightarrow> v = vt_level vs k + 1 \<and> vt_level vs' = (vt_level vs)(k := vt_level vs k + 1)"
  using vt_bump_eq[of k vs] by simp

lemma vt_check_level [simp]: "vt_level (snd (vt_check k ex vs)) = vt_level vs"
  by (auto simp: vt_check_def Let_def split: option.splits)

lemma vt_check_None: "fst (vt_check k ex vs) = None \<longleftrightarrow> ex = None \<or> ex = Some (vt_level vs k)"
  by (auto simp: vt_check_def Let_def split: option.splits)

lemma vt_check_Some: "fst (vt_check k ex vs) = Some vc \<longleftrightarrow> (\<exists>v. ex = Some v \<and> v \<noteq> vt_level vs k \<and> vc = (v, vt_level vs k))"
  by (auto simp: vt_check_def Let_def split: option.splits)

definition hop_spans :: "ident \<Rightarrow> task_status \<Rightarrow> task \<Rightarrow> span_tracker \<Rightarrow> span_tracker" where
  "hop_spans k previous t sp =
     (let sp1 = (if t_status t \<in> {COMPLETED, CANCELLED, REJECTED, FAILED}
                 then span_end k (t_status t) sp else sp)
      in if previous = FAILED \<and> t_status t = ASSIGNED then span_start k (t_type t) sp1 else sp1)"

text \<open>
  What the single writer may do to the world, about one task: look, file it,
  edit it without moving its status, move it along one legal hop, or remove it.
\<close>

datatype step_kind = Observed | Filed | Edited | Hopped | Removed

inductive task_step :: "(string \<Rightarrow> bool) \<Rightarrow> ident \<Rightarrow> step_kind \<Rightarrow> engine \<Rightarrow> engine \<Rightarrow> bool" for is_iso k where
  observed: "\<lbrakk>tasks e' = tasks e; spans e' = spans e; metrics e' = metrics e;
     vt_level (versions e') = vt_level (versions e)\<rbrakk> \<Longrightarrow> task_step is_iso k Observed e e'"
| filed: "\<lbrakk>task_valid is_iso t; t_id t = k; t_status t = CREATED; tasks e' = (tasks e)(k \<mapsto> t);
     spans e' = map_option (span_start k (t_type t)) (spans e);
     vt_level (versions e') = (vt_level (versions e))(k := 1)\<rbrakk> \<Longrightarrow> task_step is_iso k Filed e e'"
| edited: "\<lbrakk>tasks e k = Some t; task_valid is_iso t'; t_id t' = t_id t; t_created_by t' = t_created_by t;
     t_status t' = t_status t; tasks e' = (tasks e)(t_id t \<mapsto> t'); spans e' = spans e;
     vt_level (versions e') = (vt_level (versions e))(k := vt_level (versions e) k + 1)\<rbrakk>
     \<Longrightarrow> task_step is_iso k Edited e e'"
| hopped: "\<lbrakk>tasks e k = Some t; task_valid is_iso t'; t_id t' = t_id t; t_created_by t' = t_created_by t;
     t_status t' \<in> set (successors task_machine (t_status t)); tasks e' = (tasks e)(t_id t \<mapsto> t');
     spans e' = map_option (hop_spans k (t_status t) t') (spans e);
     vt_level (versions e') = (vt_level (versions e))(k := vt_level (versions e) k + 1)\<rbrakk>
     \<Longrightarrow> task_step is_iso k Hopped e e'"
| removed: "\<lbrakk>tasks e k \<noteq> None; tasks e' = (tasks e)(k := None);
     spans e' = map_option (span_remove k) (spans e);
     vt_level (versions e') = (vt_level (versions e))(k := 1)\<rbrakk> \<Longrightarrow> task_step is_iso k Removed e e'"

text \<open>The task a mutation is about.\<close>

fun mutation_target :: "call_env \<Rightarrow> task_mutation \<Rightarrow> ident" where
  "mutation_target env (Create_Task m) = env_new_id env"
| "mutation_target env (Update_Task m) = um_task_id m"
| "mutation_target env (Transition_Task m) = tm_task_id m"
| "mutation_target env (Delete_Task m) = dm_task_id m"
| "mutation_target env (Cancel_Task m) = xm_task_id m"

text \<open>
  The step a mutation takes when it takes effect, whether it asks for anything,
  and whether it succeeded.
\<close>

fun effect_kind :: "task_mutation \<Rightarrow> step_kind" where
  "effect_kind (Create_Task m) = Filed"
| "effect_kind (Update_Task m) = Edited"
| "effect_kind (Transition_Task m) = Hopped"
| "effect_kind (Delete_Task m) = Removed"
| "effect_kind (Cancel_Task m) = Hopped"

fun asks_change :: "task_mutation \<Rightarrow> bool" where
  "asks_change (Update_Task m) = (um_updates m \<noteq> [])"
| "asks_change _ = True"

definition succeeded :: "(engine_exn, mutation_result) outcome \<Rightarrow> bool" where
  "succeeded r = (case r of Inl _ \<Rightarrow> False | Inr res \<Rightarrow> mr_success res)"

definition takes_effect :: "task_mutation \<Rightarrow> (engine_exn, mutation_result) outcome \<Rightarrow> bool" where
  "takes_effect m r \<longleftrightarrow> succeeded r \<and> asks_change m"

lemma result_success [simp]:
  "succeeded (Inl x) = False" "succeeded (Inr (success_result rid t v prev)) = True"
  "succeeded (Inr (failure_result rid err c)) = False" "succeeded (Inr (not_found_result rid k)) = False"
  by (simp_all add: succeeded_def success_result_def failure_result_def not_found_result_def)

lemma on_spans_simps [simp]:
  "tasks (on_spans f e) = tasks e" "versions (on_spans f e) = versions e"
  "metrics (on_spans f e) = metrics e" "spans (on_spans f e) = map_option f (spans e)"
  by (simp_all add: on_spans_def)

lemma record_hop_simps [simp]:
  "tasks (record_hop env k prev t e) = tasks e"
  "versions (record_hop env k prev t e) = versions e"
  "spans (record_hop env k prev t e) = map_option (hop_spans k prev t) (spans e)"
proof -
  show "tasks (record_hop env k prev t e) = tasks e" "versions (record_hop env k prev t e) = versions e"
    by (simp_all add: record_hop_def Let_def split: option.splits)
  show "spans (record_hop env k prev t e) = map_option (hop_spans k prev t) (spans e)"
    by (cases "spans e"; cases "t_status t")
      (simp_all add: record_hop_def hop_spans_def Let_def TRULY_TERMINAL_STATUSES_def RECORDED_STATUS_OUTCOME_def)
qed

lemma reject_immutable_Inr:
  "reject_immutable_fields us = Inr u \<Longrightarrow>
   ''id'' \<notin> set (map update_key us) \<and> ''created_by'' \<notin> set (map update_key us) \<and>
   ''status'' \<notin> set (map update_key us)"
  by (auto simp: reject_immutable_fields_def Let_def IMMUTABLE_TASK_FIELDS_def ALWAYS_IMMUTABLE_FIELDS_def
      filter_empty_conv split: if_splits)

lemma merged_row:
  assumes "model_validate is_iso (merge_updates us (t, [])) = Inr t'"
    and "reject_immutable_fields us = Inr u"
  shows "task_valid is_iso t'" "t_id t' = t_id t" "t_created_by t' = t_created_by t" "t_status t' = t_status t"
proof -
  obtain row ill where m: "merge_updates us (t, []) = (row, ill)" by fastforce
  with assms(1) have v: "model_validate is_iso (row, ill) = Inr t'" by simp
  from model_validate_Inr[OF v] show "task_valid is_iso t'" by simp
  from merge_updates_keeps[of us "(t, [])"] reject_immutable_Inr[OF assms(2)] m model_validate_Inr(1)[OF v]
  show "t_id t' = t_id t" "t_created_by t' = t_created_by t" "t_status t' = t_status t" by auto
qed

lemma create_row_simps [simp]:
  "t_id (create_row env d) = env_new_id env" "t_status (create_row env d) = CREATED"
  "t_type (create_row env d) = cd_type d" "t_assigned_to (create_row env d) = cd_assigned_to d"
  by (simp_all add: create_row_def new_task_def)

text \<open>Each applier takes its own step when it takes effect and only looks otherwise.\<close>

lemma apply_create_step:
  "task_step is_iso (env_new_id env)
     (if takes_effect (Create_Task m) (fst (apply_create is_iso env m e)) then Filed else Observed)
     e (snd (apply_create is_iso env m e))"
proof (cases "model_validate is_iso (create_row env (cm_task_data m), [])")
  case (Inl err)
  then show ?thesis by (simp add: apply_create_def takes_effect_def task_step.observed)
next
  case (Inr t)
  note t = model_validate_Inr[OF Inr]
  show ?thesis
  proof (cases "env_save_raises env")
    case True
    then show ?thesis using Inr by (simp add: apply_create_def takes_effect_def task_step.observed)
  next
    case False
    then have "task_step is_iso (env_new_id env) Filed e (snd (apply_create is_iso env m e))"
      using Inr t by (intro task_step.filed[where t = t])
        (auto simp: apply_create_def vt_set_initial_def repo_save_def vt_level_def fun_eq_iff)
    with False Inr show ?thesis
      by (simp add: apply_create_def vt_set_initial_def takes_effect_def)
  qed
qed

lemma apply_update_step:
  assumes "reject_immutable_fields (um_updates m) = Inr u"
  shows "task_step is_iso (um_task_id m)
     (if takes_effect (Update_Task m) (fst (apply_update is_iso env m e)) then Edited else Observed)
     e (snd (apply_update is_iso env m e))"
proof -
  obtain c vs where cv: "vt_check (um_task_id m) (um_expected_version m) (versions e) = (c, vs)" by fastforce
  have vs: "vt_level vs = vt_level (versions e)"
    using vt_check_level[of "um_task_id m" "um_expected_version m" "versions e"] cv by simp
  show ?thesis
  proof (cases "\<exists>t t'. repo_get (tasks e) (um_task_id m) = Some t \<and> c = None \<and> um_updates m \<noteq> [] \<and>
      model_validate is_iso (merge_updates (um_updates m) (t, [])) = Inr t' \<and> \<not> env_save_raises env")
    case True
    then obtain t t' where h: "repo_get (tasks e) (um_task_id m) = Some t" "c = None" "um_updates m \<noteq> []"
        "model_validate is_iso (merge_updates (um_updates m) (t, [])) = Inr t'" "\<not> env_save_raises env"
      by auto
    then have "task_step is_iso (um_task_id m) Edited e (snd (apply_update is_iso env m e))"
      using cv vs merged_row[OF h(4) assms]
      by (intro task_step.edited[where t = t and t' = t'])
        (auto simp: apply_update_def repo_get_def repo_save_def split: prod.splits dest: vt_bump_pair)
    moreover have "takes_effect (Update_Task m) (fst (apply_update is_iso env m e))"
      using h cv by (simp add: apply_update_def takes_effect_def split: prod.splits)
    ultimately show ?thesis by simp
  next
    case False
    then have "\<not> takes_effect (Update_Task m) (fst (apply_update is_iso env m e))"
      using cv by (auto simp: apply_update_def takes_effect_def split: option.splits prod.splits sum.splits if_splits)
    moreover have "task_step is_iso (um_task_id m) Observed e (snd (apply_update is_iso env m e))"
      using False cv vs by (intro task_step.observed)
        (auto simp: apply_update_def split: option.splits prod.splits sum.splits if_splits)
    ultimately show ?thesis by simp
  qed
qed

lemma apply_transition_step:
  assumes "reject_immutable_fields (tm_overrides m) = Inr u"
  shows "task_step is_iso (tm_task_id m)
     (if takes_effect (Transition_Task m) (fst (apply_transition is_iso env m e)) then Hopped else Observed)
     e (snd (apply_transition is_iso env m e))"
proof -
  obtain c vs where cv: "vt_check (tm_task_id m) (tm_expected_version m) (versions e) = (c, vs)" by fastforce
  have vs: "vt_level vs = vt_level (versions e)"
    using vt_check_level[of "tm_task_id m" "tm_expected_version m" "versions e"] cv by simp
  show ?thesis
  proof (cases "\<exists>t t'. repo_get (tasks e) (tm_task_id m) = Some t \<and> c = None \<and>
      with_transition is_iso t (tm_target_status m) (tm_overrides m) = Inr t' \<and> \<not> env_save_raises env")
    case True
    then obtain t t' where h: "repo_get (tasks e) (tm_task_id m) = Some t" "c = None"
        "with_transition is_iso t (tm_target_status m) (tm_overrides m) = Inr t'" "\<not> env_save_raises env"
      by auto
    then have "task_step is_iso (tm_task_id m) Hopped e (snd (apply_transition is_iso env m e))"
      using cv vs with_transition_Inr[OF h(3)] reject_immutable_Inr[OF assms]
      by (intro task_step.hopped[where t = t and t' = t'])
        (auto simp: apply_transition_def repo_get_def repo_save_def split: prod.splits dest: vt_bump_pair)
    moreover have "takes_effect (Transition_Task m) (fst (apply_transition is_iso env m e))"
      using h cv by (simp add: apply_transition_def takes_effect_def split: prod.splits)
    ultimately show ?thesis by simp
  next
    case False
    then have "\<not> takes_effect (Transition_Task m) (fst (apply_transition is_iso env m e))"
      using cv by (auto simp: apply_transition_def takes_effect_def split: option.splits prod.splits sum.splits if_splits)
    moreover have "task_step is_iso (tm_task_id m) Observed e (snd (apply_transition is_iso env m e))"
      using False cv vs by (intro task_step.observed)
        (auto simp: apply_transition_def split: option.splits prod.splits sum.splits if_splits)
    ultimately show ?thesis by simp
  qed
qed

lemma apply_cancel_step:
  "task_step is_iso (xm_task_id m)
     (if takes_effect (Cancel_Task m) (fst (apply_cancel is_iso env m e)) then Hopped else Observed)
     e (snd (apply_cancel is_iso env m e))"
proof (cases "\<exists>t t'. repo_get (tasks e) (xm_task_id m) = Some t \<and>
    with_transition is_iso t CANCELLED [] = Inr t' \<and> \<not> env_save_raises env")
  case True
  then obtain t t' where h: "repo_get (tasks e) (xm_task_id m) = Some t"
      "with_transition is_iso t CANCELLED [] = Inr t'" "\<not> env_save_raises env"
    by blast
  have "hop_spans (xm_task_id m) (t_status t) t' = span_end (xm_task_id m) CANCELLED"
    using with_transition_Inr(3)[OF h(2)] by (auto simp: hop_spans_def Let_def)
  then have "task_step is_iso (xm_task_id m) Hopped e (snd (apply_cancel is_iso env m e))"
    using h with_transition_Inr[OF h(2)]
    by (intro task_step.hopped[where t = t and t' = t'])
      (auto simp: apply_cancel_def repo_get_def repo_save_def split: prod.splits dest: vt_bump_pair)
  with h show ?thesis by (simp add: apply_cancel_def takes_effect_def split: prod.splits)
next
  case False
  then have "\<not> takes_effect (Cancel_Task m) (fst (apply_cancel is_iso env m e))"
    by (auto simp: apply_cancel_def takes_effect_def split: option.splits sum.splits if_splits)
  moreover have "task_step is_iso (xm_task_id m) Observed e (snd (apply_cancel is_iso env m e))"
    using False by (intro task_step.observed)
      (auto simp: apply_cancel_def split: option.splits sum.splits if_splits)
  ultimately show ?thesis by simp
qed

lemma apply_delete_step:
  "task_step is_iso (dm_task_id m)
     (if takes_effect (Delete_Task m) (fst (apply_delete env m e)) then Removed else Observed)
     e (snd (apply_delete env m e))"
proof (cases "plan_blocking_delete (env_plans_before env) (dm_task_id m) = None \<and>
    repo_try_delete env (dm_task_id m) (tasks e) = Inr True")
  case True
  then have "tasks e (dm_task_id m) \<noteq> None"
    by (auto simp: repo_try_delete_def repo_get_def split: if_splits)
  with True have "task_step is_iso (dm_task_id m) Removed e (snd (apply_delete env m e))"
    by (intro task_step.removed)
      (auto simp: apply_delete_def repo_delete_def vt_remove_def vt_level_def fun_eq_iff)
  with True show ?thesis by (simp add: apply_delete_def takes_effect_def)
next
  case False
  then have "\<not> takes_effect (Delete_Task m) (fst (apply_delete env m e))"
    by (auto simp: apply_delete_def takes_effect_def parent_of_plan_result_def
        split: option.splits sum.splits if_splits)
  moreover have "task_step is_iso (dm_task_id m) Observed e (snd (apply_delete env m e))"
    using False by (intro task_step.observed)
      (auto simp: apply_delete_def split: option.splits sum.splits if_splits)
  ultimately show ?thesis by simp
qed

definition dispatch_kind :: "(string \<Rightarrow> bool) \<Rightarrow> call_env \<Rightarrow> task_mutation \<Rightarrow> engine \<Rightarrow> step_kind" where
  "dispatch_kind is_iso env m e =
     (if takes_effect m (fst (dispatch is_iso env m e)) then effect_kind m else Observed)"

lemma dispatch_step:
  assumes "construct_mutation m = Inr m"
  shows "task_step is_iso (mutation_target env m) (dispatch_kind is_iso env m e) e
    (snd (dispatch is_iso env m e))"
proof (cases m)
  case (Create_Task c)
  then show ?thesis using apply_create_step[of is_iso env c e] by (simp add: dispatch_kind_def split: if_splits)
next
  case (Update_Task c)
  then show ?thesis
    using assms apply_update_step[of c _ is_iso env e] by (auto simp: dispatch_kind_def split: if_splits sum.splits)
next
  case (Transition_Task c)
  then show ?thesis
    using assms apply_transition_step[of c _ is_iso env e] by (auto simp: dispatch_kind_def split: if_splits sum.splits)
next
  case (Delete_Task c)
  then show ?thesis using apply_delete_step[of is_iso c env e] by (simp add: dispatch_kind_def split: if_splits)
next
  case (Cancel_Task c)
  then show ?thesis using apply_cancel_step[of is_iso c env e] by (simp add: dispatch_kind_def split: if_splits)
qed

section \<open>Invariants of the store\<close>

text \<open>Every stored row is valid and filed under its own id.\<close>

definition store_ok :: "(string \<Rightarrow> bool) \<Rightarrow> engine \<Rightarrow> bool" where
  "store_ok is_iso e \<longleftrightarrow> (\<forall>k t. repo_get (tasks e) k = Some t \<longrightarrow> t_id t = k \<and> task_valid is_iso t)"

lemma store_okD: "store_ok is_iso e \<Longrightarrow> tasks e k = Some t \<Longrightarrow> t_id t = k \<and> task_valid is_iso t"
  by (simp add: store_ok_def repo_get_def)

lemma store_ok_save:
  "store_ok is_iso e \<Longrightarrow> task_valid is_iso t \<Longrightarrow> tasks e' = (tasks e)(t_id t \<mapsto> t) \<Longrightarrow> store_ok is_iso e'"
  unfolding store_ok_def repo_save_def[symmetric] by (drule repo.all_put) auto

lemma store_ok_step:
  assumes "task_step is_iso k kd e e'" and "store_ok is_iso e"
  shows "store_ok is_iso e'"
  using assms(1)
proof cases
  case observed
  then show ?thesis using assms(2) by (simp add: store_ok_def)
next
  case (filed t)
  then show ?thesis using assms(2) store_ok_save[of is_iso e t e'] by simp
next
  case (edited t t')
  then show ?thesis using assms(2) store_ok_save[of is_iso e t' e'] by simp
next
  case (hopped t t')
  then show ?thesis using assms(2) store_ok_save[of is_iso e t' e'] by simp
next
  case removed
  with repo.all_drop[OF assms(2)[unfolded store_ok_def], of k] show ?thesis
    unfolding store_ok_def repo_delete_def[symmetric] by simp
qed

text \<open>A sequence of mutations, each applied with its own environment.\<close>

definition run_mutations :: "(string \<Rightarrow> bool) \<Rightarrow> (call_env \<times> task_mutation) list \<Rightarrow> engine \<Rightarrow> engine" where
  "run_mutations is_iso ms e = fold (\<lambda>(env, m) e. snd (dispatch is_iso env m e)) ms e"

definition constructed :: "(call_env \<times> task_mutation) list \<Rightarrow> bool" where
  "constructed ms \<longleftrightarrow> list_all (\<lambda>(env, m). construct_mutation m = Inr m) ms"

lemma run_mutations_induct:
  assumes "constructed ms" and "P e"
    and "\<And>env m e. (env, m) \<in> set ms \<Longrightarrow> construct_mutation m = Inr m \<Longrightarrow> P e
      \<Longrightarrow> P (snd (dispatch is_iso env m e))"
  shows "P (run_mutations is_iso ms e)"
  using assms
proof (induction ms arbitrary: e)
  case (Cons x ms)
  obtain env m where x: "x = (env, m)" by fastforce
  with Cons.prems(1) have c: "construct_mutation m = Inr m" "constructed ms"
    by (auto simp: constructed_def)
  have "P (snd (dispatch is_iso env m e))"
    using Cons.prems(2,3) c(1) x by simp
  then have "P (run_mutations is_iso ms (snd (dispatch is_iso env m e)))"
    using Cons.IH[OF c(2)] Cons.prems(3) by simp
  then show ?case by (simp add: run_mutations_def x)
qed (simp add: run_mutations_def)

lemma store_ok_run: "constructed ms \<Longrightarrow> store_ok is_iso e \<Longrightarrow> store_ok is_iso (run_mutations is_iso ms e)"
  by (rule run_mutations_induct[where P = "store_ok is_iso"]) (auto intro: store_ok_step dispatch_step)

definition empty_engine :: engine where
  "empty_engine = \<lparr>tasks = Map.empty, versions = Map.empty,
     spans = Some \<lparr>open_spans = Map.empty, ended_spans = []\<rparr>, metrics = []\<rparr>"

text \<open>A small concrete history: a task is filed, assigned, started, reviewed and completed.\<close>

definition demo_env :: call_env where
  "demo_env = \<lparr>env_new_id = ''t1'', env_now = 5, env_save_raises = False, env_plans_before = [],
     env_plans_at_delete = [], env_plans_after = [], env_restricted = []\<rparr>"

definition demo_create :: task_mutation where
  "demo_create = Create_Task \<lparr>cm_request_id = ''r1'', cm_requested_by = ''ceo'',
     cm_task_data = \<lparr>cd_title = ''Parser'', cd_description = ''Write it'', cd_type = DEVELOPMENT,
       cd_priority = PRIORITY_HIGH, cd_project = ''p'', cd_created_by = ''ceo'', cd_assigned_to = None,
       cd_dependencies = [''t0''], cd_estimated_complexity = SIMPLE, cd_acceptance_criteria = [],
       cd_budget_limit = 0\<rparr>\<rparr>"

definition demo_hop :: "task_status \<Rightarrow> field_update list \<Rightarrow> int option \<Rightarrow> task_mutation" where
  "demo_hop target us ex = Transition_Task \<lparr>tm_request_id = ''r2'', tm_requested_by = ''ceo'',
     tm_task_id = ''t1'', tm_target_status = target, tm_reason = ''go'', tm_overrides = us,
     tm_expected_version = ex\<rparr>"

definition demo_history :: "(call_env \<times> task_mutation) list" where
  "demo_history =
     [(demo_env, demo_create),
      (demo_env, demo_hop ASSIGNED [Set_Assigned_To (Some ''ada'')] (Some 1)),
      (demo_env, demo_hop IN_PROGRESS [] (Some 2)),
      (demo_env, demo_hop COMPLETED [] None),
      (demo_env, demo_hop IN_REVIEW [] None),
      (demo_env, demo_hop COMPLETED [] (Some 4))]"

lemma demo_check:
  "constructed demo_history"
  "map_option t_status (tasks (run_mutations (\<lambda>_. True) demo_history empty_engine) ''t1'') = Some COMPLETED"
  by code_simp+

end
