(* ===== verification/Task_Engine_Properties.thy ===== *)
theory Task_Engine_Properties
  imports Task_Engine
begin

text \<open>
  What the single writer guarantees: the store invariant, the status history of
  a task, optimistic concurrency, failures that change nothing, spans that match
  the live tasks, and the guards of create, delete and cancel.
\<close>

section \<open>Rows and statuses\<close>

text \<open>
  C2. Whatever sequence of accepted mutations the engine applies, with whatever
  saves failing and whatever other writers do to the plans, every stored task is
  filed under its id and satisfies every field constraint and cross-field rule:
  in particular it does not depend on itself, has no repeated dependency, is
  assigned exactly as its status demands, and carries a block reason only while
  BLOCKED.
\<close>

theorem engine_rows_always_valid:
  assumes "constructed ms" and "tasks (run_mutations is_iso ms empty_engine) k = Some t"
  shows "t_id t = k \<and> task_valid is_iso t \<and> k \<notin> set (t_dependencies t) \<and> distinct (t_dependencies t) \<and>
    (t_status t = CREATED \<longrightarrow> t_assigned_to t = None) \<and>
    (t_status t \<in> set REQUIRES_ASSIGNEE \<longrightarrow> t_assigned_to t \<noteq> None) \<and>
    (t_blocked_reason t \<noteq> None \<longrightarrow> t_status t = BLOCKED)"
proof -
  have "store_ok is_iso empty_engine"
    by (simp add: store_ok_def empty_engine_def repo_get_def)
  with assms(1) have "store_ok is_iso (run_mutations is_iso ms empty_engine)"
    by (rule store_ok_run)
  from store_okD[OF this assms(2)] show ?thesis
    using task_coherent[of is_iso t] by auto
qed

theorem engine_rows_always_valid_witness:
  "\<exists>t. tasks (run_mutations (\<lambda>_. True) demo_history empty_engine) ''t1'' = Some t \<and>
     t_status t = COMPLETED \<and> t_assigned_to t \<noteq> None"
proof -
  obtain t where t: "tasks (run_mutations (\<lambda>_. True) demo_history empty_engine) ''t1'' = Some t"
      "t_status t = COMPLETED"
    using demo_check(2) by (cases "tasks (run_mutations (\<lambda>_. True) demo_history empty_engine) ''t1''") auto
  with engine_rows_always_valid[OF demo_check(1) t(1)] show ?thesis
    by (auto simp: REQUIRES_ASSIGNEE_def)
qed

text \<open>Mutations that neither file nor remove the task.\<close>

definition leaves_in_place :: "ident \<Rightarrow> call_env \<times> task_mutation \<Rightarrow> bool" where
  "leaves_in_place k x \<longleftrightarrow>
     (case x of (env, Create_Task m) \<Rightarrow> env_new_id env \<noteq> k
      | (env, Delete_Task m) \<Rightarrow> dm_task_id m \<noteq> k
      | _ \<Rightarrow> True)"

lemma step_other_task:
  assumes "task_step is_iso k kd e e'" and "store_ok is_iso e" and "j \<noteq> k"
  shows "tasks e' j = tasks e j" "vt_level (versions e') j = vt_level (versions e) j"
  using assms(1) by (cases; use assms(2,3) store_okD in force)+

lemma step_in_place:
  assumes "task_step is_iso k kd e e'" and "store_ok is_iso e" and "kd \<noteq> Filed" and "kd \<noteq> Removed"
    and "tasks e j = Some t"
  shows "\<exists>t'. tasks e' j = Some t' \<and> t_created_by t' = t_created_by t \<and>
      (t_status t' = t_status t \<or> t_status t' \<in> set (successors task_machine (t_status t)))"
    and "vt_level (versions e) j \<le> vt_level (versions e') j"
  using assms(1) by (cases; use assms(2-5) store_okD[OF assms(2), of k] in force)+

lemma dispatch_in_place:
  assumes "leaves_in_place j (env, m)" and "construct_mutation m = Inr m" and "store_ok is_iso e"
    and "tasks e j = Some t"
  shows "\<exists>t'. tasks (snd (dispatch is_iso env m e)) j = Some t' \<and> t_created_by t' = t_created_by t \<and>
      (t_status t' = t_status t \<or> t_status t' \<in> set (successors task_machine (t_status t)))"
    and "vt_level (versions e) j \<le> vt_level (versions (snd (dispatch is_iso env m e))) j"
proof -
  note step = dispatch_step[OF assms(2), of is_iso env e]
  have "mutation_target env m \<noteq> j \<or> dispatch_kind is_iso env m e \<notin> {Filed, Removed}"
    using assms(1) by (cases m) (auto simp: leaves_in_place_def dispatch_kind_def)
  then show "\<exists>t'. tasks (snd (dispatch is_iso env m e)) j = Some t' \<and> t_created_by t' = t_created_by t \<and>
      (t_status t' = t_status t \<or> t_status t' \<in> set (successors task_machine (t_status t)))"
    and "vt_level (versions e) j \<le> vt_level (versions (snd (dispatch is_iso env m e))) j"
    using step_other_task[OF step assms(3), of j] step_in_place[OF step assms(3) _ _ assms(4)] assms(4)
    by auto
qed

lemma drive_snoc:
  assumes "drive m s p = Inr t"
  shows "u \<in> set (successors m t) \<Longrightarrow> drive m s (p @ [u]) = Inr u"
  using assms unfolding drive_route by (simp add: route_append)

lemma history_in_place:
  assumes "constructed ms" and "list_all (leaves_in_place k) ms" and "store_ok is_iso e" and "tasks e k = Some t"
  shows "\<exists>t' p. tasks (run_mutations is_iso ms e) k = Some t' \<and> t_created_by t' = t_created_by t \<and>
      drive task_machine (t_status t) p = Inr (t_status t') \<and>
      vt_level (versions e) k \<le> vt_level (versions (run_mutations is_iso ms e)) k"
proof -
  let ?P = "\<lambda>e'. store_ok is_iso e' \<and> (\<exists>t' p. tasks e' k = Some t' \<and> t_created_by t' = t_created_by t \<and>
      drive task_machine (t_status t) p = Inr (t_status t')) \<and> vt_level (versions e) k \<le> vt_level (versions e') k"
  have "?P (run_mutations is_iso ms e)"
  proof (rule run_mutations_induct[OF assms(1), where P = ?P])
    show "?P e" using assms(3,4) by (auto intro: exI[of _ "[]"])
    fix env m e'
    let ?e = "snd (dispatch is_iso env m e')"
    assume mem: "(env, m) \<in> set ms" and c: "construct_mutation m = Inr m" and P: "?P e'"
    then obtain t' p where t': "tasks e' k = Some t'" "t_created_by t' = t_created_by t"
        "drive task_machine (t_status t) p = Inr (t_status t')" and ok: "store_ok is_iso e'"
      by auto
    have "leaves_in_place k (env, m)" using assms(2) mem by (auto simp: list_all_iff)
    note d = dispatch_in_place[OF this c ok t'(1)]
    from d(1) obtain t'' where t'': "tasks ?e k = Some t''" "t_created_by t'' = t_created_by t'"
        "t_status t'' = t_status t' \<or> t_status t'' \<in> set (successors task_machine (t_status t'))"
      by blast
    have "\<exists>p. drive task_machine (t_status t) p = Inr (t_status t'')"
      using t''(3) t'(3) drive_snoc[OF t'(3)] by auto
    with t'' t' d(2) P store_ok_step[OF dispatch_step[OF c] ok] show "?P ?e" by auto
  qed
  then show ?thesis by blast
qed

text \<open>
  C3. The status history of a task is a walk of the lifecycle table: however many
  mutations the engine applies to a filed task, its creator never changes and its
  status moves only along legal hops, so one that ends COMPLETED was completed out
  of IN_REVIEW.
\<close>

theorem engine_status_history:
  assumes "constructed ms" and "list_all (leaves_in_place k) ms" and "store_ok is_iso e"
    and "tasks e k = Some t"
  shows "\<exists>t' p. tasks (run_mutations is_iso ms e) k = Some t' \<and> t_created_by t' = t_created_by t \<and>
    drive task_machine (t_status t) p = Inr (t_status t') \<and>
    (t_status t' = COMPLETED \<and> t_status t \<noteq> COMPLETED \<longrightarrow> last (t_status t # butlast p) = IN_REVIEW)"
proof -
  obtain t' p where h: "tasks (run_mutations is_iso ms e) k = Some t'" "t_created_by t' = t_created_by t"
      "drive task_machine (t_status t) p = Inr (t_status t')"
    using history_in_place[OF assms] by blast
  moreover have "last (t_status t # butlast p) = IN_REVIEW" if "t_status t' = COMPLETED" "t_status t \<noteq> COMPLETED"
  proof -
    have "COMPLETED \<in> set (successors task_machine (last (t_status t # butlast p)))"
      using drive_last_hop[of task_machine "t_status t" p COMPLETED] h(3) that by simp
    then show ?thesis by (rule completed_predecessor)
  qed
  ultimately show ?thesis by blast
qed

definition demo_filed :: engine where
  "demo_filed = run_mutations (\<lambda>_. True) [(demo_env, demo_create)] empty_engine"

lemma demo_filed_ok: "store_ok (\<lambda>_. True) demo_filed"
proof -
  have "constructed [(demo_env, demo_create)]" by code_simp
  moreover have "store_ok (\<lambda>_. True) empty_engine"
    by (simp add: store_ok_def empty_engine_def repo_get_def)
  ultimately show ?thesis unfolding demo_filed_def by (rule store_ok_run)
qed

lemma demo_filed_row: "\<exists>t. tasks demo_filed ''t1'' = Some t \<and> t_status t = CREATED"
proof -
  have "map_option t_status (tasks demo_filed ''t1'') = Some CREATED" by code_simp
  then show ?thesis by (cases "tasks demo_filed ''t1''") auto
qed

theorem engine_status_history_witness:
  "\<exists>t p. tasks (run_mutations (\<lambda>_. True) (tl demo_history) demo_filed) ''t1'' = Some t \<and>
     drive task_machine CREATED p = Inr (t_status t) \<and> t_status t = COMPLETED"
proof -
  obtain t where t: "tasks demo_filed ''t1'' = Some t" "t_status t = CREATED"
    using demo_filed_row by blast
  have "constructed (tl demo_history)" "list_all (leaves_in_place ''t1'') (tl demo_history)"
    "map_option t_status (tasks (run_mutations (\<lambda>_. True) (tl demo_history) demo_filed) ''t1'') = Some COMPLETED"
    by code_simp+
  with engine_status_history[OF _ _ demo_filed_ok t(1), of "tl demo_history"] t(2) show ?thesis
    by auto
qed

section \<open>Optimistic concurrency\<close>

text \<open>The version a writer expects, when its mutation names one.\<close>

fun expected_version :: "task_mutation \<Rightarrow> int option" where
  "expected_version (Update_Task m) = um_expected_version m"
| "expected_version (Transition_Task m) = tm_expected_version m"
| "expected_version _ = None"

lemma effect_needs_version:
  assumes "takes_effect m (fst (dispatch is_iso env m e))" and "expected_version m = Some v"
  shows "vt_level (versions e) (mutation_target env m) = v"
proof (cases m)
  case (Update_Task u)
  with assms show ?thesis
    using vt_check_None[of "um_task_id u" "um_expected_version u" "versions e"]
    by (cases "vt_check (um_task_id u) (um_expected_version u) (versions e)")
      (auto simp: takes_effect_def apply_update_def split: option.splits)
next
  case (Transition_Task u)
  with assms show ?thesis
    using vt_check_None[of "tm_task_id u" "tm_expected_version u" "versions e"]
    by (cases "vt_check (tm_task_id u) (tm_expected_version u) (versions e)")
      (auto simp: takes_effect_def apply_transition_def split: option.splits)
qed (use assms in auto)

lemma stale_version_conflict:
  assumes "expected_version m = Some v" and "vt_level (versions e) (mutation_target env m) \<noteq> v"
    and "tasks e (mutation_target env m) \<noteq> None"
  shows "dispatch is_iso env m e =
    (Inr (failure_result (mutation_request_id m)
       (E_Version_Conflict (mutation_target env m) v (vt_level (versions e) (mutation_target env m)))
       VERSION_CONFLICT),
     e\<lparr>versions := vt_seed (mutation_target env m) (versions e)\<rparr>)"
  using assms
  by (cases m) (auto simp: apply_update_def apply_transition_def vt_check_def Let_def repo_get_def)

lemma effect_bumps:
  assumes "takes_effect m (fst (dispatch is_iso env m e))" and "expected_version m = Some v"
    and "construct_mutation m = Inr m"
  shows "vt_level (versions (snd (dispatch is_iso env m e))) (mutation_target env m) = v + 1"
proof -
  have "dispatch_kind is_iso env m e = effect_kind m"
    using assms(1) by (simp add: dispatch_kind_def)
  moreover have "effect_kind m \<in> {Edited, Hopped}"
    using assms(2) by (cases m) auto
  ultimately show ?thesis
    using dispatch_step[OF assms(3), of is_iso env e] effect_needs_version[OF assms(1,2)]
    by (auto elim!: task_step.cases)
qed

text \<open>
  C4. No lost update: once a mutation that expected version \<open>v\<close> of a task has taken
  effect, no later mutation expecting the same \<open>v\<close> does, whatever happens in
  between short of the task being removed and filed again. It is answered with a
  version conflict that names both versions, and changes no task.
\<close>

theorem stale_writer_refused:
  assumes "construct_mutation m1 = Inr m1" and "store_ok is_iso e"
    and "expected_version m1 = Some v" and "takes_effect m1 (fst (dispatch is_iso env1 m1 e))"
    and "constructed ms" and "list_all (leaves_in_place (mutation_target env1 m1)) ms"
    and "expected_version m2 = Some v" and "mutation_target env2 m2 = mutation_target env1 m1"
  shows "let e' = run_mutations is_iso ms (snd (dispatch is_iso env1 m1 e));
             (r, e'') = dispatch is_iso env2 m2 e'
         in tasks e'' = tasks e' \<and>
            (\<exists>res current. r = Inr res \<and> mr_error_code res = Some VERSION_CONFLICT \<and> v < current \<and>
               mr_error res = Some (E_Version_Conflict (mutation_target env1 m1) v current))"
proof -
  let ?k = "mutation_target env1 m1" and ?e1 = "snd (dispatch is_iso env1 m1 e)"
  let ?e' = "run_mutations is_iso ms ?e1"
  have step: "task_step is_iso ?k (effect_kind m1) e ?e1"
    using dispatch_step[OF assms(1), of is_iso env1 e] assms(4) by (simp add: dispatch_kind_def)
  have "effect_kind m1 \<in> {Edited, Hopped}" using assms(3) by (cases m1) auto
  with step store_okD[OF assms(2), of ?k] obtain t where t: "tasks ?e1 ?k = Some t"
    by (auto elim!: task_step.cases)
  obtain t' where t': "tasks ?e' ?k = Some t'" "v + 1 \<le> vt_level (versions ?e') ?k"
    using history_in_place[OF assms(5,6) store_ok_step[OF step assms(2)] t]
      effect_bumps[OF assms(4,3,1)] by auto
  with stale_version_conflict[OF assms(7), of ?e' env2 is_iso] assms(8) show ?thesis
    by (auto simp: Let_def failure_result_def)
qed

theorem stale_writer_refused_witness:
  "mr_error_code (projr (fst (dispatch (\<lambda>_. True) demo_env (demo_hop CANCELLED [] (Some 1))
     (run_mutations (\<lambda>_. True) [(demo_env, demo_hop IN_PROGRESS [] None)]
       (snd (dispatch (\<lambda>_. True) demo_env (demo_hop ASSIGNED [Set_Assigned_To (Some ''ada'')] (Some 1))
         demo_filed)))))) = Some VERSION_CONFLICT"
proof -
  let ?m1 = "demo_hop ASSIGNED [Set_Assigned_To (Some ''ada'')] (Some 1)"
  let ?ms = "[(demo_env, demo_hop IN_PROGRESS [] None)]" and ?m2 = "demo_hop CANCELLED [] (Some 1)"
  have "construct_mutation ?m1 = Inr ?m1" "expected_version ?m1 = Some 1"
    "takes_effect ?m1 (fst (dispatch (\<lambda>_. True) demo_env ?m1 demo_filed))" "constructed ?ms"
    "list_all (leaves_in_place (mutation_target demo_env ?m1)) ?ms" "expected_version ?m2 = Some 1"
    "mutation_target demo_env ?m2 = mutation_target demo_env ?m1"
    by code_simp+
  from stale_writer_refused[OF this(1) demo_filed_ok this(2-)]
  obtain res where "fst (dispatch (\<lambda>_. True) demo_env ?m2
      (run_mutations (\<lambda>_. True) ?ms (snd (dispatch (\<lambda>_. True) demo_env ?m1 demo_filed)))) = Inr res"
      "mr_error_code res = Some VERSION_CONFLICT"
    unfolding Let_def case_prod_beta by blast
  then show ?thesis by (simp only: sum.sel)
qed

section \<open>Failures\<close>

text \<open>
  C5. A mutation that does not succeed changes nothing: an error result or an
  exception leaves the tasks, the spans and the metrics as they were, and every
  version as a later check would read it.
\<close>

theorem failed_mutation_changes_nothing:
  assumes "construct_mutation m = Inr m" and "\<not> succeeded (fst (dispatch is_iso env m e))"
  shows "let e' = snd (dispatch is_iso env m e)
    in tasks e' = tasks e \<and> spans e' = spans e \<and> metrics e' = metrics e \<and>
       (\<forall>k ex. fst (vt_check k ex (versions e')) = fst (vt_check k ex (versions e)))"
proof -
  let ?e' = "snd (dispatch is_iso env m e)"
  have "task_step is_iso (mutation_target env m) Observed e ?e'"
    using dispatch_step[OF assms(1), of is_iso env e] assms(2) by (simp add: dispatch_kind_def takes_effect_def)
  then have same: "tasks ?e' = tasks e" "spans ?e' = spans e" "metrics ?e' = metrics e"
      "vt_level (versions ?e') = vt_level (versions e)"
    by (auto elim: task_step.cases)
  have "fst (vt_check k ex vs) = fst (vt_check k ex vs')" if "vt_level vs = vt_level vs'" for k ex vs vs'
    using that by (auto simp: vt_check_def Let_def split: option.splits)
  from same(1-3) this[OF same(4)] show ?thesis unfolding Let_def by blast
qed

theorem failed_mutation_changes_nothing_witness:
  "tasks (snd (dispatch (\<lambda>_. True) (demo_env\<lparr>env_save_raises := True\<rparr>)
     (demo_hop ASSIGNED [Set_Assigned_To (Some ''ada'')] (Some 1)) demo_filed)) = tasks demo_filed"
proof -
  let ?m = "demo_hop ASSIGNED [Set_Assigned_To (Some ''ada'')] (Some 1)"
  have "construct_mutation ?m = Inr ?m"
    "\<not> succeeded (fst (dispatch (\<lambda>_. True) (demo_env\<lparr>env_save_raises := True\<rparr>) ?m demo_filed))"
    by code_simp+
  from failed_mutation_changes_nothing[OF this] show ?thesis by (simp add: Let_def)
qed

section \<open>Results and spans\<close>

lemma success_result_simps [simp]:
  "mr_success (success_result rid t v prev)" "mr_task (success_result rid t v prev) = t"
  "mr_version (success_result rid t v prev) = v" "mr_request_id (success_result rid t v prev) = rid"
  by (simp_all add: success_result_def)

lemma failure_result_simps [simp]:
  "\<not> mr_success (failure_result rid err c)" "mr_request_id (failure_result rid err c) = rid"
  "mr_version (failure_result rid err c) = 0" "mr_task (failure_result rid err c) = None"
  "mr_error_code (failure_result rid err c) = Some c"
  by (simp_all add: failure_result_def)

lemma consistent_results:
  "not_blank rid \<Longrightarrow> 0 \<le> v \<Longrightarrow> check_consistency (success_result rid t v prev)"
  "not_blank rid \<Longrightarrow> check_consistency (failure_result rid err c)"
  "not_blank rid \<Longrightarrow> check_consistency (not_found_result rid k)"
  by (simp_all add: check_consistency_def success_result_def failure_result_def not_found_result_def)

lemma vt_bump_get: "vt_bump k vs = (v, vs') \<Longrightarrow> vt_get vs' k = v"
  by (auto simp: vt_bump_def Let_def vt_get_def)

definition versions_ok :: "engine \<Rightarrow> bool" where
  "versions_ok e \<longleftrightarrow> (\<forall>k. 1 \<le> vt_level (versions e) k)"

lemma vt_get_nonneg: "versions_ok e \<Longrightarrow> 0 \<le> vt_get (versions e) k"
  using order_trans[of 0 1] by (fastforce simp: versions_ok_def vt_level_def vt_get_def split: option.splits)

lemma versions_ok_step: "task_step is_iso k kd e e' \<Longrightarrow> versions_ok e \<Longrightarrow> versions_ok e'"
  by (erule task_step.cases) (auto simp: versions_ok_def intro: order_trans[OF zero_le_one])

lemma dispatch_result:
  assumes "construct_mutation m = Inr m" and "store_ok is_iso e"
    and "fst (dispatch is_iso env m e) = Inr res" and "mr_success res"
  shows "mr_version res = vt_get (versions (snd (dispatch is_iso env m e))) (mutation_target env m)"
    "mr_task res = tasks (snd (dispatch is_iso env m e)) (mutation_target env m)"
proof -
  have "mr_version res = vt_get (versions (snd (dispatch is_iso env m e))) (mutation_target env m) \<and>
    mr_task res = tasks (snd (dispatch is_iso env m e)) (mutation_target env m)"
  proof (cases m)
    case (Create_Task c)
    with assms(3,4) show ?thesis
      by (auto simp: apply_create_def vt_set_initial_def vt_get_def repo_save_def
          split: sum.splits if_splits dest: model_validate_Inr(1))
  next
    case (Update_Task u)
    then obtain x where x: "reject_immutable_fields (um_updates u) = Inr x"
      using assms(1) by (auto split: if_splits sum.splits)
    show ?thesis
      using Update_Task assms(3,4) merged_row(2)[OF _ x] store_okD[OF assms(2), of "um_task_id u"]
      by (auto simp: apply_update_def repo_get_def repo_save_def not_found_result_def
          split: option.splits prod.splits sum.splits if_splits dest: vt_bump_get)
  next
    case (Transition_Task u)
    then obtain x where x: "reject_immutable_fields (tm_overrides u) = Inr x"
      using assms(1) by (auto split: if_splits sum.splits)
    show ?thesis
      using Transition_Task assms(3,4) with_transition_Inr(5) reject_immutable_Inr[OF x]
        store_okD[OF assms(2), of "tm_task_id u"]
      by (auto simp: apply_transition_def repo_get_def repo_save_def not_found_result_def
          split: option.splits prod.splits sum.splits if_splits dest: vt_bump_get)
  next
    case (Delete_Task d)
    with assms(3,4) show ?thesis
      by (auto simp: apply_delete_def vt_remove_def vt_get_def repo_delete_def not_found_result_def
          parent_of_plan_result_def split: option.splits sum.splits if_splits)
  next
    case (Cancel_Task c)
    with assms(3,4) with_transition_Inr(5)[of is_iso _ CANCELLED "[]"] store_okD[OF assms(2), of "xm_task_id c"]
    show ?thesis
      by (auto simp: apply_cancel_def repo_get_def repo_save_def not_found_result_def
          split: option.splits prod.splits sum.splits if_splits dest: vt_bump_get)
  qed
  then show "mr_version res = vt_get (versions (snd (dispatch is_iso env m e))) (mutation_target env m)"
    "mr_task res = tasks (snd (dispatch is_iso env m e)) (mutation_target env m)" by simp_all
qed

text \<open>
  A result tells the truth: every answer of the engine is a consistent result
  object under the request's id; a success carries exactly the row now stored
  under the task's id (none after a delete) and its current version, a failure
  carries no row.
\<close>

theorem results_report_state:
  assumes "construct_mutation m = Inr m" and "store_ok is_iso e" and "versions_ok e"
    and "dispatch is_iso env m e = (Inr res, e')"
  shows "check_consistency res \<and> mr_request_id res = mutation_request_id m \<and>
    (if mr_success res
     then mr_task res = tasks e' (mutation_target env m) \<and>
       mr_version res = vt_get (versions e') (mutation_target env m)
     else mr_task res = None)"
proof -
  have e': "e' = snd (dispatch is_iso env m e)" and r: "fst (dispatch is_iso env m e) = Inr res"
    using assms(4) by simp_all
  have rid: "not_blank (mutation_request_id m)"
    using assms(1) by (cases m) (auto split: if_splits sum.splits)
  have shape: "mr_request_id res = mutation_request_id m \<and>
      (\<exists>t v prev err c. res = success_result (mutation_request_id m) t v prev \<or>
         res = failure_result (mutation_request_id m) err c)"
    using r
    by (cases m)
      (auto simp: apply_create_def apply_update_def apply_transition_def apply_delete_def apply_cancel_def
        not_found_result_def parent_of_plan_result_def vt_set_initial_def
        split: option.splits prod.splits sum.splits if_splits)
  have "versions_ok e'"
    using versions_ok_step[OF dispatch_step[OF assms(1)] assms(3)] e' by simp
  then show ?thesis
    using shape rid dispatch_result[OF assms(1,2) r] vt_get_nonneg[of e' "mutation_target env m"] e'
    by (auto intro!: consistent_results)
qed

text \<open>The statuses whose run is over.\<close>

definition run_over :: "task_status \<Rightarrow> bool" where
  "run_over s \<longleftrightarrow> s \<in> {COMPLETED, CANCELLED, REJECTED, FAILED}"

definition spans_match :: "engine \<Rightarrow> bool" where
  "spans_match e \<longleftrightarrow>
     (case spans e of
        None \<Rightarrow> True
      | Some sp \<Rightarrow> \<forall>k. (open_spans sp k \<noteq> None) = (\<exists>t. tasks e k = Some t \<and> \<not> run_over (t_status t)))"

lemma open_spans_simps [simp]:
  "open_spans (span_start k ty sp) = (open_spans sp)(k \<mapsto> ty)"
  "open_spans (span_end k s sp) = (open_spans sp)(k := None)"
  "open_spans (span_remove k sp) = (open_spans sp)(k := None)"
  by (auto simp: span_start_def span_end_def span_remove_def Let_def)

lemma failed_successors: "s \<in> set (successors task_machine FAILED) \<Longrightarrow> s = ASSIGNED \<or> run_over s"
  by (auto simp: run_over_def)

lemma run_over_stays:
  "s \<in> set (successors task_machine r) \<Longrightarrow> run_over r \<Longrightarrow> r = FAILED"
  by (auto simp: run_over_def)

lemma spans_match_step:
  assumes "task_step is_iso k kd e e'" and "store_ok is_iso e" and "spans_match e"
  shows "spans_match e'"
  using assms(1)
proof cases
  case (hopped t t')
  have id: "t_id t = k" using store_okD[OF assms(2) hopped(2)] by simp
  show ?thesis
  proof (cases "spans e")
    case (Some sp)
    have was: "(open_spans sp j \<noteq> None) = (\<exists>t. tasks e j = Some t \<and> \<not> run_over (t_status t))" for j
      using assms(3) Some by (simp add: spans_match_def)
    have "(open_spans (hop_spans k (t_status t) t' sp) j \<noteq> None) = (\<exists>t. tasks e' j = Some t \<and> \<not> run_over (t_status t))" for j
      using was[of j] hopped(2,6,7) id failed_successors[of "t_status t'"] run_over_stays[OF hopped(6)]
      by (cases "j = k") (auto simp: hop_spans_def Let_def run_over_def)
    with Some hopped(8) show ?thesis by (simp add: spans_match_def)
  qed (use hopped in \<open>simp add: spans_match_def\<close>)
next
  case (edited t t')
  have "t_id t = k" using store_okD[OF assms(2) edited(2)] by simp
  with edited assms(3) show ?thesis by (auto simp: spans_match_def split: option.splits)
qed (use assms(3) in \<open>auto simp: spans_match_def run_over_def split: option.splits\<close>)

text \<open>
  Spans follow the work: starting from an empty engine, after any sequence of
  accepted mutations a task has an open \<open>task.run\<close> span exactly when it is stored
  with a status that is neither terminal nor FAILED; a retry out of FAILED opens a
  fresh one.
\<close>

theorem open_spans_are_live_tasks:
  assumes "constructed ms" and "spans (run_mutations is_iso ms empty_engine) = Some sp"
  shows "dom (open_spans sp) =
    {k. \<exists>t. tasks (run_mutations is_iso ms empty_engine) k = Some t \<and>
        t_status t \<notin> {COMPLETED, CANCELLED, REJECTED, FAILED}}"
proof -
  let ?P = "\<lambda>e. store_ok is_iso e \<and> spans_match e"
  have "?P (run_mutations is_iso ms empty_engine)"
  proof (rule run_mutations_induct[OF assms(1), where P = ?P])
    show "?P empty_engine"
      by (simp add: store_ok_def spans_match_def empty_engine_def repo_get_def)
  qed (blast intro: store_ok_step spans_match_step dispatch_step)
  with assms(2) show ?thesis by (auto simp: spans_match_def run_over_def dom_def)
qed

section \<open>Guards of create, delete and cancel\<close>

lemma create_row_valid_iff:
  assumes "create_data_ok d"
  shows "task_valid is_iso (create_row env d) \<longleftrightarrow>
    cd_assigned_to d = None \<and> env_new_id env \<notin> set (cd_dependencies d) \<and> distinct (cd_dependencies d)"
  using assms
  by (auto simp: task_valid_iff create_row_def new_task_def task_field_checks_def create_data_ok_def
      validate_iso8601_deadline_def check_collections_def check_delegation_def duplicates_Nil_iff
      check_assignment_consistency_def check_blocked_reason_pairing_def check_plan_linkage_def REQUIRES_ASSIGNEE_def)

text \<open>
  What a create accepts: a well-formed request is filed exactly when it names
  no assignee and its dependencies neither repeat nor name the new task, and is
  answered with a validation error otherwise. In particular a create request that
  names an assignee is never accepted.
\<close>

theorem create_accepts_iff:
  assumes "construct_mutation (Create_Task m) = Inr (Create_Task m)" and "\<not> env_save_raises env"
  shows "(case fst (dispatch is_iso env (Create_Task m) e) of
      Inl _ \<Rightarrow> False
    | Inr res \<Rightarrow> mr_success res =
        (cd_assigned_to (cm_task_data m) = None \<and>
         env_new_id env \<notin> set (cd_dependencies (cm_task_data m)) \<and>
         distinct (cd_dependencies (cm_task_data m))) \<and>
        (mr_success res \<or> mr_error_code res = Some VALIDATION))"
proof -
  let ?row = "create_row env (cm_task_data m)"
  have ok: "create_data_ok (cm_task_data m)" using assms(1) by (simp split: if_splits)
  show ?thesis
  proof (cases "model_validate is_iso (?row, [])")
    case (Inl err)
    then have "\<not> task_valid is_iso ?row" by (simp add: task_valid_def)
    with Inl show ?thesis
      using create_row_valid_iff[OF ok, of is_iso env] by (simp add: apply_create_def)
  next
    case (Inr t)
    then have "task_valid is_iso ?row" using model_validate_Inr(2) by blast
    with Inr show ?thesis
      using create_row_valid_iff[OF ok, of is_iso env] assms(2)
      by (simp add: apply_create_def vt_set_initial_def)
  qed
qed

definition demo_assigned_create :: create_mutation where
  "demo_assigned_create = \<lparr>cm_request_id = ''r1'', cm_requested_by = ''ceo'',
     cm_task_data = \<lparr>cd_title = ''Parser'', cd_description = ''Write it'', cd_type = DEVELOPMENT,
       cd_priority = PRIORITY_HIGH, cd_project = ''p'', cd_created_by = ''ceo'', cd_assigned_to = Some ''ada'',
       cd_dependencies = [], cd_estimated_complexity = SIMPLE, cd_acceptance_criteria = [],
       cd_budget_limit = 0\<rparr>\<rparr>"

lemma plan_blocking_delete_Some: "plan_blocking_delete plans k = Some p \<Longrightarrow> p \<in> set plans \<and> pr_parent_task_id p = k"
  by (auto simp: plan_blocking_delete_def find_Some_iff)

lemma plan_blocking_delete_None: "plan_blocking_delete plans k = None \<longleftrightarrow> k \<notin> pr_parent_task_id ` set plans"
  by (auto simp: plan_blocking_delete_def find_None_iff)


lemma cancelled_row_valid:
  assumes "task_valid is_iso t"
  shows "model_validate is_iso (t\<lparr>t_blocked_reason := None, t_status := CANCELLED\<rparr>, []) =
    Inr (t\<lparr>t_blocked_reason := None, t_status := CANCELLED\<rparr>)"
proof -
  have "task_valid is_iso (t\<lparr>t_blocked_reason := None, t_status := CANCELLED\<rparr>)"
    using assms
    by (auto simp: task_valid_iff task_field_checks_def check_collections_def check_delegation_def
        check_assignment_consistency_def check_blocked_reason_pairing_def check_plan_linkage_def
        REQUIRES_ASSIGNEE_def split: if_splits option.splits)
  then show ?thesis by (simp add: task_valid_def)
qed

lemma cancel_hop: "CANCELLED \<in> set (successors task_machine s) \<longleftrightarrow> s \<notin> {CREATED, COMPLETED, CANCELLED, REJECTED}"
  by (cases s) auto

text \<open>
  When a cancellation succeeds: on a well-formed store whose saves succeed, a
  cancel is accepted exactly when the task exists and has been routed but not
  finished, whatever version anyone holds and however it is parked; a task still
  CREATED cannot be cancelled.
\<close>

theorem cancel_succeeds_iff:
  assumes "store_ok is_iso e" and "\<not> env_save_raises env"
  shows "succeeded (fst (dispatch is_iso env (Cancel_Task m) e)) \<longleftrightarrow>
    (\<exists>t. tasks e (xm_task_id m) = Some t \<and> t_status t \<notin> {CREATED, COMPLETED, CANCELLED, REJECTED})"
proof (cases "tasks e (xm_task_id m)")
  case None
  then show ?thesis by (simp add: apply_cancel_def repo_get_def)
next
  case (Some t)
  have valid: "task_valid is_iso t" using store_okD[OF assms(1) Some] by simp
  have "(\<exists>t'. with_transition is_iso t CANCELLED [] = Inr t') \<longleftrightarrow> CANCELLED \<in> set (successors task_machine (t_status t))"
  proof
    assume "CANCELLED \<in> set (successors task_machine (t_status t))"
    then have "validate_transition (t_status t) CANCELLED = Inr ()" by (simp add: validate_transition_iff)
    with cancelled_row_valid[OF valid] show "\<exists>t'. with_transition is_iso t CANCELLED [] = Inr t'"
      by (simp add: with_transition_def merge_updates_def)
  qed (blast dest: with_transition_Inr(1))
  then show ?thesis
    using Some assms(2) cancel_hop[of "t_status t"]
    by (cases "with_transition is_iso t CANCELLED []")
      (auto simp: apply_cancel_def repo_get_def split: prod.splits)
qed

end
