(* ===== verification/Engine_Loop.thy ===== *)
theory Engine_Loop
  imports Task_Engine
begin

text \<open>
  The actor around the appliers: admission, the processing loop, event
  publication and shutdown of \<open>engine/task_engine.py\<close>,
  \<open>engine/task_engine_loops.py\<close> and \<open>engine/task_engine_events.py\<close>.

  The coroutines interleave at their awaits; each step of \<open>loop_step\<close> is the code
  between two of them. The lifecycle lock keeps a start out of a drain in
  progress, and a processing task cancelled by the drain deadline is taken to be
  cancelled before its row is saved. An envelope is a number, its future what callers see under
  that number. Publication to the message bus is best effort and recorded as the
  list of events handed to it; what observers do with an event is theirs.
\<close>

section \<open>Events\<close>

datatype mutation_type = MT_CREATE | MT_UPDATE | MT_TRANSITION | MT_DELETE | MT_CANCEL

fun mutation_type_of :: "task_mutation \<Rightarrow> mutation_type" where
  "mutation_type_of (Create_Task _) = MT_CREATE"
| "mutation_type_of (Update_Task _) = MT_UPDATE"
| "mutation_type_of (Transition_Task _) = MT_TRANSITION"
| "mutation_type_of (Delete_Task _) = MT_DELETE"
| "mutation_type_of (Cancel_Task _) = MT_CANCEL"

fun mutation_requested_by :: "task_mutation \<Rightarrow> string" where
  "mutation_requested_by (Create_Task m) = cm_requested_by m"
| "mutation_requested_by (Update_Task m) = um_requested_by m"
| "mutation_requested_by (Transition_Task m) = tm_requested_by m"
| "mutation_requested_by (Delete_Task m) = dm_requested_by m"
| "mutation_requested_by (Cancel_Task m) = xm_requested_by m"

fun mutation_reason :: "task_mutation \<Rightarrow> string option" where
  "mutation_reason (Transition_Task m) = Some (tm_reason m)"
| "mutation_reason (Cancel_Task m) = Some (xm_reason m)"
| "mutation_reason _ = None"

fun mutation_task_id :: "task_mutation \<Rightarrow> ident option" where
  "mutation_task_id (Create_Task m) = None"
| "mutation_task_id (Update_Task m) = Some (um_task_id m)"
| "mutation_task_id (Transition_Task m) = Some (tm_task_id m)"
| "mutation_task_id (Delete_Task m) = Some (dm_task_id m)"
| "mutation_task_id (Cancel_Task m) = Some (xm_task_id m)"

record task_state_changed =
  ev_mutation_type :: mutation_type
  ev_request_id :: string
  ev_requested_by :: string
  ev_task_id :: ident
  ev_task :: "task option"
  ev_previous_status :: "task_status option"
  ev_new_status :: "task_status option"
  ev_version :: int
  ev_reason :: "string option"

definition build_state_changed_event :: "task_mutation \<Rightarrow> mutation_result \<Rightarrow> task_state_changed" where
  "build_state_changed_event m res =
     \<lparr>ev_mutation_type = mutation_type_of m, ev_request_id = mutation_request_id m,
      ev_requested_by = mutation_requested_by m,
      ev_task_id =
        (case mutation_task_id m of
           Some k \<Rightarrow> if k = [] then ''unknown'' else k
         | None \<Rightarrow> (case mr_task res of None \<Rightarrow> ''unknown''
                     | Some t \<Rightarrow> if t_id t = [] then ''unknown'' else t_id t)),
      ev_task = mr_task res, ev_previous_status = mr_previous_status res,
      ev_new_status =
        (if mutation_type_of m = MT_DELETE then None
         else case mr_task res of None \<Rightarrow> None | Some t \<Rightarrow> Some (t_status t)),
      ev_version = mr_version res, ev_reason = mutation_reason m\<rparr>"

section \<open>The actor\<close>

datatype future = Pending | Resolved mutation_result | Abandoned

record envelope =
  en_number :: nat
  en_mutation :: task_mutation

record actor_config =
  cfg_max_queue_size :: int
  cfg_observer_queue_size :: "int option"
  cfg_publish_snapshots :: bool

definition effective_observer_queue_size :: "actor_config \<Rightarrow> int" where
  "effective_observer_queue_size cfg =
     (case cfg_observer_queue_size cfg of Some n \<Rightarrow> n | None \<Rightarrow> cfg_max_queue_size cfg)"

record actor =
  a_engine :: engine
  a_config :: actor_config
  a_observers :: nat
  a_max_queue_size :: int
  a_queue :: "envelope list"
  a_in_flight :: "envelope option"
  a_futures :: "nat \<Rightarrow> future"
  a_issued :: nat
  a_running :: bool
  a_loops :: bool
  a_unrestartable :: bool
  a_published :: "task_state_changed list"
  a_observer_queue :: "task_state_changed option list"
  a_history :: "(nat \<times> call_env \<times> task_mutation) list"

definition init_actor :: "engine \<Rightarrow> actor_config \<Rightarrow> actor" where
  "init_actor e cfg =
     \<lparr>a_engine = e, a_config = cfg, a_observers = 0, a_max_queue_size = cfg_max_queue_size cfg,
      a_queue = [], a_in_flight = None, a_futures = (\<lambda>_. Pending), a_issued = 0, a_running = False,
      a_loops = False, a_unrestartable = False, a_published = [], a_observer_queue = [], a_history = []\<rparr>"

datatype submit_error = Not_Running | Queue_Full
datatype lifecycle_error = Unrestartable | Already_Running | Bad_Queue_Size

definition set_max_queue_size :: "int \<Rightarrow> actor \<Rightarrow> (lifecycle_error, actor) outcome" where
  "set_max_queue_size n a = (if n < 0 then Inl Bad_Queue_Size else Inr (a\<lparr>a_max_queue_size := n\<rparr>))"

definition register_observer :: "actor \<Rightarrow> actor" where
  "register_observer a = a\<lparr>a_observers := Suc (a_observers a)\<rparr>"

definition start_actor :: "actor \<Rightarrow> (lifecycle_error, actor) outcome" where
  "start_actor a =
     (if a_unrestartable a then Inl Unrestartable
      else if a_running a then Inl Already_Running
      else Inr (a\<lparr>a_running := True, a_loops := True\<rparr>))"

text \<open>\<open>submit\<close> up to the await of the envelope's future: the number to await.\<close>

definition submit :: "task_mutation \<Rightarrow> actor \<Rightarrow> (submit_error, nat) outcome \<times> actor" where
  "submit m a =
     (if \<not> a_running a then (Inl Not_Running, a)
      else if 0 < a_max_queue_size a \<and> a_max_queue_size a \<le> int (length (a_queue a))
      then (Inl Queue_Full, a)
      else (Inr (a_issued a),
            a\<lparr>a_queue := a_queue a @ [\<lparr>en_number = a_issued a, en_mutation = m\<rparr>],
              a_issued := Suc (a_issued a)\<rparr>))"

definition resolve :: "nat \<Rightarrow> mutation_result \<Rightarrow> actor \<Rightarrow> actor" where
  "resolve i res a =
     (if a_futures a i = Pending then a\<lparr>a_futures := (a_futures a)(i := Resolved res)\<rparr> else a)"

definition emit_event :: "task_mutation \<Rightarrow> mutation_result \<Rightarrow> actor \<Rightarrow> actor" where
  "emit_event m res a =
     (if mr_success res \<and> (cfg_publish_snapshots (a_config a) \<or> a_observers a > 0)
      then (let ev = build_state_changed_event m res;
                a1 = (if cfg_publish_snapshots (a_config a) then a\<lparr>a_published := a_published a @ [ev]\<rparr> else a);
                size = effective_observer_queue_size (a_config a)
            in if a_observers a > 0 \<and> \<not> (0 < size \<and> size \<le> int (length (a_observer_queue a1)))
               then a1\<lparr>a_observer_queue := a_observer_queue a1 @ [Some ev]\<rparr> else a1)
      else a)"

text \<open>Dequeueing, then the body of \<open>_process_one\<close>.\<close>

definition take_one :: "actor \<Rightarrow> actor option" where
  "take_one a =
     (if a_loops a \<and> a_in_flight a = None then
        (case a_queue a of [] \<Rightarrow> None
         | en # q \<Rightarrow> Some (a\<lparr>a_queue := q, a_in_flight := Some en\<rparr>))
      else None)"

definition internal_result :: "task_mutation \<Rightarrow> string \<Rightarrow> mutation_result" where
  "internal_result m msg = failure_result (mutation_request_id m) (E_Internal msg) INTERNAL_ERROR"

definition process_one :: "(string \<Rightarrow> bool) \<Rightarrow> call_env \<Rightarrow> actor \<Rightarrow> actor" where
  "process_one is_iso env a =
     (case a_in_flight a of
        None \<Rightarrow> a
      | Some en \<Rightarrow>
          (case dispatch is_iso env (en_mutation en) (a_engine a) of
             (Inl exn, e') \<Rightarrow>
               (resolve (en_number en) (internal_result (en_mutation en) ''Internal error processing mutation'')
                  (a\<lparr>a_engine := e', a_history := a_history a @ [(en_number en, env, en_mutation en)]\<rparr>))
                 \<lparr>a_in_flight := None\<rparr>
           | (Inr res, e') \<Rightarrow>
               (emit_event (en_mutation en) res
                  (resolve (en_number en) res
                     (a\<lparr>a_engine := e', a_history := a_history a @ [(en_number en, env, en_mutation en)]\<rparr>)))
                 \<lparr>a_in_flight := None\<rparr>))"

definition shutdown_result :: "envelope \<Rightarrow> mutation_result" where
  "shutdown_result en = internal_result (en_mutation en) ''TaskEngine shut down before processing''"

text \<open>\<open>_fail_remaining_futures\<close>: the envelope in flight first, then the queue in order.\<close>

definition fail_remaining_futures :: "actor \<Rightarrow> actor" where
  "fail_remaining_futures a =
     (let a1 = (case a_in_flight a of None \<Rightarrow> a
                | Some en \<Rightarrow> resolve (en_number en) (shutdown_result en) a)
      in (fold (\<lambda>en a. resolve (en_number en) (shutdown_result en) a) (a_queue a)
            (a1\<lparr>a_in_flight := None\<rparr>))\<lparr>a_queue := []\<rparr>)"

definition stop_flag :: "actor \<Rightarrow> actor" where
  "stop_flag a = a\<lparr>a_running := False\<rparr>"

text \<open>The loop ends by itself once the engine stopped running and the queue is empty.\<close>

definition loop_exits :: "actor \<Rightarrow> bool" where
  "loop_exits a \<longleftrightarrow> \<not> a_running a \<and> a_queue a = [] \<and> a_in_flight a = None"

inductive loop_step :: "(string \<Rightarrow> bool) \<Rightarrow> actor \<Rightarrow> actor \<Rightarrow> bool" for is_iso where
  started: "\<not> a_loops a \<Longrightarrow> start_actor a = Inr a' \<Longrightarrow> loop_step is_iso a a'"
| resized: "set_max_queue_size n a = Inr a' \<Longrightarrow> loop_step is_iso a a'"
| observed_by: "loop_step is_iso a (register_observer a)"
| submitted: "construct_mutation m = Inr m \<Longrightarrow> loop_step is_iso a (snd (submit m a))"
| abandoned: "i < a_issued a \<Longrightarrow> a_futures a i = Pending \<Longrightarrow>
    loop_step is_iso a (a\<lparr>a_futures := (a_futures a)(i := Abandoned)\<rparr>)"
| taken: "take_one a = Some a' \<Longrightarrow> loop_step is_iso a a'"
| processed: "a_in_flight a \<noteq> None \<Longrightarrow> loop_step is_iso a (process_one is_iso env a)"
| stopping: "a_running a \<Longrightarrow> loop_step is_iso a (stop_flag a)"
| drained: "a_loops a \<Longrightarrow> loop_exits a \<Longrightarrow> loop_step is_iso a (a\<lparr>a_loops := False\<rparr>)"
| timed_out: "a_loops a \<Longrightarrow> \<not> a_running a \<Longrightarrow>
    loop_step is_iso a ((fail_remaining_futures a)\<lparr>a_loops := False\<rparr>)"
| orphaned: "\<not> a_running a \<Longrightarrow> loop_step is_iso a (a\<lparr>a_unrestartable := True\<rparr>)"

section \<open>Linearizability\<close>

definition pending :: "actor \<Rightarrow> envelope list" where
  "pending a = (case a_in_flight a of None \<Rightarrow> [] | Some en \<Rightarrow> [en]) @ a_queue a"

definition settled_before :: "actor \<Rightarrow> nat" where
  "settled_before a = a_issued a - length (pending a)"

definition answer :: "task_mutation \<Rightarrow> (engine_exn, mutation_result) outcome \<Rightarrow> mutation_result" where
  "answer m r = (case r of Inl _ \<Rightarrow> internal_result m ''Internal error processing mutation'' | Inr res \<Rightarrow> res)"

text \<open>The answer the sequential engine gives to the \<open>j\<close>-th mutation of a history.\<close>

definition answer_at ::
  "(string \<Rightarrow> bool) \<Rightarrow> engine \<Rightarrow> (nat \<times> call_env \<times> task_mutation) list \<Rightarrow> nat \<Rightarrow> mutation_result" where
  "answer_at is_iso e0 hist j =
     (case hist ! j of (_, env, m) \<Rightarrow>
        answer m (fst (dispatch is_iso env m (run_mutations is_iso (map snd (take j hist)) e0))))"

definition is_shutdown :: "mutation_result \<Rightarrow> bool" where
  "is_shutdown res \<longleftrightarrow> (\<exists>en. res = shutdown_result en)"

definition settled ::
  "(string \<Rightarrow> bool) \<Rightarrow> engine \<Rightarrow> (nat \<times> call_env \<times> task_mutation) list \<Rightarrow> nat \<Rightarrow> future \<Rightarrow> bool" where
  "settled is_iso e0 hist i f \<longleftrightarrow>
     f = Abandoned \<or>
     (\<exists>j < length hist. fst (hist ! j) = i \<and> f = Resolved (answer_at is_iso e0 hist j)) \<or>
     (i \<notin> fst ` set hist \<and> (\<exists>res. f = Resolved res \<and> is_shutdown res))"

definition loop_inv :: "(string \<Rightarrow> bool) \<Rightarrow> engine \<Rightarrow> actor \<Rightarrow> bool" where
  "loop_inv is_iso e0 a \<longleftrightarrow>
     (a_running a \<longrightarrow> a_loops a) \<and>
     (\<not> a_loops a \<longrightarrow> pending a = []) \<and>
     length (pending a) \<le> a_issued a \<and>
     map en_number (pending a) = [settled_before a..<a_issued a] \<and>
     list_all (\<lambda>en. construct_mutation (en_mutation en) = Inr (en_mutation en)) (pending a) \<and>
     sorted_wrt (<) (map fst (a_history a)) \<and>
     (\<forall>i \<in> fst ` set (a_history a). i < settled_before a) \<and>
     constructed (map snd (a_history a)) \<and>
     a_engine a = run_mutations is_iso (map snd (a_history a)) e0 \<and>
     (\<forall>i < settled_before a. settled is_iso e0 (a_history a) i (a_futures a i)) \<and>
     (\<forall>i. settled_before a \<le> i \<longrightarrow> a_futures a i \<in> {Pending, Abandoned})"

lemma loop_inv_init: "loop_inv is_iso e (init_actor e cfg)"
  by (simp add: loop_inv_def init_actor_def pending_def settled_before_def constructed_def run_mutations_def)

text \<open>A step that touches neither the queue, the futures, the history nor the engine.\<close>

lemma loop_inv_frame:
  assumes "loop_inv is_iso e0 a" and "a_queue a' = a_queue a" and "a_in_flight a' = a_in_flight a"
    and "a_futures a' = a_futures a" and "a_issued a' = a_issued a" and "a_history a' = a_history a"
    and "a_engine a' = a_engine a" and "a_running a' \<longrightarrow> a_loops a'"
    and "\<not> a_loops a' \<longrightarrow> pending a = []"
  shows "loop_inv is_iso e0 a'"
  using assms by (simp add: loop_inv_def pending_def settled_before_def)

lemma loop_inv_submit:
  assumes "loop_inv is_iso e0 a" and "construct_mutation m = Inr m"
  shows "loop_inv is_iso e0 (snd (submit m a))"
proof (cases "\<not> a_running a \<or> 0 < a_max_queue_size a \<and> a_max_queue_size a \<le> int (length (a_queue a))")
  case True
  then have "snd (submit m a) = a" by (auto simp: submit_def)
  with assms show ?thesis by simp
next
  case False
  let ?a = "snd (submit m a)"
  have a: "?a = a\<lparr>a_queue := a_queue a @ [\<lparr>en_number = a_issued a, en_mutation = m\<rparr>], a_issued := Suc (a_issued a)\<rparr>"
    using False by (auto simp: submit_def)
  then have "pending ?a = pending a @ [\<lparr>en_number = a_issued a, en_mutation = m\<rparr>]"
    "settled_before ?a = settled_before a" "a_running a"
    using False assms(1) by (auto simp: pending_def settled_before_def Suc_diff_le)
  moreover have "settled_before a \<le> a_issued a"
    by (simp add: settled_before_def)
  ultimately show ?thesis
    using assms a by (auto simp: loop_inv_def)
qed

lemma loop_inv_take:
  assumes "loop_inv is_iso e0 a" and "take_one a = Some a'"
  shows "loop_inv is_iso e0 a'"
proof -
  from assms(2) obtain en q where a': "a_queue a = en # q" "a_in_flight a = None" "a_loops a"
      "a' = a\<lparr>a_queue := q, a_in_flight := Some en\<rparr>"
    by (auto simp: take_one_def split: if_splits list.splits)
  then have "pending a' = pending a" "settled_before a' = settled_before a"
    by (auto simp: pending_def settled_before_def)
  with assms(1) a' show ?thesis by (simp add: loop_inv_def)
qed

lemma settled_extend:
  assumes "settled is_iso e0 hist i f" and "i \<noteq> fst x"
  shows "settled is_iso e0 (hist @ [x]) i f"
proof -
  have "answer_at is_iso e0 (hist @ [x]) j = answer_at is_iso e0 hist j" if "j < length hist" for j
    using that by (simp add: answer_at_def nth_append)
  with assms show ?thesis
    by (auto simp: settled_def nth_append intro: less_SucI)
qed

lemma settled_now:
  assumes "f = Abandoned \<or> f = Resolved (answer m (fst (dispatch is_iso env m (run_mutations is_iso (map snd hist) e0))))"
  shows "settled is_iso e0 (hist @ [(i, env, m)]) i f"
  using assms by (auto simp: settled_def answer_at_def intro!: exI[of _ "length hist"])

lemma process_one_effect:
  assumes "a_in_flight a = Some en"
  shows "a_engine (process_one is_iso env a) = snd (dispatch is_iso env (en_mutation en) (a_engine a))"
    "a_history (process_one is_iso env a) = a_history a @ [(en_number en, env, en_mutation en)]"
    "a_futures (process_one is_iso env a) =
       (if a_futures a (en_number en) = Pending
        then (a_futures a)(en_number en := Resolved (answer (en_mutation en)
                (fst (dispatch is_iso env (en_mutation en) (a_engine a)))))
        else a_futures a)"
    "a_queue (process_one is_iso env a) = a_queue a" "a_in_flight (process_one is_iso env a) = None"
    "a_issued (process_one is_iso env a) = a_issued a" "a_running (process_one is_iso env a) = a_running a"
    "a_loops (process_one is_iso env a) = a_loops a"
  using assms
  by (auto simp: process_one_def answer_def resolve_def emit_event_def Let_def split: prod.splits sum.splits)

lemma loop_inv_process:
  assumes inv: "loop_inv is_iso e0 a" and fl: "a_in_flight a = Some en"
  shows "loop_inv is_iso e0 (process_one is_iso env a)"
proof -
  let ?a = "process_one is_iso env a" and ?m = "en_mutation en" and ?n = "en_number en"
  note eff = process_one_effect[OF fl, of is_iso env]
  have pend: "pending a = en # pending ?a" using fl eff by (simp add: pending_def)
  have n: "?n = settled_before a" "settled_before ?a = Suc ?n" "settled_before a < a_issued a"
  proof -
    have "map en_number (pending a) = [settled_before a..<a_issued a]" "length (pending a) \<le> a_issued a"
      using inv by (simp_all add: loop_inv_def)
    then show "settled_before a < a_issued a"
      using pend by (cases "settled_before a < a_issued a") auto
    then show "?n = settled_before a"
      using \<open>map en_number (pending a) = _\<close> pend by (simp add: upt_conv_Cons)
    then show "settled_before ?a = Suc ?n"
      using \<open>settled_before a < a_issued a\<close> pend eff \<open>length (pending a) \<le> a_issued a\<close>
      by (simp add: settled_before_def)
  qed
  have c: "construct_mutation ?m = Inr ?m" using inv pend by (simp add: loop_inv_def)
  have fut: "a_futures a ?n \<in> {Pending, Abandoned}" using inv n by (simp add: loop_inv_def)
  have "settled is_iso e0 (a_history ?a) i (a_futures ?a i)" if "i < settled_before ?a" for i
  proof (cases "i = ?n")
    case True
    have "a_engine a = run_mutations is_iso (map snd (a_history a)) e0" using inv by (simp add: loop_inv_def)
    with fut show ?thesis unfolding eff(2) True by (intro settled_now) (auto simp: eff(3))
  next
    case False
    with that n have "i < settled_before a" by simp
    with inv have "settled is_iso e0 (a_history a) i (a_futures a i)" by (simp add: loop_inv_def)
    with False show ?thesis unfolding eff(2) by (auto simp: eff(3) intro: settled_extend)
  qed
  moreover have "map en_number (pending ?a) = [settled_before ?a..<a_issued ?a]"
    using inv pend n eff by (simp add: loop_inv_def upt_conv_Cons)
  moreover have "sorted_wrt (<) (map fst (a_history ?a))" "\<forall>i \<in> fst ` set (a_history ?a). i < settled_before ?a"
    using inv n by (auto simp: loop_inv_def eff sorted_wrt_append)
  moreover have "a_engine ?a = run_mutations is_iso (map snd (a_history ?a)) e0"
    using inv by (simp add: loop_inv_def eff run_mutations_def)
  moreover have "\<forall>i. settled_before ?a \<le> i \<longrightarrow> a_futures ?a i \<in> {Pending, Abandoned}"
    using inv n by (auto simp: loop_inv_def eff)
  ultimately show ?thesis
    using inv pend c by (simp add: loop_inv_def eff constructed_def)
qed

lemma resolve_simps [simp]:
  "a_queue (resolve i res a) = a_queue a" "a_in_flight (resolve i res a) = a_in_flight a"
  "a_issued (resolve i res a) = a_issued a" "a_history (resolve i res a) = a_history a"
  "a_engine (resolve i res a) = a_engine a" "a_running (resolve i res a) = a_running a"
  by (simp_all add: resolve_def)

lemma fold_resolve_simps [simp]:
  fixes ens :: "envelope list"
  defines "r \<equiv> fold (\<lambda>en. resolve (en_number en) (shutdown_result en)) ens"
  shows "a_queue (r a) = a_queue a" "a_in_flight (r a) = a_in_flight a" "a_issued (r a) = a_issued a"
    "a_history (r a) = a_history a" "a_engine (r a) = a_engine a" "a_running (r a) = a_running a"
  unfolding r_def by (induction ens arbitrary: a) simp_all

lemma fold_resolve_futures:
  "a_futures (fold (\<lambda>en. resolve (en_number en) (shutdown_result en)) ens a) i \<noteq> a_futures a i \<Longrightarrow>
     i \<in> en_number ` set ens \<and>
     (\<exists>en. a_futures (fold (\<lambda>en. resolve (en_number en) (shutdown_result en)) ens a) i = Resolved (shutdown_result en))"
  "i \<in> en_number ` set ens \<Longrightarrow>
     a_futures (fold (\<lambda>en. resolve (en_number en) (shutdown_result en)) ens a) i \<noteq> Pending"
proof (induction ens arbitrary: a)
  case (Cons en ens)
  {
    case 1
    then show ?case
      using Cons.IH(1)[of "resolve (en_number en) (shutdown_result en) a"]
      by (cases "a_futures (fold (\<lambda>en. resolve (en_number en) (shutdown_result en)) ens
            (resolve (en_number en) (shutdown_result en) a)) i
          = a_futures (resolve (en_number en) (shutdown_result en) a) i")
        (auto simp: resolve_def split: if_splits)
  next
    case 2
    then show ?case
      using Cons.IH(1,2)[of "resolve (en_number en) (shutdown_result en) a"]
      by (cases "i \<in> en_number ` set ens") (auto simp: resolve_def split: if_splits)
  }
qed simp_all

lemma fold_resolve_other:
  "i \<notin> en_number ` set ens \<Longrightarrow>
   a_futures (fold (\<lambda>en. resolve (en_number en) (shutdown_result en)) ens a) i = a_futures a i"
  using fold_resolve_futures(1) by blast

lemma fail_remaining_eq:
  "fail_remaining_futures a =
     (fold (\<lambda>en. resolve (en_number en) (shutdown_result en)) (pending a) a)\<lparr>a_in_flight := None, a_queue := []\<rparr>"
proof -
  have comm: "resolve i res (a\<lparr>a_in_flight := None\<rparr>) = (resolve i res a)\<lparr>a_in_flight := None\<rparr>" for i res a
    by (simp add: resolve_def)
  have "fold (\<lambda>en. resolve (en_number en) (shutdown_result en)) ens (a\<lparr>a_in_flight := None\<rparr>)
      = (fold (\<lambda>en. resolve (en_number en) (shutdown_result en)) ens a)\<lparr>a_in_flight := None\<rparr>" for ens a
    by (induction ens arbitrary: a) (simp_all add: comm)
  then show ?thesis
    by (simp add: fail_remaining_futures_def pending_def Let_def split: option.splits)
qed

lemma loop_inv_fail:
  assumes inv: "loop_inv is_iso e0 a" and "\<not> a_running a"
  shows "loop_inv is_iso e0 ((fail_remaining_futures a)\<lparr>a_loops := False\<rparr>)"
proof -
  let ?a = "(fail_remaining_futures a)\<lparr>a_loops := False\<rparr>"
  let ?F = "fold (\<lambda>en. resolve (en_number en) (shutdown_result en)) (pending a) a"
  have nums: "en_number ` set (pending a) = {settled_before a..<a_issued a}"
    using inv by (metis (no_types, lifting) loop_inv_def set_map set_upt)
  have pend: "pending ?a = []" by (simp add: fail_remaining_eq pending_def)
  then have sb: "settled_before ?a = a_issued a" by (simp add: settled_before_def fail_remaining_eq)
  have hist: "i < settled_before a" if "i \<in> fst ` set (a_history a)" for i
    using inv that by (auto simp: loop_inv_def)
  have fut: "a_futures ?a = a_futures ?F" by (simp add: fail_remaining_eq)
  have "settled is_iso e0 (a_history a) i (a_futures ?F i)" if i: "i < a_issued a" for i
  proof (cases "i < settled_before a")
    case True
    then have "a_futures ?F i = a_futures a i"
      by (intro fold_resolve_other) (simp add: nums)
    with True inv show ?thesis by (simp add: loop_inv_def)
  next
    case False
    then have "i \<in> en_number ` set (pending a)" "i \<notin> fst ` set (a_history a)"
      using nums i hist by auto
    moreover have "a_futures a i \<in> {Pending, Abandoned}" using inv False by (simp add: loop_inv_def)
    ultimately show ?thesis
      using fold_resolve_futures[where a = a and ens = "pending a" and i = i]
      by (cases "a_futures ?F i = a_futures a i") (auto simp: settled_def is_shutdown_def)
  qed
  moreover have "a_futures ?F i \<in> {Pending, Abandoned}" if i: "a_issued a \<le> i" for i
  proof -
    have "settled_before a \<le> i" using i by (simp add: settled_before_def)
    moreover have "a_futures ?F i = a_futures a i"
      using i by (intro fold_resolve_other) (simp add: nums)
    ultimately show ?thesis using inv by (simp add: loop_inv_def)
  qed
  moreover have "\<forall>i \<in> fst ` set (a_history a). i < a_issued a"
  proof
    fix i assume "i \<in> fst ` set (a_history a)"
    from hist[OF this] show "i < a_issued a" by (simp add: settled_before_def)
  qed
  ultimately show ?thesis
    using inv assms(2) pend sb fut by (simp add: loop_inv_def fail_remaining_eq)
qed

lemma loop_inv_abandon:
  assumes "loop_inv is_iso e0 a" and "a_futures a i = Pending"
  shows "loop_inv is_iso e0 (a\<lparr>a_futures := (a_futures a)(i := Abandoned)\<rparr>)"
  using assms by (auto simp: loop_inv_def pending_def settled_before_def settled_def)

lemma loop_inv_step:
  assumes "loop_step is_iso a a'" and inv: "loop_inv is_iso e0 a"
  shows "loop_inv is_iso e0 a'"
  using assms(1)
proof cases
  case started
  then show ?thesis
    by (intro loop_inv_frame[OF inv]) (auto simp: start_actor_def split: if_splits)
next
  case (resized n)
  then show ?thesis
    using inv by (intro loop_inv_frame[OF inv]) (auto simp: set_max_queue_size_def loop_inv_def split: if_splits)
next
  case observed_by
  then show ?thesis using inv by (intro loop_inv_frame[OF inv]) (auto simp: register_observer_def loop_inv_def)
next
  case (submitted m)
  then show ?thesis using loop_inv_submit[OF inv] by simp
next
  case (abandoned i)
  then show ?thesis using loop_inv_abandon[OF inv] by simp
next
  case taken
  then show ?thesis using loop_inv_take[OF inv] by simp
next
  case (processed env)
  then show ?thesis using loop_inv_process[OF inv] by auto
next
  case stopping
  then show ?thesis using inv by (intro loop_inv_frame[OF inv]) (auto simp: stop_flag_def loop_inv_def)
next
  case drained
  then show ?thesis by (intro loop_inv_frame[OF inv]) (auto simp: loop_exits_def pending_def)
next
  case timed_out
  then show ?thesis using loop_inv_fail[OF inv] by simp
next
  case orphaned
  then show ?thesis using inv by (intro loop_inv_frame[OF inv]) (auto simp: loop_inv_def)
qed

text \<open>What the actor can reach, whatever the callers, the scheduler and the operator do.\<close>

definition loop_reachable :: "(string \<Rightarrow> bool) \<Rightarrow> actor \<Rightarrow> actor \<Rightarrow> bool" where
  "loop_reachable is_iso a a' \<longleftrightarrow> (loop_step is_iso)\<^sup>*\<^sup>* a a'"

lemma loop_inv_reachable:
  assumes "loop_reachable is_iso (init_actor e cfg) a"
  shows "loop_inv is_iso e a"
  using assms[unfolded loop_reachable_def]
  by (induction rule: rtranclp_induct) (auto intro: loop_inv_init loop_inv_step)



subsection \<open>A concrete run\<close>

definition demo_cfg :: actor_config where
  "demo_cfg = \<lparr>cfg_max_queue_size = 2, cfg_observer_queue_size = None, cfg_publish_snapshots = True\<rparr>"

definition demo_admitted :: actor where
  "demo_admitted =
     snd (submit (demo_hop ASSIGNED [Set_Assigned_To (Some ''ada'')] None)
       (snd (submit demo_create (projr (start_actor (init_actor empty_engine demo_cfg))))))"

definition demo_processed :: actor where
  "demo_processed = process_one (\<lambda>_. True) demo_env (the (take_one demo_admitted))"

definition demo_stopped :: actor where
  "demo_stopped = (fail_remaining_futures (stop_flag demo_processed))\<lparr>a_loops := False\<rparr>"

lemma demo_reachable:
  "loop_reachable (\<lambda>_. True) (init_actor empty_engine demo_cfg) demo_processed"
  "loop_reachable (\<lambda>_. True) (init_actor empty_engine demo_cfg) demo_stopped"
proof -
  let ?i = "init_actor empty_engine demo_cfg" and ?iso = "\<lambda>_. True"
  let ?h = "demo_hop ASSIGNED [Set_Assigned_To (Some ''ada'')] None"
  let ?s = "projr (start_actor ?i)"
  have "start_actor ?i = Inr ?s" "\<not> a_loops ?i"
    by (simp_all add: start_actor_def init_actor_def)
  then have 1: "loop_step ?iso ?i ?s" by (intro loop_step.started)
  have "construct_mutation demo_create = Inr demo_create" "construct_mutation ?h = Inr ?h"
    by code_simp+
  then have 2: "loop_step ?iso ?s (snd (submit demo_create ?s))"
    "loop_step ?iso (snd (submit demo_create ?s)) demo_admitted"
    unfolding demo_admitted_def by (auto intro: loop_step.submitted)
  have "take_one demo_admitted \<noteq> None" by code_simp
  then have t: "take_one demo_admitted = Some (the (take_one demo_admitted))" by simp
  then have 3: "loop_step ?iso demo_admitted (the (take_one demo_admitted))" by (rule loop_step.taken)
  have "a_in_flight (the (take_one demo_admitted)) \<noteq> None" by code_simp
  then have 4: "loop_step ?iso (the (take_one demo_admitted)) demo_processed"
    unfolding demo_processed_def by (rule loop_step.processed)
  have "a_running demo_processed" "a_loops (stop_flag demo_processed)" "\<not> a_running (stop_flag demo_processed)"
    by code_simp+
  then have 5: "loop_step ?iso demo_processed (stop_flag demo_processed)"
    "loop_step ?iso (stop_flag demo_processed) demo_stopped"
    unfolding demo_stopped_def by (auto intro: loop_step.stopping loop_step.timed_out)
  from 1 2 3 4 have "(loop_step ?iso)\<^sup>*\<^sup>* ?i demo_processed"
    by (meson converse_rtranclp_into_rtranclp rtranclp.rtrancl_refl)
  then show "loop_reachable ?iso ?i demo_processed" by (simp add: loop_reachable_def)
  with 5 show "loop_reachable ?iso ?i demo_stopped"
    unfolding loop_reachable_def by (meson rtranclp.rtrancl_into_rtrancl)
qed



end
