(* ===== verification/Dependency_Graph.thy ===== *)
theory Dependency_Graph
  imports Prelude
begin

text \<open>
  The dependency graph of a decomposition (\<open>engine/decomposition/dag.py\<close>):
  missing references, the iterative depth-first cycle check, Kahn's algorithm
  with a min-heap, and the parallel groups. Of a \<open>SubtaskDefinition\<close> the graph
  reads the id and the dependencies.

  \<open>heapq\<close> is the sorted list of its elements: \<open>heapify\<close> sorts, \<open>heappush\<close>
  inserts in order, \<open>heappop\<close> takes the head.
\<close>

section \<open>The graph\<close>

record 'a subtask =
  sd_id :: 'a
  sd_dependencies :: "'a list"

type_synonym 'a graph = "'a subtask list"

datatype 'a graph_error = Unknown_Dependency 'a 'a | Cycle_Edge 'a 'a | Sort_Cycle | Group_Cycle

definition subtask_ids :: "'a graph \<Rightarrow> 'a list" where
  "subtask_ids g = map sd_id g"

text \<open>The adjacency dictionaries, filled in the order of the subtasks.\<close>

fun add_edges :: "'a list \<Rightarrow> 'a \<Rightarrow> 'a list \<Rightarrow> ('a \<Rightarrow> 'a list) \<Rightarrow> 'a \<Rightarrow> 'a list" where
  "add_edges ids s [] forward = forward"
| "add_edges ids s (d # ds) forward =
     add_edges ids s ds (if d \<in> set ids then forward(d := forward d @ [s]) else forward)"

definition adjacency :: "'a graph \<Rightarrow> 'a \<Rightarrow> 'a list" where
  "adjacency g = fold (\<lambda>t. add_edges (subtask_ids g) (sd_id t) (sd_dependencies t)) g (\<lambda>_. [])"

definition reverse_adjacency :: "'a graph \<Rightarrow> 'a \<Rightarrow> 'a list" where
  "reverse_adjacency g n =
     (case map_of (rev (map (\<lambda>t. (sd_id t, sd_dependencies t)) g)) n of None \<Rightarrow> [] | Some ds \<Rightarrow> ds)"

definition get_dependents :: "'a::linorder graph \<Rightarrow> 'a \<Rightarrow> 'a list" where
  "get_dependents g n = sort (adjacency g n)"

definition get_dependencies :: "'a::linorder graph \<Rightarrow> 'a \<Rightarrow> 'a list" where
  "get_dependencies g n = sort (reverse_adjacency g n)"

fun first_unknown :: "'a list \<Rightarrow> 'a graph \<Rightarrow> ('a \<times> 'a) option" where
  "first_unknown ids [] = None"
| "first_unknown ids (t # ts) =
     (case find (\<lambda>d. d \<notin> set ids) (sd_dependencies t) of
        Some d \<Rightarrow> Some (sd_id t, d)
      | None \<Rightarrow> first_unknown ids ts)"

definition check_missing_references :: "'a graph \<Rightarrow> ('a graph_error, unit) outcome" where
  "check_missing_references g =
     (case first_unknown (subtask_ids g) g of
        None \<Rightarrow> Inr ()
      | Some (s, d) \<Rightarrow> Inl (Unknown_Dependency s d))"

section \<open>Cycle detection\<close>

text \<open>
  The \<open>while stack\<close> loop, the stack with its top first. Every node it can meet is
  a subtask or a dependency of one.
\<close>

definition graph_nodes :: "'a graph \<Rightarrow> 'a set" where
  "graph_nodes g = set (subtask_ids g) \<union> \<Union> (set ` sd_dependencies ` set g)"

lemma finite_graph_nodes [simp]: "finite (graph_nodes g)"
  by (simp add: graph_nodes_def)

lemma reverse_adjacency_nodes: "set (reverse_adjacency g n) \<subseteq> graph_nodes g"
proof (cases "map_of (rev (map (\<lambda>t. (sd_id t, sd_dependencies t)) g)) n")
  case (Some ds)
  from map_of_SomeD[OF this] have "\<exists>t \<in> set g. ds = sd_dependencies t" by auto
  with Some show ?thesis by (auto simp: reverse_adjacency_def graph_nodes_def)
qed (simp add: reverse_adjacency_def)

text \<open>
  Either a node is seen for the first time, counting the top of the stack as seen,
  or the work left on the stack shrinks.
\<close>

definition dfs_left :: "'a graph \<Rightarrow> ('a \<times> nat) list \<Rightarrow> nat" where
  "dfs_left g stack = (\<Sum>(n, i) \<leftarrow> stack. Suc (length (reverse_adjacency g n) - i))"

fun dfs_seen :: "('a \<times> nat) list \<Rightarrow> 'a set \<Rightarrow> 'a set" where
  "dfs_seen ((n, 0) # _) visited = insert n visited"
| "dfs_seen _ visited = visited"

lemma dfs_seen_grows: "visited \<subseteq> dfs_seen stack visited"
  by (cases "(stack, visited)" rule: dfs_seen.cases) auto

lemma dfs_seen_top: "dfs_seen ((n, i) # stack) visited = (if i = 0 then insert n visited else visited)"
  by (cases i) auto

lemma card_unseen_mono:
  "A \<subseteq> B \<Longrightarrow> card (graph_nodes g - B) \<le> card (graph_nodes g - A)"
  by (intro card_mono) auto

lemma card_unseen_less:
  "d \<in> graph_nodes g \<Longrightarrow> d \<notin> A \<Longrightarrow> card (graph_nodes g - insert d A) < card (graph_nodes g - A)"
  by (intro psubset_card_mono) auto

function dfs :: "'a graph \<Rightarrow> ('a \<times> nat) list \<Rightarrow> 'a set \<Rightarrow> 'a set \<Rightarrow> ('a graph_error, 'a set \<times> 'a set) outcome" where
  "dfs g [] visited in_stack = Inr (visited, in_stack)"
| "dfs g ((node, idx) # stack) visited in_stack =
     (let visited' = (if idx = 0 then insert node visited else visited);
          in_stack' = (if idx = 0 then insert node in_stack else in_stack);
          deps = reverse_adjacency g node
      in if idx < length deps then
           (let dep = deps ! idx in
            if dep \<in> in_stack' then Inl (Cycle_Edge node dep)
            else if dep \<notin> visited' then dfs g ((dep, 0) # (node, Suc idx) # stack) visited' in_stack'
            else dfs g ((node, Suc idx) # stack) visited' in_stack')
         else dfs g stack visited' (in_stack' - {node}))"
  by pat_completeness auto

termination
proof (relation "measures [\<lambda>(g, stack, visited, in_stack). card (graph_nodes g - dfs_seen stack visited),
    \<lambda>(g, stack, visited, in_stack). dfs_left g stack]", simp, goal_cases)
  case (1 g node idx stack visited in_stack v i deps dep)
  then have "dep \<in> graph_nodes g"
    using reverse_adjacency_nodes[of g node] nth_mem by fastforce
  with 1 card_unseen_less[of dep g v] show ?case by (simp add: dfs_seen_top)
next
  case (2 g node idx stack visited in_stack v i deps dep)
  then show ?case by (simp add: dfs_seen_top dfs_left_def)
next
  case (3 g node idx stack visited in_stack v i deps)
  have "card (graph_nodes g - dfs_seen stack v) \<le> card (graph_nodes g - v)"
    by (rule card_unseen_mono[OF dfs_seen_grows])
  with 3 show ?case by (auto simp: dfs_seen_top dfs_left_def)
qed

fun dfs_all :: "'a graph \<Rightarrow> 'a list \<Rightarrow> 'a set \<Rightarrow> 'a set \<Rightarrow> ('a graph_error, unit) outcome" where
  "dfs_all g [] visited in_stack = Inr ()"
| "dfs_all g (start # starts) visited in_stack =
     (if start \<in> visited then dfs_all g starts visited in_stack
      else case dfs g [(start, 0)] visited in_stack of
             Inl e \<Rightarrow> Inl e
           | Inr (visited', in_stack') \<Rightarrow> dfs_all g starts visited' in_stack')"

definition check_cycles :: "'a graph \<Rightarrow> ('a graph_error, unit) outcome" where
  "check_cycles g = dfs_all g (subtask_ids g) {} {}"

definition validate_graph :: "'a graph \<Rightarrow> ('a graph_error, unit) outcome" where
  "validate_graph g =
     (case check_missing_references g of Inl e \<Rightarrow> Inl e | Inr _ \<Rightarrow> check_cycles g)"

section \<open>Topological order\<close>

definition init_degrees :: "'a graph \<Rightarrow> 'a \<Rightarrow> int" where
  "init_degrees g = fold (\<lambda>t deg. fold (\<lambda>_ deg. deg(sd_id t := deg (sd_id t) + 1)) (sd_dependencies t) deg) g (\<lambda>_. 0)"

fun relax :: "'a::linorder list \<Rightarrow> ('a \<Rightarrow> int) \<Rightarrow> 'a list \<Rightarrow> ('a \<Rightarrow> int) \<times> 'a list" where
  "relax [] deg heap = (deg, heap)"
| "relax (d # ds) deg heap =
     (let deg' = deg(d := deg d - 1)
      in relax ds deg' (if deg' d = 0 then insort d heap else heap))"

text \<open>A node enters the heap only when its degree drops from positive to zero.\<close>

lemma relax_measure:
  assumes "relax ds deg heap = (deg', heap')" and "set ds \<subseteq> N" and "finite N"
  shows "length heap' + card {x \<in> N. 0 < deg' x} \<le> length heap + card {x \<in> N. 0 < deg x}"
  using assms(1,2)
proof (induction ds arbitrary: deg heap)
  case (Cons d ds)
  let ?deg = "deg(d := deg d - 1)" and ?P = "\<lambda>deg. {x \<in> N. 0 < deg x}"
  have fin: "finite (?P deg)" using assms(3) by simp
  have "relax ds ?deg (if ?deg d = 0 then insort d heap else heap) = (deg', heap')"
    using Cons.prems(1) by (simp add: Let_def)
  then have IH: "length heap' + card (?P deg') \<le> length (if ?deg d = 0 then insort d heap else heap) + card (?P ?deg)"
    by (rule Cons.IH) (use Cons.prems(2) in simp)
  show ?case
  proof (cases "deg d = 1")
    case True
    then have "?P ?deg = ?P deg - {d}" "d \<in> ?P deg" using Cons.prems(2) by auto
    then have "card (?P deg) = Suc (card (?P ?deg))"
      using fin by (metis card_Suc_Diff1)
    then show ?thesis using IH True by simp
  next
    case False
    have "card (?P ?deg) \<le> card (?P deg)" using fin by (intro card_mono) auto
    then show ?thesis using IH False by simp
  qed
qed simp

lemma set_add_edges: "set (add_edges ids s ds f n) \<subseteq> insert s (set (f n))"
  by (induction ds arbitrary: f) (fastforce split: if_splits)+

lemma adjacency_ids: "set (adjacency g n) \<subseteq> set (subtask_ids g)"
proof -
  have "set (fold (\<lambda>t. add_edges ids (sd_id t) (sd_dependencies t)) ts f n) \<subseteq> sd_id ` set ts \<union> set (f n)" for ids ts f
  proof (induction ts arbitrary: f)
    case (Cons t ts)
    then show ?case using set_add_edges[of ids "sd_id t" "sd_dependencies t" f n] by fastforce
  qed simp
  from this[of "subtask_ids g" g "\<lambda>_. []"] show ?thesis by (simp add: adjacency_def subtask_ids_def)
qed

function kahn :: "'a::linorder graph \<Rightarrow> ('a \<Rightarrow> int) \<Rightarrow> 'a list \<Rightarrow> 'a list \<Rightarrow> 'a list" where
  "kahn g deg [] result = result"
| "kahn g deg (node # heap) result =
     (case relax (adjacency g node) deg heap of
        (deg', heap') \<Rightarrow> kahn g deg' heap' (result @ [node]))"
  by pat_completeness auto
termination
proof (relation "measure (\<lambda>(g, deg, heap, result). length heap + card {x \<in> set (subtask_ids g). 0 < deg x})",
    simp, goal_cases)
  case (1 g deg node heap result deg' heap')
  from relax_measure[OF 1[symmetric] adjacency_ids] show ?case by simp
qed

definition topological_sort :: "'a::linorder graph \<Rightarrow> ('a graph_error, 'a list) outcome" where
  "topological_sort g =
     (case check_missing_references g of
        Inl e \<Rightarrow> Inl e
      | Inr _ \<Rightarrow>
          let deg = init_degrees g;
              result = kahn g deg (sort (filter (\<lambda>s. deg s = 0) (subtask_ids g))) []
          in if length result \<noteq> length (subtask_ids g) then Inl Sort_Cycle else Inr result)"

section \<open>Parallel groups\<close>

text \<open>\<open>remaining\<close> is a set; a group is its ready part, sorted.\<close>

fun relax_all :: "'a graph \<Rightarrow> 'a list \<Rightarrow> ('a \<Rightarrow> int) \<Rightarrow> 'a \<Rightarrow> int" where
  "relax_all g [] deg = deg"
| "relax_all g (node # nodes) deg =
     relax_all g nodes (fold (\<lambda>d deg. deg(d := deg d - 1)) (adjacency g node) deg)"

function group_loop :: "'a::linorder graph \<Rightarrow> ('a \<Rightarrow> int) \<Rightarrow> 'a list \<Rightarrow> ('a graph_error, 'a list list) outcome" where
  "group_loop g deg remaining =
     (if remaining = [] then Inr []
      else let ready = sort (filter (\<lambda>s. deg s = 0) remaining)
           in if ready = [] then Inl Group_Cycle
              else case group_loop g (relax_all g ready deg) (filter (\<lambda>s. s \<notin> set ready) remaining) of
                     Inl e \<Rightarrow> Inl e
                   | Inr groups \<Rightarrow> Inr (ready # groups))"
  by pat_completeness auto
termination
proof (relation "measure (\<lambda>(g, deg, remaining). length remaining)", simp, goal_cases)
  case (1 g deg remaining ready)
  then have "filter (\<lambda>s. deg s = 0) remaining \<noteq> []" by auto
  then obtain x where "x \<in> set remaining" "deg x = 0" by (auto simp: filter_empty_conv)
  with 1 show ?case by (auto intro: length_filter_less)
qed

definition parallel_groups :: "'a::linorder graph \<Rightarrow> ('a graph_error, 'a list list) outcome" where
  "parallel_groups g =
     (case check_missing_references g of
        Inl e \<Rightarrow> Inl e
      | Inr _ \<Rightarrow> group_loop g (init_degrees g) (remdups (subtask_ids g)))"

declare group_loop.simps [simp del]

section \<open>What the dictionaries hold\<close>

text \<open>The plan model rejects repeated ids before a graph is built.\<close>

definition unique_ids :: "'a graph \<Rightarrow> bool" where
  "unique_ids g \<longleftrightarrow> distinct (subtask_ids g)"

text \<open>\<open>(d, s)\<close>: the subtask \<open>s\<close> declares the dependency \<open>d\<close>.\<close>

definition depends :: "'a graph \<Rightarrow> ('a \<times> 'a) set" where
  "depends g = {(d, s). d \<in> set (reverse_adjacency g s)}"

lemma sum_list_unique:
  assumes "distinct (map f ts)"
  shows "(\<Sum>t\<leftarrow>ts. if f t = s then h t else (0::nat)) =
    (case map_of (map (\<lambda>t. (f t, h t)) ts) s of None \<Rightarrow> 0 | Some n \<Rightarrow> n)"
  using assms
proof (induction ts)
  case (Cons t ts)
  have "(\<Sum>t\<leftarrow>ts. if f t = s then h t else 0) = 0" if "s \<notin> f ` set ts"
    using that by (induction ts) auto
  with Cons show ?case by auto
qed simp

lemma case_map_of_image:
  "h [] = (0::nat) \<Longrightarrow> (case map_of (map (\<lambda>t. (f t, h (k t))) ts) s of None \<Rightarrow> 0 | Some n \<Rightarrow> n) =
     h (case map_of (map (\<lambda>t. (f t, k t)) ts) s of None \<Rightarrow> [] | Some ds \<Rightarrow> ds)"
  by (induction ts) auto

lemma reverse_adjacency_unique:
  assumes "unique_ids g"
  shows "reverse_adjacency g n = (case map_of (map (\<lambda>t. (sd_id t, sd_dependencies t)) g) n of None \<Rightarrow> [] | Some ds \<Rightarrow> ds)"
proof -
  have "distinct (map fst (map (\<lambda>t. (sd_id t, sd_dependencies t)) g))"
    using assms by (simp add: unique_ids_def subtask_ids_def comp_def)
  then have "map_of (rev (map (\<lambda>t. (sd_id t, sd_dependencies t)) g)) = map_of (map (\<lambda>t. (sd_id t, sd_dependencies t)) g)"
    by (subst map_of_inject_set) (simp_all add: rev_map[symmetric])
  then show ?thesis by (simp add: reverse_adjacency_def)
qed

lemma reverse_adjacency_of:
  assumes "unique_ids g" and "t \<in> set g"
  shows "reverse_adjacency g (sd_id t) = sd_dependencies t"
proof -
  have "map_of (map (\<lambda>t. (sd_id t, sd_dependencies t)) g) (sd_id t) = Some (sd_dependencies t)"
    using assms by (intro map_of_is_SomeI) (auto simp: unique_ids_def subtask_ids_def comp_def)
  then show ?thesis by (simp add: reverse_adjacency_unique[OF assms(1)])
qed

lemma reverse_adjacency_outside: "n \<notin> set (subtask_ids g) \<Longrightarrow> reverse_adjacency g n = []"
  by (auto simp: reverse_adjacency_def subtask_ids_def split: option.splits dest!: map_of_SomeD)

lemma depends_source: "(d, s) \<in> depends g \<Longrightarrow> s \<in> set (subtask_ids g)"
  using reverse_adjacency_outside[of s g] by (cases "s \<in> set (subtask_ids g)") (auto simp: depends_def)

lemma depends_iff:
  assumes "unique_ids g"
  shows "(d, s) \<in> depends g \<longleftrightarrow> (\<exists>t \<in> set g. sd_id t = s \<and> d \<in> set (sd_dependencies t))"
proof
  assume d: "(d, s) \<in> depends g"
  then have "s \<in> set (subtask_ids g)" by (rule depends_source)
  then obtain t where "t \<in> set g" "sd_id t = s" by (auto simp: subtask_ids_def)
  with d reverse_adjacency_of[OF assms] show "\<exists>t \<in> set g. sd_id t = s \<and> d \<in> set (sd_dependencies t)"
    by (auto simp: depends_def)
qed (use reverse_adjacency_of[OF assms] in \<open>auto simp: depends_def\<close>)

lemma count_add_edges:
  "count_list (add_edges ids s ds f n) x =
     count_list (f n) x + (if x = s \<and> n \<in> set ids then count_list ds n else 0)"
  by (induction ds arbitrary: f) auto

lemma count_adjacency:
  assumes "unique_ids g" and "n \<in> set (subtask_ids g)"
  shows "count_list (adjacency g n) x = count_list (reverse_adjacency g x) n"
proof -
  have "count_list (fold (\<lambda>t. add_edges ids (sd_id t) (sd_dependencies t)) ts f n) x =
      count_list (f n) x + (\<Sum>t\<leftarrow>ts. if sd_id t = x then (if n \<in> set ids then count_list (sd_dependencies t) n else 0) else 0)"
    for ids ts f
    by (induction ts arbitrary: f) (auto simp: count_add_edges)
  from this[of "subtask_ids g" g "\<lambda>_. []"] assms(2)
  have "count_list (adjacency g n) x = (\<Sum>t\<leftarrow>g. if sd_id t = x then count_list (sd_dependencies t) n else 0)"
    by (simp add: adjacency_def cong: if_cong)
  also have "\<dots> = (case map_of (map (\<lambda>t. (sd_id t, count_list (sd_dependencies t) n)) g) x of None \<Rightarrow> 0 | Some k \<Rightarrow> k)"
    using assms(1) sum_list_unique[of sd_id g x "\<lambda>t. count_list (sd_dependencies t) n"]
    by (simp add: unique_ids_def subtask_ids_def)
  also have "\<dots> = count_list (reverse_adjacency g x) n"
    unfolding reverse_adjacency_unique[OF assms(1)]
    by (rule case_map_of_image[where h = "\<lambda>ds. count_list ds n"]) simp
  finally show ?thesis .
qed

lemma init_degrees_eq:
  assumes "unique_ids g"
  shows "init_degrees g x = int (length (reverse_adjacency g x))"
proof -
  have step: "fold (\<lambda>_ deg. deg(s := deg s + 1)) ds deg x = deg x + (if x = s then int (length ds) else 0)"
    for s and ds :: "'a list" and deg :: "'a \<Rightarrow> int"
    by (induction ds arbitrary: deg) auto
  have "fold (\<lambda>t deg. fold (\<lambda>_ deg. deg(sd_id t := deg (sd_id t) + 1)) (sd_dependencies t) deg) ts deg x =
      deg x + int (\<Sum>t\<leftarrow>ts. if sd_id t = x then length (sd_dependencies t) else 0)" for ts :: "'a graph" and deg
    by (induction ts arbitrary: deg) (auto simp: step)
  then have "init_degrees g x = int (\<Sum>t\<leftarrow>g. if sd_id t = x then length (sd_dependencies t) else 0)"
    by (simp add: init_degrees_def)
  also have "\<dots> = int (case map_of (map (\<lambda>t. (sd_id t, length (sd_dependencies t))) g) x of None \<Rightarrow> 0 | Some k \<Rightarrow> k)"
    using assms sum_list_unique[of sd_id g x "\<lambda>t. length (sd_dependencies t)"]
    by (simp add: unique_ids_def subtask_ids_def)
  also have "\<dots> = int (length (reverse_adjacency g x))"
    using case_map_of_image[of length sd_id sd_dependencies g x]
    by (simp add: reverse_adjacency_unique[OF assms])
  finally show ?thesis .
qed

definition refs_ok :: "'a graph \<Rightarrow> bool" where
  "refs_ok g \<longleftrightarrow> (\<forall>t \<in> set g. set (sd_dependencies t) \<subseteq> set (subtask_ids g))"

lemma check_missing_references_iff: "check_missing_references g = Inr () \<longleftrightarrow> refs_ok g"
proof -
  have "first_unknown ids ts = None \<longleftrightarrow> (\<forall>t \<in> set ts. set (sd_dependencies t) \<subseteq> set ids)" for ids and ts :: "'a graph"
    by (induction ts) (auto simp: find_None_iff split: option.splits dest!: find_SomeD)
  from this[of "subtask_ids g" g] show ?thesis
    by (cases "first_unknown (subtask_ids g) g") (auto simp: check_missing_references_def refs_ok_def)
qed

lemma check_missing_references_Inl:
  assumes "check_missing_references g = Inl e"
  shows "\<exists>s d. e = Unknown_Dependency s d \<and> d \<notin> set (subtask_ids g) \<and> (\<exists>t \<in> set g. sd_id t = s \<and> d \<in> set (sd_dependencies t))"
proof -
  have "first_unknown ids ts = Some (s, d) \<Longrightarrow> d \<notin> set ids \<and> (\<exists>t \<in> set ts. sd_id t = s \<and> d \<in> set (sd_dependencies t))"
    for ids s d and ts :: "'a graph"
    by (induction ts) (auto split: option.splits dest!: find_SomeD)
  with assms show ?thesis by (auto simp: check_missing_references_def split: option.splits)
qed

lemma depends_closed:
  assumes "unique_ids g" and "refs_ok g" and "(d, s) \<in> depends g"
  shows "d \<in> set (subtask_ids g)" "s \<in> set (subtask_ids g)"
  using assms(2,3) by (auto simp: depends_iff[OF assms(1)] refs_ok_def subtask_ids_def)

lemma finite_depends: "finite (depends g)"
proof -
  have "depends g \<subseteq> graph_nodes g \<times> set (subtask_ids g)"
    using reverse_adjacency_nodes[of g] depends_source[of _ _ g] by (auto simp: depends_def)
  then show ?thesis by (rule finite_subset) simp
qed

text \<open>A set in which everyone waits for a member of the set contains a cycle.\<close>

lemma everyone_waits:
  assumes "A \<noteq> {}" and "\<And>x. x \<in> A \<Longrightarrow> \<exists>y \<in> A. (y, x) \<in> depends g"
  shows "\<not> acyclic (depends g)"
proof
  assume "acyclic (depends g)"
  then have "wf (depends g)" by (rule finite_acyclic_wf[OF finite_depends])
  with assms(1) obtain x where "x \<in> A" "\<And>y. (y, x) \<in> depends g \<Longrightarrow> y \<notin> A"
    by (metis wf_eq_minimal ex_in_conv)
  with assms(2) show False by blast
qed

section \<open>Kahn's algorithm\<close>

text \<open>The subtasks that can run once \<open>R\<close> is done.\<close>

definition ready :: "'a graph \<Rightarrow> 'a set \<Rightarrow> 'a set" where
  "ready g R = {x \<in> set (subtask_ids g). x \<notin> R \<and> set (reverse_adjacency g x) \<subseteq> R}"

definition waiting :: "'a graph \<Rightarrow> 'a set \<Rightarrow> 'a \<Rightarrow> int" where
  "waiting g R x = int (length (filter (\<lambda>d. d \<notin> R) (reverse_adjacency g x)))"

lemma waiting_0: "waiting g R x = 0 \<longleftrightarrow> set (reverse_adjacency g x) \<subseteq> R"
  by (auto simp: waiting_def filter_empty_conv)

lemma waiting_nonneg [simp]: "0 \<le> waiting g R x"
  by (simp add: waiting_def)

lemma waiting_insert:
  "n \<notin> R \<Longrightarrow> waiting g (insert n R) x = waiting g R x - int (count_list (reverse_adjacency g x) n)"
proof -
  have "n \<notin> R \<Longrightarrow> length (filter (\<lambda>d. d \<notin> R) ds) = length (filter (\<lambda>d. d \<notin> insert n R) ds) + count_list ds n" for ds
    by (induction ds) auto
  then show "n \<notin> R \<Longrightarrow> ?thesis" by (simp add: waiting_def)
qed

lemma waiting_count: "n \<notin> R \<Longrightarrow> int (count_list (reverse_adjacency g x) n) \<le> waiting g R x"
  using waiting_insert[of n R g x] waiting_nonneg[of g "insert n R" x] by linarith

lemma ready_waiting: "ready g R = {x \<in> set (subtask_ids g). x \<notin> R \<and> waiting g R x = 0}"
  by (simp add: ready_def waiting_0)

lemma finite_ready [simp]: "finite (ready g R)"
  by (simp add: ready_def)

lemma relax_spec:
  assumes "sorted heap" and "distinct heap" and "\<And>x. int (count_list ds x) \<le> deg x"
    and "\<And>x. x \<in> set heap \<Longrightarrow> deg x = 0"
  shows "fst (relax ds deg heap) = (\<lambda>x. deg x - int (count_list ds x)) \<and>
    sorted (snd (relax ds deg heap)) \<and> distinct (snd (relax ds deg heap)) \<and>
    set (snd (relax ds deg heap)) = set heap \<union> {x \<in> set ds. deg x = int (count_list ds x)}"
  using assms
proof (induction ds arbitrary: deg heap)
  case (Cons d ds)
  let ?deg = "deg(d := deg d - 1)" and ?heap = "if deg d - 1 = 0 then insort d heap else heap"
  have pos: "0 < deg d" using Cons.prems(3)[of d] by simp
  then have d: "d \<notin> set heap" using Cons.prems(4)[of d] by auto
  have srt: "sorted ?heap" "distinct ?heap"
    using Cons.prems(1,2) d by (auto simp: sorted_insort distinct_insort)
  have cnt: "int (count_list ds x) \<le> ?deg x" for x using Cons.prems(3)[of x] by (cases "x = d") auto
  have hp: "?deg x = 0" if "x \<in> set ?heap" for x
    using that Cons.prems(4)[of x] d by (auto simp: set_insort_key split: if_splits)
  note IH = Cons.IH[OF srt cnt hp]
  have rec: "relax (d # ds) deg heap = relax ds ?deg ?heap" by (simp add: Let_def)
  have eq1: "set ?heap \<union> {x \<in> set ds. ?deg x = int (count_list ds x)}
      = set heap \<union> {x \<in> set (d # ds). deg x = int (count_list (d # ds) x)}"
    using cnt[of d] count_list_0_iff[of ds d] by (auto simp: set_insort_key)
  have eq2: "(\<lambda>x. ?deg x - int (count_list ds x)) = (\<lambda>x. deg x - int (count_list (d # ds) x))"
    by auto
  from IH show ?case unfolding rec eq1 eq2 .
qed simp

definition kahn_inv :: "'a::linorder graph \<Rightarrow> ('a \<Rightarrow> int) \<Rightarrow> 'a list \<Rightarrow> 'a list \<Rightarrow> bool" where
  "kahn_inv g deg heap result \<longleftrightarrow>
     distinct result \<and> set result \<subseteq> set (subtask_ids g) \<and> deg = waiting g (set result) \<and>
     sorted heap \<and> distinct heap \<and> set heap = ready g (set result) \<and>
     (\<forall>k < length result. result ! k = Min (ready g (set (take k result))) \<and> ready g (set (take k result)) \<noteq> {})"

lemma kahn_done_deps:
  assumes "kahn_inv g deg heap result" and "x \<in> set result"
  shows "set (reverse_adjacency g x) \<subseteq> set result"
proof -
  obtain k where k: "k < length result" "x = result ! k" using assms(2) by (metis in_set_conv_nth)
  with assms(1) have "x \<in> ready g (set (take k result))"
    using Min_in[OF finite_ready, of g "set (take k result)"] by (auto simp: kahn_inv_def)
  then show ?thesis using set_take_subset[of k result] by (auto simp: ready_def)
qed

lemma kahn_inv_step:
  assumes inv: "kahn_inv g deg (node # heap) result" and "unique_ids g"
    and r: "relax (adjacency g node) deg heap = (deg', heap')"
  shows "kahn_inv g deg' heap' (result @ [node])"
proof -
  let ?R = "set result" and ?adj = "adjacency g node"
  have deg: "deg = waiting g ?R" and node: "node \<in> ready g ?R" "sorted heap" "distinct heap"
      "set heap = ready g ?R - {node}" "node = Min (ready g ?R)"
    using inv by (auto simp: kahn_inv_def intro!: Min_eqI[symmetric])
  have nR: "node \<notin> ?R" "node \<in> set (subtask_ids g)" using node(1) by (auto simp: ready_def)
  have cnt: "count_list ?adj x = count_list (reverse_adjacency g x) node" for x
    by (rule count_adjacency[OF assms(2) nR(2)])
  have pre: "int (count_list ?adj x) \<le> deg x" for x
    unfolding deg cnt by (rule waiting_count[OF nR(1)])
  have zero: "deg x = 0" if "x \<in> set heap" for x using that node(4) deg by (auto simp: ready_waiting)
  have spec: "deg' = (\<lambda>x. deg x - int (count_list ?adj x))" "sorted heap' \<and> distinct heap'"
      "set heap' = set heap \<union> {x \<in> set ?adj. deg x = int (count_list ?adj x)}"
    using relax_spec[OF node(2,3) pre zero] r by simp_all
  have deg': "deg' = waiting g (set (result @ [node]))"
    using spec(1) nR(1) by (auto simp: fun_eq_iff deg cnt waiting_insert)
  have heap': "set heap' = ready g (set (result @ [node]))"
  proof -
    have "x \<in> set heap \<or> x \<in> set ?adj \<and> deg x = int (count_list ?adj x) \<longleftrightarrow>
        x \<in> set (subtask_ids g) \<and> x \<notin> insert node ?R \<and> deg' x = 0" for x
    proof (cases "x \<in> set ?adj")
      case True
      then have "0 < count_list ?adj x" using count_list_0_iff[of ?adj x] by auto
      then have pos: "0 < deg x" using pre[of x] by linarith
      then have "x \<noteq> node" "x \<notin> ?R"
        using node(1) kahn_done_deps[OF inv, of x] deg waiting_0[of g ?R x] by (auto simp: ready_waiting)
      moreover have "x \<in> set (subtask_ids g)" using True adjacency_ids[of g node] by auto
      moreover have "x \<notin> set heap" using zero[of x] pos by auto
      ultimately show ?thesis using spec(1) True by auto
    next
      case False
      then have "count_list ?adj x = 0" by simp
      then have "deg' x = deg x" using spec(1) by simp
      with False node(4) deg show ?thesis by (auto simp: ready_waiting)
    qed
    then show ?thesis using spec(3) deg' by (auto simp: ready_waiting)
  qed
  have "(result @ [node]) ! k = Min (ready g (set (take k (result @ [node])))) \<and>
      ready g (set (take k (result @ [node]))) \<noteq> {}" if "k < length (result @ [node])" for k
    using that inv node by (cases "k < length result") (auto simp: kahn_inv_def nth_append less_Suc_eq)
  then show ?thesis
    using inv spec(2) deg' heap' nR by (auto simp: kahn_inv_def)
qed

lemma kahn_inv_result:
  assumes "kahn_inv g deg heap result" and "unique_ids g"
  shows "\<exists>deg'. kahn_inv g deg' [] (kahn g deg heap result)"
  using assms
proof (induction g deg heap result rule: kahn.induct)
  case (2 g deg node heap result)
  obtain deg' heap' where r: "relax (adjacency g node) deg heap = (deg', heap')" by fastforce
  with "2.IH"[OF r[symmetric]] kahn_inv_step[OF "2.prems" r] "2.prems"(2) show ?case by simp
qed auto

lemma kahn_inv_init:
  assumes "unique_ids g"
  shows "kahn_inv g (init_degrees g) (sort (filter (\<lambda>s. init_degrees g s = 0) (subtask_ids g))) []"
proof -
  have "init_degrees g = waiting g {}"
    by (simp add: fun_eq_iff init_degrees_eq[OF assms] waiting_def)
  then show ?thesis
    using assms by (auto simp: kahn_inv_def ready_waiting unique_ids_def)
qed

lemma unique_length_iff:
  assumes "unique_ids g" and "distinct r" and "set r \<subseteq> set (subtask_ids g)"
  shows "length r = length (subtask_ids g) \<longleftrightarrow> set r = set (subtask_ids g)"
  using assms card_subset_eq[of "set (subtask_ids g)" "set r"]
  by (metis List.finite_set distinct_card unique_ids_def)

text \<open>An order in which each subtask was ready when its turn came.\<close>

lemma ready_order_acyclic:
  assumes "unique_ids g" and "refs_ok g" and "distinct r" and "set r = set (subtask_ids g)"
    and "\<And>x d. (d, x) \<in> depends g \<Longrightarrow> index_of d r < index_of x r"
  shows "acyclic (depends g)"
proof -
  have "depends g \<subseteq> measure (\<lambda>x. index_of x r)" using assms(5) by auto
  then show ?thesis by (rule acyclic_subset[OF wf_acyclic[OF wf_measure]])
qed

lemma index_of_nth: "distinct r \<Longrightarrow> k < length r \<Longrightarrow> index_of (r ! k) r = k"
  by (metis index_of_le index_of_less_iff nth_eq_iff_index_eq nth_index_of nth_mem)

lemma kahn_order:
  assumes "kahn_inv g deg heap r" and "(d, x) \<in> depends g" and "x \<in> set r"
  shows "index_of d r < index_of x r"
proof -
  let ?k = "index_of x r"
  have k: "?k < length r" "r ! ?k = x" using assms(3) by simp_all
  then have "x = Min (ready g (set (take ?k r)))" "ready g (set (take ?k r)) \<noteq> {}"
    using assms(1) unfolding kahn_inv_def by metis+
  then have "x \<in> ready g (set (take ?k r))" by (metis Min_in finite_ready)
  with assms(2) have "d \<in> set (take ?k r)" by (auto simp: ready_def depends_def)
  then obtain j where j: "j < ?k" "r ! j = d" using k(1) by (auto simp: in_set_conv_nth)
  moreover have "distinct r" using assms(1) by (simp add: kahn_inv_def)
  ultimately have "index_of d r = j" using k(1) index_of_nth[of r j] by (metis less_trans)
  with j(1) show ?thesis by simp
qed

definition sorted_order :: "'a::linorder graph \<Rightarrow> 'a list" where
  "sorted_order g = kahn g (init_degrees g) (sort (filter (\<lambda>s. init_degrees g s = 0) (subtask_ids g))) []"

lemma topological_sort_eq:
  "topological_sort g =
     (case check_missing_references g of
        Inl e \<Rightarrow> Inl e
      | Inr _ \<Rightarrow> if length (sorted_order g) \<noteq> length (subtask_ids g) then Inl Sort_Cycle else Inr (sorted_order g))"
  by (simp add: topological_sort_def sorted_order_def Let_def split: sum.splits)

lemma sorted_order_inv: "unique_ids g \<Longrightarrow> \<exists>deg. kahn_inv g deg [] (sorted_order g)"
  unfolding sorted_order_def by (rule kahn_inv_result[OF kahn_inv_init])

lemma stuck_cycle:
  assumes "unique_ids g" and "refs_ok g" and "ready g R = {}" and "R \<subset> set (subtask_ids g)"
  shows "\<not> acyclic (depends g)"
proof (rule everyone_waits[of "set (subtask_ids g) - R"])
  show "set (subtask_ids g) - R \<noteq> {}" using assms(4) by auto
  fix x assume x: "x \<in> set (subtask_ids g) - R"
  with assms(3) obtain d where "d \<in> set (reverse_adjacency g x)" "d \<notin> R" by (auto simp: ready_def)
  then have "(d, x) \<in> depends g" by (simp add: depends_def)
  with depends_closed(1)[OF assms(1,2)] \<open>d \<notin> R\<close>
  show "\<exists>y \<in> set (subtask_ids g) - R. (y, x) \<in> depends g" by blast
qed

lemma sorted_order_complete_iff:
  assumes "unique_ids g" and "refs_ok g"
  shows "length (sorted_order g) = length (subtask_ids g) \<longleftrightarrow> acyclic (depends g)"
proof -
  obtain deg where inv: "kahn_inv g deg [] (sorted_order g)" using sorted_order_inv[OF assms(1)] by blast
  then have r: "distinct (sorted_order g)" "set (sorted_order g) \<subseteq> set (subtask_ids g)"
      "ready g (set (sorted_order g)) = {}"
    by (auto simp: kahn_inv_def)
  note len = unique_length_iff[OF assms(1) r(1,2)]
  show ?thesis
  proof
    assume "length (sorted_order g) = length (subtask_ids g)"
    then have all: "set (sorted_order g) = set (subtask_ids g)" using len by simp
    show "acyclic (depends g)"
      by (rule ready_order_acyclic[OF assms r(1) all])
        (metis all assms depends_closed(2) inv kahn_order)
  next
    assume "acyclic (depends g)"
    then show "length (sorted_order g) = length (subtask_ids g)"
      using stuck_cycle[OF assms r(3)] len r(2) by blast
  qed
qed

lemma topological_sort_spec:
  fixes g :: "'a::linorder graph"
  assumes "unique_ids g"
  shows "case topological_sort g of
      Inl e \<Rightarrow> \<not> (refs_ok g \<and> acyclic (depends g))
    | Inr r \<Rightarrow> refs_ok g \<and> acyclic (depends g) \<and> mset r = mset (subtask_ids g) \<and>
        (\<forall>(d, x) \<in> depends g. index_of d r < index_of x r) \<and>
        (\<forall>k < length r. r ! k = Min (ready g (set (take k r))))"
proof (cases "refs_ok g \<and> acyclic (depends g)")
  case False
  then show ?thesis
    using check_missing_references_iff[of g] sorted_order_complete_iff[OF assms]
    by (cases "check_missing_references g") (auto simp: topological_sort_eq)
next
  case True
  let ?r = "sorted_order g"
  have t: "topological_sort g = Inr ?r" and len: "length ?r = length (subtask_ids g)"
    using check_missing_references_iff[of g] sorted_order_complete_iff[OF assms] True
    by (cases "check_missing_references g"; auto simp: topological_sort_eq)+
  obtain deg where inv: "kahn_inv g deg [] ?r" using sorted_order_inv[OF assms] by blast
  then have rr: "distinct ?r" "set ?r \<subseteq> set (subtask_ids g)" by (auto simp: kahn_inv_def)
  then have all: "set ?r = set (subtask_ids g)" using unique_length_iff[OF assms] len by blast
  then have "mset ?r = mset (subtask_ids g)"
    using rr(1) assms by (simp add: set_eq_iff_mset_eq_distinct unique_ids_def)
  moreover have "index_of d ?r < index_of x ?r" if "(d, x) \<in> depends g" for d x
    using kahn_order[OF inv that] depends_closed(2)[OF assms _ that] True all by simp
  moreover have "\<forall>k < length ?r. ?r ! k = Min (ready g (set (take k ?r)))"
    using inv unfolding kahn_inv_def by blast
  ultimately show ?thesis unfolding t using True by auto
qed

text \<open>
  C36. The topological sort is right and total: on a graph with unique ids it
  returns an order exactly when every reference is known and the dependencies are
  acyclic; the order is a permutation of the subtasks in which every dependency
  comes before its dependent, and each position holds the least subtask that was
  ready by then, so the order does not depend on how the subtasks were listed.
\<close>

theorem topological_sort_correct:
  fixes g :: "'a::linorder graph"
  assumes "unique_ids g"
  shows "case topological_sort g of
      Inl e \<Rightarrow> \<not> (refs_ok g \<and> acyclic (depends g))
    | Inr r \<Rightarrow> refs_ok g \<and> acyclic (depends g) \<and> mset r = mset (subtask_ids g) \<and>
        (\<forall>(d, x) \<in> depends g. index_of d r < index_of x r) \<and>
        (\<forall>k < length r. r ! k = Min (ready g (set (take k r))))"
  using assms by (rule topological_sort_spec)

text \<open>A diamond, listed out of order.\<close>

definition demo_graph :: "string graph" where
  "demo_graph =
     [\<lparr>sd_id = ''test'', sd_dependencies = [''lex'', ''parse'']\<rparr>,
      \<lparr>sd_id = ''parse'', sd_dependencies = [''spec'']\<rparr>,
      \<lparr>sd_id = ''spec'', sd_dependencies = []\<rparr>,
      \<lparr>sd_id = ''lex'', sd_dependencies = [''spec'']\<rparr>]"

theorem topological_sort_correct_witness:
  "topological_sort demo_graph = Inr [''spec'', ''lex'', ''parse'', ''test''] \<and> acyclic (depends demo_graph)"
proof -
  have "unique_ids demo_graph" "topological_sort demo_graph = Inr [''spec'', ''lex'', ''parse'', ''test'']"
    by code_simp+
  with topological_sort_correct[of demo_graph] show ?thesis by simp
qed

section \<open>Groups\<close>

lemma relax_all_waiting:
  assumes "unique_ids g" and "distinct nodes" and "set nodes \<inter> R = {}" and "set nodes \<subseteq> set (subtask_ids g)"
  shows "relax_all g nodes (waiting g R) = waiting g (R \<union> set nodes)"
  using assms(2-4)
proof (induction nodes arbitrary: R)
  case (Cons n ns)
  have dec: "fold (\<lambda>d deg. deg(d := deg d - 1)) ds deg x = deg x - int (count_list ds x)"
    for ds x and deg :: "'a \<Rightarrow> int"
    by (induction ds arbitrary: deg) auto
  have "fold (\<lambda>d deg. deg(d := deg d - 1)) (adjacency g n) (waiting g R) = waiting g (insert n R)"
    using Cons.prems count_adjacency[OF assms(1), of n]
    by (auto simp: fun_eq_iff dec waiting_insert)
  with Cons show ?case by simp
qed simp

lemma group_loop_spec:
  assumes "unique_ids g" and "set remaining = set (subtask_ids g) - R" and "distinct remaining"
    and "R \<subseteq> set (subtask_ids g)" and "deg = waiting g R"
  shows "case group_loop g deg remaining of
      Inl e \<Rightarrow> \<exists>R'. R' \<subset> set (subtask_ids g) \<and> ready g R' = {}
    | Inr gs \<Rightarrow> distinct (concat gs) \<and> set (concat gs) = set remaining \<and>
        (\<forall>k < length gs. gs ! k \<noteq> [] \<and> gs ! k = sorted_list_of_set (ready g (R \<union> set (concat (take k gs)))))"
  using assms
proof (induction g deg remaining arbitrary: R rule: group_loop.induct)
  case (1 g deg remaining)
  let ?ready = "sort (filter (\<lambda>s. deg s = 0) remaining)"
  let ?deg = "relax_all g ?ready deg" and ?rest = "filter (\<lambda>s. s \<notin> set ?ready) remaining"
  have rd: "set ?ready = ready g R" "distinct ?ready"
    using "1.prems" by (auto simp: ready_waiting)
  then have srt: "?ready = sorted_list_of_set (ready g R)"
    by (metis finite_ready sorted_sort sorted_list_of_set.idem_if_sorted_distinct)
  show ?case
  proof (cases "remaining = [] \<or> ?ready = []")
    case True
    then show ?thesis
    proof (cases "remaining = []")
      case False
      with True have "ready g R = {}" "R \<subset> set (subtask_ids g)"
        using rd(1) "1.prems"(2,4) by auto
      with False True show ?thesis by (auto simp: group_loop.simps[of g deg remaining] Let_def)
    qed (simp add: group_loop.simps)
  next
    case False
    let ?R = "R \<union> ready g R"
    have rest: "set ?rest = set (subtask_ids g) - ?R" "?R \<subseteq> set (subtask_ids g)" "distinct ?rest"
      using "1.prems"(2-4) rd(1) by (auto simp: ready_def)
    have deg: "?deg = waiting g ?R"
      unfolding "1.prems"(5)
      using relax_all_waiting[OF "1.prems"(1) rd(2)] rd(1) "1.prems"(5) by (auto simp: ready_def)
    from False have ne: "remaining \<noteq> []" "?ready \<noteq> []" by blast+
    note IH = "1.IH"[OF ne(1) refl ne(2) "1.prems"(1) rest(1,3,2) deg]
    have unf: "group_loop g deg remaining = (case group_loop g ?deg ?rest of Inl e \<Rightarrow> Inl e | Inr gs \<Rightarrow> Inr (?ready # gs))"
      using False by (subst group_loop.simps) (simp add: Let_def)
    show ?thesis
    proof (cases "group_loop g ?deg ?rest")
      case (Inl e)
      with IH unf show ?thesis by simp
    next
      case (Inr gs)
      from IH[unfolded Inr sum.case] have gs: "distinct (concat gs)" "set (concat gs) = set ?rest"
          "\<And>k. k < length gs \<Longrightarrow> gs ! k \<noteq> [] \<and> gs ! k = sorted_list_of_set (ready g (?R \<union> set (concat (take k gs))))"
        by blast+
      have "(?ready # gs) ! k \<noteq> [] \<and> (?ready # gs) ! k =
          sorted_list_of_set (ready g (R \<union> set (concat (take k (?ready # gs)))))" if "k < length (?ready # gs)" for k
        using that gs(3)[of "k - 1"] ne(2) srt rd(1) by (cases k) (auto simp: Un_assoc)
      moreover have "distinct (concat (?ready # gs))" "set (concat (?ready # gs)) = set remaining"
        using gs(1,2) rd "1.prems"(2) rest(1) by (auto simp: ready_def)
      ultimately show ?thesis unfolding unf Inr sum.case by blast
    qed
  qed
qed

lemma layered_acyclic:
  assumes "unique_ids g" and "refs_ok g" and "set (concat gs) = set (subtask_ids g)"
    and "\<And>k. k < length gs \<Longrightarrow> gs ! k = sorted_list_of_set (ready g (set (concat (take k gs))))"
  shows "acyclic (depends g)"
proof -
  let ?rank = "\<lambda>x. LEAST k. x \<in> set (concat (take k gs))"
  have "?rank d < ?rank x" if dx: "(d, x) \<in> depends g" for d x
  proof -
    have "x \<in> set (concat (take (length gs) gs))"
      using depends_closed(2)[OF assms(1,2) dx] assms(3) by simp
    then have m: "x \<in> set (concat (take (?rank x) gs))" by (rule LeastI)
    then obtain k where k: "?rank x = Suc k" by (cases "?rank x") auto
    have "x \<notin> set (concat (take k gs))" using not_less_Least[of k "\<lambda>k. x \<in> set (concat (take k gs))"] k by simp
    with m k have "k < length gs" "x \<in> set (gs ! k)"
      by (cases "k < length gs"; auto simp: take_Suc_conv_app_nth)+
    then have "x \<in> ready g (set (concat (take k gs)))" using assms(4) by simp
    then have "d \<in> set (concat (take k gs))" using dx by (auto simp: ready_def depends_def)
    then have "?rank d \<le> k" by (rule Least_le)
    with k show ?thesis by simp
  qed
  then have "depends g \<subseteq> measure ?rank" by auto
  then show ?thesis by (rule acyclic_subset[OF wf_acyclic[OF wf_measure]])
qed

lemma parallel_groups_spec:
  fixes g :: "'a::linorder graph"
  assumes "unique_ids g"
  shows "case parallel_groups g of
      Inl e \<Rightarrow> \<not> (refs_ok g \<and> acyclic (depends g))
    | Inr gs \<Rightarrow> refs_ok g \<and> acyclic (depends g) \<and> mset (concat gs) = mset (subtask_ids g) \<and>
        (\<forall>k < length gs. gs ! k \<noteq> [] \<and>
           gs ! k = sorted_list_of_set (ready g (set (concat (take k gs)))))"
proof (cases "check_missing_references g")
  case (Inl e)
  then show ?thesis using check_missing_references_iff[of g] by (simp add: parallel_groups_def)
next
  case (Inr u)
  then have refs: "refs_ok g" using check_missing_references_iff[of g] by simp
  have deg: "init_degrees g = waiting g {}"
    by (simp add: fun_eq_iff init_degrees_eq[OF assms] waiting_def)
  have pg: "parallel_groups g = group_loop g (init_degrees g) (remdups (subtask_ids g))"
    using Inr by (simp add: parallel_groups_def)
  have spec: "case parallel_groups g of
      Inl e \<Rightarrow> \<exists>R'. R' \<subset> set (subtask_ids g) \<and> ready g R' = {}
    | Inr gs \<Rightarrow> distinct (concat gs) \<and> set (concat gs) = set (subtask_ids g) \<and>
        (\<forall>k < length gs. gs ! k \<noteq> [] \<and> gs ! k = sorted_list_of_set (ready g (set (concat (take k gs)))))"
    using group_loop_spec[OF assms, of "remdups (subtask_ids g)" "{}", OF _ _ _ deg]
    unfolding pg set_remdups Un_empty_left Diff_empty by simp
  show ?thesis
  proof (cases "parallel_groups g")
    case (Inl e)
    with spec obtain R' where "R' \<subset> set (subtask_ids g)" "ready g R' = {}" by auto
    with stuck_cycle[OF assms refs] have "\<not> acyclic (depends g)" by blast
    with Inl show ?thesis by simp
  next
    case (Inr gs)
    from spec[unfolded Inr sum.case] have gs: "distinct (concat gs)" "set (concat gs) = set (subtask_ids g)"
        "\<forall>k < length gs. gs ! k \<noteq> [] \<and> gs ! k = sorted_list_of_set (ready g (set (concat (take k gs))))"
      by blast+
    then have "acyclic (depends g)" using layered_acyclic[OF assms refs gs(2)] by blast
    moreover have "mset (concat gs) = mset (subtask_ids g)"
      using gs(1,2) assms set_eq_iff_mset_eq_distinct[of "concat gs" "subtask_ids g"] by (simp add: unique_ids_def)
    ultimately show ?thesis unfolding Inr sum.case using refs gs(3) by blast
  qed
qed

text \<open>
  C37. The parallel groups are right and total: they exist exactly when every
  reference is known and the dependencies are acyclic; together they list every
  subtask once, and each group is, in order, exactly the subtasks whose
  dependencies all lie in earlier groups, so every subtask runs as early as it can
  and never with one of its dependencies.
\<close>

theorem parallel_groups_correct:
  fixes g :: "'a::linorder graph"
  assumes "unique_ids g"
  shows "case parallel_groups g of
      Inl e \<Rightarrow> \<not> (refs_ok g \<and> acyclic (depends g))
    | Inr gs \<Rightarrow> refs_ok g \<and> acyclic (depends g) \<and> mset (concat gs) = mset (subtask_ids g) \<and>
        (\<forall>k < length gs. gs ! k \<noteq> [] \<and>
           gs ! k = sorted_list_of_set (ready g (set (concat (take k gs)))))"
  using assms by (rule parallel_groups_spec)

theorem parallel_groups_correct_witness:
  "parallel_groups demo_graph = Inr [[''spec''], [''lex'', ''parse''], [''test'']] \<and>
   mset (concat [[''spec''], [''lex'', ''parse''], [''test'']]) = mset (subtask_ids demo_graph)"
proof -
  have "unique_ids demo_graph" "parallel_groups demo_graph = Inr [[''spec''], [''lex'', ''parse''], [''test'']]"
    by code_simp+
  with parallel_groups_correct[of demo_graph] show ?thesis by simp
qed

section \<open>The depth-first cycle check\<close>

text \<open>
  Nodes that left the stack are black: their dependencies are black and none lies
  on a cycle. Below the top of the stack every entry waits for the one above it.
\<close>

definition black_ok :: "'a graph \<Rightarrow> 'a set \<Rightarrow> bool" where
  "black_ok g B \<longleftrightarrow> (\<forall>b \<in> B. set (reverse_adjacency g b) \<subseteq> B \<and> (b, b) \<notin> (depends g)\<^sup>+)"

fun trail :: "'a graph \<Rightarrow> 'a set \<Rightarrow> ('a \<times> nat) list \<Rightarrow> bool" where
  "trail g B ((m, j) # (n, i) # stack) \<longleftrightarrow>
     0 < i \<and> i \<le> length (reverse_adjacency g n) \<and> reverse_adjacency g n ! (i - 1) = m \<and>
     (\<forall>l < i - 1. reverse_adjacency g n ! l \<in> B) \<and> trail g B ((n, i) # stack)"
| "trail g B _ \<longleftrightarrow> True"

fun top_ok :: "'a graph \<Rightarrow> ('a \<times> nat) list \<Rightarrow> 'a set \<Rightarrow> 'a set \<Rightarrow> bool" where
  "top_ok g [] V S \<longleftrightarrow> S = {}"
| "top_ok g ((n, i) # stack) V S \<longleftrightarrow>
     i \<le> length (reverse_adjacency g n) \<and> (\<forall>l < i. reverse_adjacency g n ! l \<in> V - S) \<and>
     (if i = 0 then n \<notin> V \<and> S = fst ` set stack else S = insert n (fst ` set stack))"

definition dfs_inv :: "'a graph \<Rightarrow> ('a \<times> nat) list \<Rightarrow> 'a set \<Rightarrow> 'a set \<Rightarrow> bool" where
  "dfs_inv g stack V S \<longleftrightarrow>
     distinct (map fst stack) \<and> trail g (V - S) stack \<and> top_ok g stack V S \<and> S \<subseteq> V \<and> black_ok g (V - S)"

lemma trail_mono: "trail g B stack \<Longrightarrow> B \<subseteq> B' \<Longrightarrow> trail g B' stack"
  by (induction g B stack rule: trail.induct) auto

lemma trail_reaches: "trail g B ((n, i) # stack) \<Longrightarrow> x \<in> insert n (fst ` set stack) \<Longrightarrow> (n, x) \<in> (depends g)\<^sup>*"
proof (induction stack arbitrary: n i)
  case (Cons p stack)
  obtain m j where p: "p = (m, j)" by fastforce
  with Cons.prems(1) have "n \<in> set (reverse_adjacency g m)" "trail g B ((m, j) # stack)"
    by (auto simp: nth_mem)
  then have "(n, m) \<in> depends g" by (simp add: depends_def)
  moreover have "x = n \<or> (m, x) \<in> (depends g)\<^sup>*"
    using Cons.IH[OF \<open>trail g B ((m, j) # stack)\<close>] Cons.prems(2) p by auto
  ultimately show ?case by (auto intro: converse_rtrancl_into_rtrancl)
qed simp

lemma black_pred:
  assumes "black_ok g B" and "(y, b) \<in> (depends g)\<^sup>*" and "b \<in> B"
  shows "y \<in> B"
  using assms(2,3)
proof (induction rule: converse_rtrancl_induct)
  case (step y z)
  then have "z \<in> B" by simp
  with step(1) assms(1) show ?case by (auto simp: black_ok_def depends_def)
qed

lemma black_insert:
  assumes "black_ok g B" and "n \<notin> B" and "set (reverse_adjacency g n) \<subseteq> B"
  shows "black_ok g (insert n B)"
proof -
  have "(n, n) \<notin> (depends g)\<^sup>+"
  proof
    assume "(n, n) \<in> (depends g)\<^sup>+"
    then obtain d where "(n, d) \<in> (depends g)\<^sup>*" "(d, n) \<in> depends g" by (meson tranclD2)
    with assms show False using black_pred[OF assms(1)] by (auto simp: depends_def)
  qed
  with assms(1,3) show ?thesis by (auto simp: black_ok_def)
qed

lemma trail_top: "trail g B ((n, i) # stack) \<Longrightarrow> trail g B ((n, j) # stack)"
  by (cases stack) auto

text \<open>The invariant once the top of the stack is marked.\<close>

definition marked :: "'a graph \<Rightarrow> 'a \<Rightarrow> nat \<Rightarrow> ('a \<times> nat) list \<Rightarrow> 'a set \<Rightarrow> 'a set \<Rightarrow> bool" where
  "marked g n i stack V S \<longleftrightarrow>
     distinct (n # map fst stack) \<and> trail g (V - S) ((n, i) # stack) \<and> i \<le> length (reverse_adjacency g n) \<and>
     (\<forall>l < i. reverse_adjacency g n ! l \<in> V - S) \<and> S = insert n (fst ` set stack) \<and> S \<subseteq> V \<and>
     black_ok g (V - S)"

lemma mark_top:
  assumes "dfs_inv g ((n, i) # stack) V S"
  shows "marked g n i stack (if i = 0 then insert n V else V) (if i = 0 then insert n S else S)"
proof (cases "i = 0")
  case True
  with assms have "insert n V - insert n S = V - S" by (auto simp: dfs_inv_def)
  with True assms show ?thesis by (auto simp: dfs_inv_def marked_def)
qed (use assms in \<open>auto simp: dfs_inv_def marked_def\<close>)

lemma push_step:
  assumes "marked g n i stack V S" and "i < length (reverse_adjacency g n)" and "reverse_adjacency g n ! i \<notin> V"
  shows "dfs_inv g ((reverse_adjacency g n ! i, 0) # (n, Suc i) # stack) V S"
  using assms trail_top[of g "V - S" n i stack "Suc i"]
  by (auto simp: marked_def dfs_inv_def)

lemma skip_step:
  assumes "marked g n i stack V S" and "i < length (reverse_adjacency g n)" and "reverse_adjacency g n ! i \<in> V - S"
  shows "dfs_inv g ((n, Suc i) # stack) V S"
  using assms trail_top[of g "V - S" n i stack "Suc i"]
  by (auto simp: marked_def dfs_inv_def less_Suc_eq)

lemma pop_step:
  assumes m: "marked g n i stack V S" and "\<not> i < length (reverse_adjacency g n)"
  shows "dfs_inv g stack V (S - {n})"
proof -
  let ?B = "V - S"
  have "i = length (reverse_adjacency g n)" "\<forall>l < i. reverse_adjacency g n ! l \<in> ?B"
    using assms unfolding marked_def by (linarith, blast)
  then have deps: "set (reverse_adjacency g n) \<subseteq> ?B" by (metis in_set_conv_nth subsetI)
  have B: "V - (S - {n}) = insert n ?B" and S: "S - {n} = fst ` set stack" and d: "distinct (map fst stack)"
    using m by (auto simp: marked_def)
  have "black_ok g (insert n ?B)"
    using black_insert[OF _ _ deps] m by (auto simp: marked_def)
  moreover have "trail g (insert n ?B) stack \<and> top_ok g stack V (S - {n})"
  proof (cases stack)
    case (Cons p rest)
    obtain k j where p: "p = (k, j)" by fastforce
    with Cons m have t: "0 < j" "j \<le> length (reverse_adjacency g k)" "reverse_adjacency g k ! (j - 1) = n"
        "\<forall>l < j - 1. reverse_adjacency g k ! l \<in> ?B" "trail g ?B stack"
      by (auto simp: marked_def)
    have "reverse_adjacency g k ! l \<in> insert n ?B" if "l < j" for l
      using that t(3,4) by (cases "l = j - 1") auto
    then have "top_ok g stack V (S - {n})"
      unfolding Cons p top_ok.simps B using t(1,2) S[unfolded Cons p] by simp
    with trail_mono[OF t(5), of "insert n ?B"] show ?thesis by blast
  qed (use S in simp)
  moreover have "S - {n} \<subseteq> V" using m by (auto simp: marked_def)
  ultimately show ?thesis unfolding dfs_inv_def B using d by blast
qed

lemma dfs_spec:
  assumes "dfs_inv g stack V S"
  shows "case dfs g stack V S of
      Inl e \<Rightarrow> \<exists>n d. e = Cycle_Edge n d \<and> (d, n) \<in> depends g \<and> (n, d) \<in> (depends g)\<^sup>*
    | Inr (V', S') \<Rightarrow> S' = {} \<and> black_ok g V' \<and> V \<subseteq> V' \<and> fst ` set stack \<subseteq> V'"
  using assms
proof (induction g stack V S rule: dfs.induct)
  case (1 g V S)
  then show ?case by (auto simp: dfs_inv_def)
next
  case (2 g n i stack V S)
  let ?V = "if i = 0 then insert n V else V" and ?S = "if i = 0 then insert n S else S"
  let ?deps = "reverse_adjacency g n"
  have m: "marked g n i stack ?V ?S" using "2.prems" by (rule mark_top)
  then have nV: "n \<in> ?V" by (auto simp: marked_def)
  show ?case
  proof (cases "i < length ?deps")
    case False
    have "dfs g ((n, i) # stack) V S = dfs g stack ?V (?S - {n})"
      using False by (simp add: Let_def)
    with "2.IH"(3)[OF refl refl refl False pop_step[OF m False]] nV show ?thesis
      by (auto split: sum.splits if_splits)
  next
    case True
    then have dep: "(?deps ! i, n) \<in> depends g" by (simp add: depends_def)
    consider (found) "?deps ! i \<in> ?S" | (new) "?deps ! i \<notin> ?S" "?deps ! i \<notin> ?V"
      | (left) "?deps ! i \<notin> ?S" "\<not> ?deps ! i \<notin> ?V" by blast
    then show ?thesis
    proof cases
      case found
      have "trail g (?V - ?S) ((n, i) # stack)" "?deps ! i \<in> insert n (fst ` set stack)"
        using m found unfolding marked_def by blast+
      then have "(n, ?deps ! i) \<in> (depends g)\<^sup>*" by (rule trail_reaches)
      moreover have "dfs g ((n, i) # stack) V S = Inl (Cycle_Edge n (?deps ! i))"
        using True found by (simp add: Let_def)
      ultimately show ?thesis using dep by simp
    next
      case new
      have "dfs g ((n, i) # stack) V S = dfs g ((?deps ! i, 0) # (n, Suc i) # stack) ?V ?S"
        using True new by (subst dfs.simps) (simp only: Let_def if_True if_False simp_thms)
      with "2.IH"(1)[OF refl refl refl True refl new push_step[OF m True new(2)]] show ?thesis
        by (auto split: sum.splits if_splits)
    next
      case left
      then have "?deps ! i \<in> ?V - ?S" by blast
      have "dfs g ((n, i) # stack) V S = dfs g ((n, Suc i) # stack) ?V ?S"
        using True left by (subst dfs.simps) (simp only: Let_def if_True if_False simp_thms)
      with "2.IH"(2)[OF refl refl refl True refl left skip_step[OF m True \<open>?deps ! i \<in> ?V - ?S\<close>]] show ?thesis
        by (auto split: sum.splits if_splits)
    qed
  qed
qed

declare dfs.simps(2) [simp del]

lemma dfs_all_spec:
  assumes "black_ok g V"
  shows "case dfs_all g starts V {} of
      Inl e \<Rightarrow> \<exists>n d. e = Cycle_Edge n d \<and> (d, n) \<in> depends g \<and> (n, d) \<in> (depends g)\<^sup>*
    | Inr _ \<Rightarrow> \<exists>V'. black_ok g V' \<and> V \<subseteq> V' \<and> set starts \<subseteq> V'"
  using assms
proof (induction starts arbitrary: V)
  case (Cons s starts)
  show ?case
  proof (cases "s \<in> V")
    case True
    with Cons.IH[OF Cons.prems] show ?thesis by (cases "dfs_all g starts V {}") auto
  next
    case False
    with Cons.prems have "dfs_inv g [(s, 0)] V {}" by (simp add: dfs_inv_def)
    note spec = dfs_spec[OF this]
    show ?thesis
    proof (cases "dfs g [(s, 0)] V {}")
      case (Inr p)
      obtain V' S' where p: "p = (V', S')" by fastforce
      with spec Inr have V': "S' = {}" "black_ok g V'" "V \<subseteq> V'" "s \<in> V'" by auto
      have "dfs_all g (s # starts) V {} = dfs_all g starts V' {}" using False Inr p V'(1) by simp
      with Cons.IH[OF V'(2)] V'(3,4) show ?thesis by (cases "dfs_all g starts V' {}") auto
    qed (use spec False in simp)
  qed
qed auto

lemma check_cycles_spec:
  "case check_cycles g of
     Inl e \<Rightarrow> \<not> acyclic (depends g) \<and> (\<exists>n d. e = Cycle_Edge n d \<and> (d, n) \<in> depends g \<and> (n, d) \<in> (depends g)\<^sup>*)
   | Inr _ \<Rightarrow> acyclic (depends g)"
proof -
  have b: "black_ok g {}" by (simp add: black_ok_def)
  note spec = dfs_all_spec[OF b, of "subtask_ids g", folded check_cycles_def]
  show ?thesis
  proof (cases "check_cycles g")
    case (Inl e)
    with spec obtain n d where "e = Cycle_Edge n d" "(d, n) \<in> depends g" "(n, d) \<in> (depends g)\<^sup>*" by auto
    moreover from this(2,3) have "(d, d) \<in> (depends g)\<^sup>+" by (rule rtrancl_into_trancl2)
    ultimately show ?thesis using Inl by (auto simp: acyclic_def)
  next
    case (Inr u)
    with spec obtain V where V: "black_ok g V" "set (subtask_ids g) \<subseteq> V" by auto
    have "(x, x) \<notin> (depends g)\<^sup>+" for x
    proof
      assume x: "(x, x) \<in> (depends g)\<^sup>+"
      then obtain d where "(d, x) \<in> depends g" by (meson tranclD2)
      then have "x \<in> V" using depends_source[of d x g] V(2) by auto
      with x V(1) show False by (auto simp: black_ok_def)
    qed
    with Inr show ?thesis by (simp add: acyclic_def)
  qed
qed

lemma validate_graph_spec:
  "case validate_graph g of
     Inl (Unknown_Dependency s d) \<Rightarrow>
       d \<notin> set (subtask_ids g) \<and> (\<exists>t \<in> set g. sd_id t = s \<and> d \<in> set (sd_dependencies t))
   | Inl (Cycle_Edge n d) \<Rightarrow> refs_ok g \<and> (d, n) \<in> depends g \<and> (n, d) \<in> (depends g)\<^sup>*
   | Inl _ \<Rightarrow> False
   | Inr _ \<Rightarrow> refs_ok g \<and> acyclic (depends g)"
proof (cases "check_missing_references g")
  case (Inl e)
  with check_missing_references_Inl[OF Inl] show ?thesis by (auto simp: validate_graph_def)
next
  case (Inr u)
  then have "refs_ok g" using check_missing_references_iff[of g] by simp
  with Inr check_cycles_spec[of g] show ?thesis
    by (auto simp: validate_graph_def split: sum.splits)
qed

text \<open>
  C35. Validation is exact. The depth-first check always ends; a graph passes exactly
  when every dependency names a known subtask and no subtask waits for itself
  through any chain; a reported cycle edge really closes a cycle, and a reported
  reference really is unknown.
\<close>

theorem validate_graph_exact:
  "case validate_graph g of
     Inl (Unknown_Dependency s d) \<Rightarrow>
       d \<notin> set (subtask_ids g) \<and> (\<exists>t \<in> set g. sd_id t = s \<and> d \<in> set (sd_dependencies t))
   | Inl (Cycle_Edge n d) \<Rightarrow> refs_ok g \<and> (d, n) \<in> depends g \<and> (n, d) \<in> (depends g)\<^sup>*
   | Inl _ \<Rightarrow> False
   | Inr _ \<Rightarrow> refs_ok g \<and> acyclic (depends g)"
  by (rule validate_graph_spec)

end
