(* ===== verification/Decomposition_Tree.thy ===== *)
theory Decomposition_Tree
  imports Task_Model Dependency_Graph
begin

text \<open>
  What a decomposition is (\<open>engine/decomposition/models.py\<close>, with the unit rules of
  \<open>core/plan_validation.py\<close>): subtask definitions, the plan of one level, the tree of
  levels, its derived views, and the flat graph a dispatcher runs.
\<close>

section \<open>Units\<close>

datatype plan_item_kind = WORK | DECISION

record plan_option =
  po_id :: ident
  po_title :: string
  po_summary :: string
  po_recommended :: bool

record subtask_definition =
  su_id :: ident
  su_title :: string
  su_description :: string
  su_dependencies :: "ident list"
  su_estimated_complexity :: complexity
  su_stakes :: stakes
  su_required_skills :: "string list"
  su_required_tags :: "string list"
  su_required_role :: "string option"
  su_expected_artifacts :: "string list"
  su_acceptance_criteria :: "string list"
  su_satisfies :: "string list"
  su_kind :: plan_item_kind
  su_options :: "plan_option list"
  su_unsplit_reason :: "string option"

datatype unit_error =
    Blank_Unit_Field
  | Unit_Self_Dependency ident
  | Work_With_Options ident
  | Too_Few_Options ident
  | Duplicate_Options ident
  | Recommendation_Count ident
  | Unknown_Choice ident
  | No_Artifact ident
  | Decision_With_Artifacts ident
  | No_Subtasks
  | Duplicate_Subtasks "ident list"
  | Unknown_Dependencies ident "ident list"
  | Unresolved_Structure
  | Task_Count nat nat
  | Task_Ids "ident list" "ident list"
  | Unknown_Edge_Ids "ident list"
  | Unknown_Parent ident "ident list"
  | Duplicate_Parent ident
  | Child_Depth ident int int

definition MIN_DECISION_OPTIONS :: nat where
  "MIN_DECISION_OPTIONS = 2"

definition validate_decision_options ::
  "ident \<Rightarrow> plan_item_kind \<Rightarrow> plan_option list \<Rightarrow> ident option \<Rightarrow> (unit_error, unit) outcome" where
  "validate_decision_options entity kind options chosen =
     (if kind = WORK then
        (if options \<noteq> [] \<or> chosen \<noteq> None then Inl (Work_With_Options entity) else Inr ())
      else if length options < MIN_DECISION_OPTIONS then Inl (Too_Few_Options entity)
      else if \<not> distinct (map po_id options) then Inl (Duplicate_Options entity)
      else if length (filter po_recommended options) \<noteq> 1 then Inl (Recommendation_Count entity)
      else (case chosen of
              None \<Rightarrow> Inr ()
            | Some c \<Rightarrow> if c \<notin> set (map po_id options) then Inl (Unknown_Choice entity) else Inr ()))"

definition validate_expected_artifacts ::
  "ident \<Rightarrow> plan_item_kind \<Rightarrow> string list \<Rightarrow> (unit_error, unit) outcome" where
  "validate_expected_artifacts entity kind artifacts =
     (if kind = WORK then (if artifacts = [] then Inl (No_Artifact entity) else Inr ())
      else if artifacts \<noteq> [] then Inl (Decision_With_Artifacts entity) else Inr ())"

definition subtask_fields_ok :: "subtask_definition \<Rightarrow> bool" where
  "subtask_fields_ok s \<longleftrightarrow>
     list_all not_blank ([su_id s, su_title s, su_description s] @ su_dependencies s @
       su_required_skills s @ su_required_tags s @ su_expected_artifacts s @
       su_acceptance_criteria s @ su_satisfies s) \<and>
     opt_all not_blank (su_required_role s) \<and> opt_all not_blank (su_unsplit_reason s) \<and>
     list_all (\<lambda>p. not_blank (po_id p) \<and> not_blank (po_title p) \<and> not_blank (po_summary p)) (su_options s)"

definition validate_subtask :: "subtask_definition \<Rightarrow> (unit_error, unit) outcome" where
  "validate_subtask s =
     (if \<not> subtask_fields_ok s then Inl Blank_Unit_Field
      else if su_id s \<in> set (su_dependencies s) then Inl (Unit_Self_Dependency (su_id s))
      else validate_decision_options (su_id s) (su_kind s) (su_options s) None)"

section \<open>The plan of one level\<close>

record decomposition_plan =
  dp_parent_task_id :: ident
  dp_subtasks :: "subtask_definition list"
  dp_task_structure :: task_structure
  dp_coordination_topology :: coordination_topology
  dp_open_questions :: "string list"
  dp_assumptions :: "string list"
  dp_planning_strategy :: "string option"

fun check_units :: "ident list \<Rightarrow> subtask_definition list \<Rightarrow> (unit_error, unit) outcome" where
  "check_units ids [] = Inr ()"
| "check_units ids (s # ss) =
     (let missing = filter (\<lambda>d. d \<notin> set ids) (su_dependencies s)
      in if missing \<noteq> [] then Inl (Unknown_Dependencies (su_id s) missing)
         else case validate_expected_artifacts (su_id s) (su_kind s) (su_expected_artifacts s) of
                Inl e \<Rightarrow> Inl e
              | Inr _ \<Rightarrow> check_units ids ss)"

definition validate_subtasks :: "decomposition_plan \<Rightarrow> (unit_error, unit) outcome" where
  "validate_subtasks p =
     (let ids = map su_id (dp_subtasks p)
      in if dp_subtasks p = [] then Inl No_Subtasks
         else if length ids \<noteq> length (remdups ids)
         then Inl (Duplicate_Subtasks (sort (filter (\<lambda>i. 1 < count_list ids i) (remdups ids))))
         else check_units ids (dp_subtasks p))"

definition plan_fields_ok :: "decomposition_plan \<Rightarrow> bool" where
  "plan_fields_ok p \<longleftrightarrow>
     not_blank (dp_parent_task_id p) \<and> list_all not_blank (dp_open_questions p) \<and>
     list_all not_blank (dp_assumptions p) \<and> opt_all not_blank (dp_planning_strategy p)"

definition plan_valid :: "decomposition_plan \<Rightarrow> bool" where
  "plan_valid p \<longleftrightarrow>
     plan_fields_ok p \<and> list_all (\<lambda>s. validate_subtask s = Inr ()) (dp_subtasks p) \<and>
     validate_subtasks p = Inr ()"

section \<open>The tree\<close>

datatype decomposition_result =
  Decomposition_Result
    (dr_plan: decomposition_plan)
    (dr_created_tasks: "task list")
    (dr_dependency_edges: "(ident \<times> ident) list")
    (dr_depth: int)
    (dr_children: "decomposition_result list")

abbreviation dr_subtasks :: "decomposition_result \<Rightarrow> subtask_definition list" where
  "dr_subtasks r \<equiv> dp_subtasks (dr_plan r)"

abbreviation dr_parent :: "decomposition_result \<Rightarrow> ident" where
  "dr_parent r \<equiv> dp_parent_task_id (dr_plan r)"

definition split_task_ids :: "decomposition_result \<Rightarrow> ident set" where
  "split_task_ids r = set (map dr_parent (dr_children r))"

fun leaf_tasks :: "decomposition_result \<Rightarrow> task list" where
  "leaf_tasks (Decomposition_Result p ts es d cs) =
     filter (\<lambda>t. t_id t \<notin> split_task_ids (Decomposition_Result p ts es d cs)) ts @ concat (map leaf_tasks cs)"

fun all_tasks :: "decomposition_result \<Rightarrow> task list" where
  "all_tasks (Decomposition_Result p ts es d cs) = ts @ concat (map all_tasks cs)"

fun all_subtasks :: "decomposition_result \<Rightarrow> subtask_definition list" where
  "all_subtasks (Decomposition_Result p ts es d cs) = dp_subtasks p @ concat (map all_subtasks cs)"

fun max_depth_reached :: "decomposition_result \<Rightarrow> int" where
  "max_depth_reached (Decomposition_Result p ts es d cs) =
     (if cs = [] then d else Max (set (map max_depth_reached cs)))"

fun validate_children ::
  "ident list \<Rightarrow> int \<Rightarrow> ident list \<Rightarrow> decomposition_result list \<Rightarrow> (unit_error, unit) outcome" where
  "validate_children task_ids depth seen [] = Inr ()"
| "validate_children task_ids depth seen (child # children) =
     (let parent = dr_parent child
      in if parent \<notin> set task_ids then Inl (Unknown_Parent parent (sort (remdups task_ids)))
         else if parent \<in> set seen then Inl (Duplicate_Parent parent)
         else if dr_depth child \<noteq> depth + 1 then Inl (Child_Depth parent (dr_depth child) (depth + 1))
         else validate_children task_ids depth (parent # seen) children)"

definition validate_plan_task_consistency :: "decomposition_result \<Rightarrow> (unit_error, unit) outcome" where
  "validate_plan_task_consistency r =
     (let task_ids = map t_id (dr_created_tasks r);
          plan_ids = map su_id (dr_subtasks r);
          edge_ids = concat (map (\<lambda>(a, b). [a, b]) (dr_dependency_edges r));
          unknown = filter (\<lambda>i. i \<notin> set task_ids) edge_ids
      in if dp_task_structure (dr_plan r) = STRUCTURE_AUTO then Inl Unresolved_Structure
         else if length (dr_created_tasks r) \<noteq> length (dr_subtasks r)
         then Inl (Task_Count (length (dr_created_tasks r)) (length (dr_subtasks r)))
         else if set task_ids \<noteq> set plan_ids
         then Inl (Task_Ids (sort (remdups (filter (\<lambda>i. i \<notin> set task_ids) plan_ids)))
                            (sort (remdups (filter (\<lambda>i. i \<notin> set plan_ids) task_ids))))
         else if unknown \<noteq> [] then Inl (Unknown_Edge_Ids (sort (remdups unknown)))
         else validate_children task_ids (dr_depth r) [] (dr_children r))"

text \<open>A result that exists was validated level by level when it was built.\<close>

fun result_valid :: "decomposition_result \<Rightarrow> bool" where
  "result_valid (Decomposition_Result p ts es d cs) \<longleftrightarrow>
     plan_valid p \<and> 0 \<le> d \<and>
     validate_plan_task_consistency (Decomposition_Result p ts es d cs) = Inr () \<and>
     (\<forall>c \<in> set cs. result_valid c)"

section \<open>The dispatch view\<close>

definition contained_by :: "decomposition_result list \<Rightarrow> ident \<rightharpoonup> ident list" where
  "contained_by cs = map_of (rev (map (\<lambda>c. (dr_parent c, map su_id (dr_subtasks c))) cs))"

definition waits_on :: "subtask_definition list \<Rightarrow> ident list \<Rightarrow> ident \<rightharpoonup> ident list" where
  "waits_on ss inherited =
     map_of (rev (map (\<lambda>s. (su_id s, if su_dependencies s \<noteq> [] then su_dependencies s else inherited)) ss))"

definition get_or_empty :: "('k \<rightharpoonup> 'v list) \<Rightarrow> 'k \<Rightarrow> 'v list" where
  "get_or_empty m k = (case m k of None \<Rightarrow> [] | Some v \<Rightarrow> v)"

definition dispatch_unit ::
  "(ident \<rightharpoonup> ident list) \<Rightarrow> (ident \<rightharpoonup> ident list) \<Rightarrow> subtask_definition \<Rightarrow> subtask_definition" where
  "dispatch_unit waits inside s =
     (let edges = get_or_empty waits (su_id s) @ get_or_empty inside (su_id s)
      in if edges \<noteq> su_dependencies s then s\<lparr>su_dependencies := edges\<rparr> else s)"

fun dispatch_after :: "decomposition_result \<Rightarrow> ident list \<Rightarrow> subtask_definition list" where
  "dispatch_after (Decomposition_Result p ts es d cs) inherited =
     map (dispatch_unit (waits_on (dp_subtasks p) inherited) (contained_by cs)) (dp_subtasks p) @
     concat (map (\<lambda>c. dispatch_after c
       (get_or_empty (waits_on (dp_subtasks p) inherited) (dr_parent c))) cs)"

definition dispatch_subtasks :: "decomposition_result \<Rightarrow> subtask_definition list" where
  "dispatch_subtasks r = dispatch_after r []"

text \<open>What the dependency graph reads of a unit.\<close>

definition graph_of :: "subtask_definition list \<Rightarrow> ident graph" where
  "graph_of ss = map (\<lambda>s. \<lparr>sd_id = su_id s, sd_dependencies = su_dependencies s\<rparr>) ss"

section \<open>Orders that respect a relation\<close>

fun ordered :: "('a \<times> 'a) set \<Rightarrow> 'a set \<Rightarrow> 'a list \<Rightarrow> bool" where
  "ordered E A [] \<longleftrightarrow> True"
| "ordered E A (x # xs) \<longleftrightarrow> (\<forall>d. (d, x) \<in> E \<longrightarrow> d \<in> A) \<and> ordered E (insert x A) xs"

lemma ordered_mono: "ordered E A xs \<Longrightarrow> A \<subseteq> B \<Longrightarrow> ordered E B xs"
proof (induction xs arbitrary: A B)
  case (Cons x xs)
  then show ?case using Cons.IH[of "insert x A" "insert x B"] by auto
qed simp

lemma ordered_append: "ordered E A (xs @ ys) \<longleftrightarrow> ordered E A xs \<and> ordered E (A \<union> set xs) ys"
  by (induction xs arbitrary: A) simp_all

lemma ordered_local:
  "ordered E A xs \<Longrightarrow> (\<And>d x. (d, x) \<in> E' \<Longrightarrow> x \<in> set xs \<Longrightarrow> (d, x) \<in> E) \<Longrightarrow> ordered E' A xs"
  by (induction xs arbitrary: A) auto

lemma ordered_concat:
  assumes "\<And>k. k < length bs \<Longrightarrow> ordered E (A \<union> set (concat (take k bs))) (bs ! k)"
  shows "ordered E A (concat bs)"
  using assms
proof (induction bs arbitrary: A)
  case (Cons b bs)
  have "ordered E (A \<union> set b) (concat bs)"
    using Cons.prems[of "Suc k" for k] by (intro Cons.IH) (simp add: Un_assoc)
  with Cons.prems[of 0] show ?case by (simp add: ordered_append)
qed simp

lemma ordered_index:
  "ordered E A xs \<Longrightarrow> (d, x) \<in> E \<Longrightarrow> x \<in> set xs \<Longrightarrow> d \<in> A \<or> index_of d xs < index_of x xs"
proof (induction xs arbitrary: A)
  case (Cons y ys)
  then show ?case by (cases "x = y") (auto dest: Cons.IH)
qed simp

lemma ordered_acyclic:
  assumes "ordered E {} xs" and "Range E \<subseteq> set xs"
  shows "acyclic E"
proof -
  have "E \<subseteq> measure (\<lambda>x. index_of x xs)" using ordered_index[OF assms(1)] assms(2) by fastforce
  then show ?thesis by (rule acyclic_subset[OF wf_acyclic[OF wf_measure]])
qed

text \<open>A level that passed the dependency check has an order of its units.\<close>

lemma level_order:
  fixes g :: "'a::linorder graph"
  assumes "unique_ids g" and "validate_graph g = Inr ()"
  shows "\<exists>L. set L = set (subtask_ids g) \<and> (\<forall>k < length L. \<forall>d. (d, L ! k) \<in> depends g \<longrightarrow> d \<in> set (take k L))"
proof -
  from validate_graph_spec[of g] assms(2) have "refs_ok g" "acyclic (depends g)" by auto
  then obtain L where L: "topological_sort g = Inr L" "mset L = mset (subtask_ids g)"
      "\<And>d x. (d, x) \<in> depends g \<Longrightarrow> index_of d L < index_of x L"
    using topological_sort_spec[OF assms(1)] by (cases "topological_sort g") fastforce+
  have d: "distinct L" using L(2) assms(1) mset_eq_imp_distinct_iff by (auto simp: unique_ids_def)
  have "set L = set (subtask_ids g)" using L(2) by (metis set_mset_mset)
  moreover have "d \<in> set (take k L)" if "k < length L" "(d, L ! k) \<in> depends g" for k d
  proof -
    have i: "index_of d L < k" using L(3)[OF that(2)] index_of_nth[OF d that(1)] by simp
    then have "index_of d L < length L" using that(1) by linarith
    then have "take k L ! index_of d L = d" using i by simp
    moreover have "index_of d L < length (take k L)" using i that(1) by simp
    ultimately show ?thesis by (metis nth_mem)
  qed
  ultimately show ?thesis by blast
qed

section \<open>The flat graph of a tree\<close>

definition waits :: "subtask_definition list \<Rightarrow> (ident \<times> ident) set" where
  "waits ss = {(d, x). \<exists>s \<in> set ss. su_id s = x \<and> d \<in> set (su_dependencies s)}"

lemma waits_append: "waits (xs @ ys) = waits xs \<union> waits ys"
  by (auto simp: waits_def)

lemma waits_concat: "waits (concat xss) = (\<Union>xs \<in> set xss. waits xs)"
  by (auto simp: waits_def)

lemma waits_target: "(d, x) \<in> waits ss \<Longrightarrow> x \<in> su_id ` set ss"
  by (auto simp: waits_def)

lemma subtask_ids_graph_of: "subtask_ids (graph_of ss) = map su_id ss"
  by (simp add: subtask_ids_def graph_of_def comp_def)

lemma depends_graph_of:
  assumes "distinct (map su_id ss)"
  shows "depends (graph_of ss) = waits ss"
proof -
  have "unique_ids (graph_of ss)" using assms by (simp add: unique_ids_def subtask_ids_graph_of)
  from depends_iff[OF this] show ?thesis by (auto simp: waits_def graph_of_def)
qed

abbreviation ids_of :: "decomposition_result \<Rightarrow> ident set" where
  "ids_of r \<equiv> su_id ` set (all_subtasks r)"

lemma su_id_dispatch_unit [simp]: "su_id (dispatch_unit w c s) = su_id s"
  by (simp add: dispatch_unit_def Let_def)

lemma su_dependencies_dispatch_unit [simp]:
  "su_dependencies (dispatch_unit w c s) = get_or_empty w (su_id s) @ get_or_empty c (su_id s)"
  by (simp add: dispatch_unit_def Let_def)

lemma dispatch_ids: "map su_id (dispatch_after r i) = map su_id (all_subtasks r)"
  by (induction r arbitrary: i) (simp add: map_concat comp_def cong: map_cong)

lemma waits_dispatch_target: "(d, x) \<in> waits (dispatch_after r i) \<Longrightarrow> x \<in> ids_of r"
  using waits_target[of d x "dispatch_after r i"] by (metis dispatch_ids image_set)

text \<open>The edges into the units of one level, and where the others come from.\<close>

lemma waits_dispatch:
  "(x, y) \<in> waits (dispatch_after (Decomposition_Result p ts es d cs) i) \<longleftrightarrow>
     y \<in> su_id ` set (dp_subtasks p) \<and>
       (x \<in> set (get_or_empty (waits_on (dp_subtasks p) i) y) \<or> x \<in> set (get_or_empty (contained_by cs) y)) \<or>
     (\<exists>c \<in> set cs. (x, y) \<in> waits (dispatch_after c (get_or_empty (waits_on (dp_subtasks p) i) (dr_parent c))))"
  by (auto simp: waits_append waits_concat) (auto simp: waits_def)

declare dispatch_after.simps [simp del]

lemma get_waits_on:
  assumes "distinct (map su_id ss)" and "s \<in> set ss"
  shows "get_or_empty (waits_on ss i) (su_id s) = (if su_dependencies s \<noteq> [] then su_dependencies s else i)"
proof -
  let ?f = "\<lambda>s. if su_dependencies s \<noteq> [] then su_dependencies s else i"
  have "distinct (map fst (rev (map (\<lambda>s. (su_id s, ?f s)) ss)))"
    using assms(1) by (simp add: rev_map[symmetric] comp_def)
  then have "waits_on ss i (su_id s) = Some (?f s)"
    unfolding waits_on_def using assms(2) by (intro map_of_is_SomeI) auto
  then show ?thesis by (simp add: get_or_empty_def)
qed

lemma set_contained_by:
  "set (get_or_empty (contained_by cs) x) \<subseteq> (\<Union>c \<in> {c \<in> set cs. dr_parent c = x}. su_id ` set (dr_subtasks c))"
proof (cases "contained_by cs x")
  case (Some ids)
  then have "(x, ids) \<in> set (rev (map (\<lambda>c. (dr_parent c, map su_id (dr_subtasks c))) cs))"
    unfolding contained_by_def by (rule map_of_SomeD)
  with Some show ?thesis by (auto simp: get_or_empty_def)
qed (simp add: get_or_empty_def)

lemma get_contained_by:
  assumes "distinct (map dr_parent cs)" and "c \<in> set cs"
  shows "get_or_empty (contained_by cs) (dr_parent c) = map su_id (dr_subtasks c)"
proof -
  have "distinct (map fst (rev (map (\<lambda>c. (dr_parent c, map su_id (dr_subtasks c))) cs)))"
    using assms(1) by (simp add: rev_map[symmetric] comp_def)
  then have "contained_by cs (dr_parent c) = Some (map su_id (dr_subtasks c))"
    unfolding contained_by_def using assms(2) by (intro map_of_is_SomeI) auto
  then show ?thesis by (simp add: get_or_empty_def)
qed

text \<open>What the checks of one level establish.\<close>

lemma check_units_Inr: "check_units ids ss = Inr () \<Longrightarrow> s \<in> set ss \<Longrightarrow> set (su_dependencies s) \<subseteq> set ids"
  by (induction ss) (auto simp: Let_def filter_empty_conv split: if_splits sum.splits)

lemma validate_children_Inr:
  "validate_children ids depth seen cs = Inr () \<Longrightarrow>
     dr_parent ` set cs \<subseteq> set ids \<and> distinct (map dr_parent cs) \<and> dr_parent ` set cs \<inter> set seen = {}"
proof (induction cs arbitrary: seen)
  case (Cons c cs)
  then have "validate_children ids depth (dr_parent c # seen) cs = Inr ()" "dr_parent c \<in> set ids" "dr_parent c \<notin> set seen"
    by (auto simp: Let_def split: if_splits)
  with Cons.IH[OF this(1)] show ?case by auto
qed simp

lemma result_validD:
  assumes "result_valid (Decomposition_Result p ts es d cs)"
  shows "distinct (map su_id (dp_subtasks p))" and "mset (map t_id ts) = mset (map su_id (dp_subtasks p))"
    and "dr_parent ` set cs \<subseteq> su_id ` set (dp_subtasks p)" and "distinct (map dr_parent cs)"
    and "\<And>c. c \<in> set cs \<Longrightarrow> result_valid c"
    and "\<And>s. s \<in> set (dp_subtasks p) \<Longrightarrow> set (su_dependencies s) \<subseteq> su_id ` set (dp_subtasks p)"
proof -
  from assms have v: "validate_subtasks p = Inr ()"
    and c: "length ts = length (dp_subtasks p)" "t_id ` set ts = su_id ` set (dp_subtasks p)"
      "validate_children (map t_id ts) d [] cs = Inr ()"
    by (auto simp: plan_valid_def validate_plan_task_consistency_def Let_def split: if_splits)
  have "\<not> length (remdups (map su_id (dp_subtasks p))) < length (dp_subtasks p)"
    using v by (auto simp: validate_subtasks_def Let_def split: if_splits)
  then show ids: "distinct (map su_id (dp_subtasks p))"
    by (metis length_map length_remdups_leq le_neq_implies_less length_remdups_eq remdups_id_iff_distinct)
  have "distinct (map t_id ts)"
    using ids c(1,2) by (metis card_distinct distinct_card length_map set_map)
  then show "mset (map t_id ts) = mset (map su_id (dp_subtasks p))"
    using ids c(2) by (subst set_eq_iff_mset_eq_distinct[symmetric]) auto
  show "dr_parent ` set cs \<subseteq> su_id ` set (dp_subtasks p)" "distinct (map dr_parent cs)"
    using validate_children_Inr[OF c(3)] c(2) by auto
  show "\<And>c. c \<in> set cs \<Longrightarrow> result_valid c" using assms by simp
  show "\<And>s. s \<in> set (dp_subtasks p) \<Longrightarrow> set (su_dependencies s) \<subseteq> su_id ` set (dp_subtasks p)"
    using v check_units_Inr[of "map su_id (dp_subtasks p)" "dp_subtasks p"]
    by (auto simp: validate_subtasks_def Let_def split: if_splits)
qed

section \<open>A valid tree can always be dispatched\<close>

text \<open>
  What a finished decomposition satisfies: it was validated when it was built, the
  service checked the dependency graph of every level, and unit ids (fresh UUIDs)
  do not repeat across the levels.
\<close>

fun levels_checked :: "decomposition_result \<Rightarrow> bool" where
  "levels_checked (Decomposition_Result p ts es d cs) \<longleftrightarrow>
     validate_graph (graph_of (dp_subtasks p)) = Inr () \<and> (\<forall>c \<in> set cs. levels_checked c)"

definition tree_ok :: "decomposition_result \<Rightarrow> bool" where
  "tree_ok r \<longleftrightarrow> result_valid r \<and> levels_checked r \<and> distinct (map su_id (all_subtasks r))"

lemma distinct_concat_map_disjoint:
  "distinct (concat (map f cs)) \<Longrightarrow> c \<in> set cs \<Longrightarrow> c' \<in> set cs \<Longrightarrow> c \<noteq> c' \<Longrightarrow> set (f c) \<inter> set (f c') = {}"
  by (induction cs) auto

lemma tree_okD:
  assumes "tree_ok (Decomposition_Result p ts es d cs)"
  shows "\<And>c. c \<in> set cs \<Longrightarrow> tree_ok c"
    and "\<And>c. c \<in> set cs \<Longrightarrow> ids_of c \<inter> su_id ` set (dp_subtasks p) = {}"
    and "\<And>c c'. c \<in> set cs \<Longrightarrow> c' \<in> set cs \<Longrightarrow> c \<noteq> c' \<Longrightarrow> ids_of c \<inter> ids_of c' = {}"
    and "result_valid (Decomposition_Result p ts es d cs)"
    and "validate_graph (graph_of (dp_subtasks p)) = Inr ()"
proof -
  let ?ids = "\<lambda>r. map su_id (all_subtasks r)"
  from assms have d: "distinct (map su_id (dp_subtasks p) @ concat (map ?ids cs))"
    by (simp add: tree_ok_def map_concat comp_def)
  show "ids_of c \<inter> su_id ` set (dp_subtasks p) = {}" if "c \<in> set cs" for c
  proof -
    have "set (map su_id (dp_subtasks p)) \<inter> set (concat (map ?ids cs)) = {}" using d unfolding distinct_append by blast
    moreover have "ids_of c \<subseteq> set (concat (map ?ids cs))" using that by auto
    ultimately show ?thesis unfolding set_map by blast
  qed
  show "ids_of c \<inter> ids_of c' = {}" if "c \<in> set cs" "c' \<in> set cs" "c \<noteq> c'" for c c'
    using distinct_concat_map_disjoint[of ?ids cs c c'] d that by simp
  show "tree_ok c" if "c \<in> set cs" for c
  proof -
    from split_list[OF that] obtain a b where "cs = a @ c # b" by blast
    with d have "distinct (?ids c)" by auto
    with assms that show ?thesis by (auto simp: tree_ok_def)
  qed
qed (use assms in \<open>auto simp: tree_ok_def\<close>)

lemma level_graph:
  assumes "tree_ok (Decomposition_Result p ts es d cs)"
  obtains L where "set L = su_id ` set (dp_subtasks p)"
    and "\<And>k s. k < length L \<Longrightarrow> s \<in> set (dp_subtasks p) \<Longrightarrow> su_id s = L ! k \<Longrightarrow>
      set (su_dependencies s) \<subseteq> set (take k L)"
proof -
  have u: "distinct (map su_id (dp_subtasks p))" using result_validD(1)[OF tree_okD(4)[OF assms]] .
  then have "unique_ids (graph_of (dp_subtasks p))" by (simp add: unique_ids_def subtask_ids_graph_of)
  from level_order[OF this tree_okD(5)[OF assms]]
  obtain L where L: "set L = set (subtask_ids (graph_of (dp_subtasks p)))"
      "\<And>k d. k < length L \<Longrightarrow> (d, L ! k) \<in> depends (graph_of (dp_subtasks p)) \<Longrightarrow> d \<in> set (take k L)"
    by auto
  have "set (su_dependencies s) \<subseteq> set (take k L)"
    if "k < length L" "s \<in> set (dp_subtasks p)" "su_id s = L ! k" for k s
    using L(2)[OF that(1)] that(2,3) by (auto simp: depends_graph_of[OF u] waits_def)
  moreover have "set L = su_id ` set (dp_subtasks p)" using L(1) by (simp add: subtask_ids_graph_of)
  ultimately show ?thesis using that by blast
qed

lemma own_ids: "su_id ` set (dr_subtasks r) \<subseteq> ids_of r"
  by (cases r) auto

lemma dispatch_order:
  assumes "tree_ok r"
  shows "\<exists>L. set L = ids_of r \<and> ordered (waits (dispatch_after r i)) (set i) L"
  using assms
proof (induction r arbitrary: i)
  case (Decomposition_Result p ts es d cs)
  let ?r = "Decomposition_Result p ts es d cs" and ?ss = "dp_subtasks p"
  let ?w = "\<lambda>x. get_or_empty (waits_on ?ss i) x" and ?E = "waits (dispatch_after ?r i)"
  note ok = tree_okD[OF Decomposition_Result.prems] and v = result_validD[OF tree_okD(4)[OF Decomposition_Result.prems]]
  have "\<forall>c \<in> set cs. \<exists>L. set L = ids_of c \<and> ordered (waits (dispatch_after c (?w (dr_parent c)))) (set (?w (dr_parent c))) L"
    using Decomposition_Result.IH ok(1) by blast
  then obtain Lf where Lf: "\<And>c. c \<in> set cs \<Longrightarrow> set (Lf c) = ids_of c"
      "\<And>c. c \<in> set cs \<Longrightarrow> ordered (waits (dispatch_after c (?w (dr_parent c)))) (set (?w (dr_parent c))) (Lf c)"
    by metis
  obtain T where T: "set T = su_id ` set ?ss"
      "\<And>k s. k < length T \<Longrightarrow> s \<in> set ?ss \<Longrightarrow> su_id s = T ! k \<Longrightarrow> set (su_dependencies s) \<subseteq> set (take k T)"
    using level_graph[OF Decomposition_Result.prems] by blast
  define inner where "inner x = concat (map Lf (filter (\<lambda>c. dr_parent c = x) cs))" for x
  define L where "L = concat (map (\<lambda>x. inner x @ [x]) T)"
  have child: "ordered ?E (set (?w (dr_parent c))) (Lf c)" if c: "c \<in> set cs" for c
  proof (rule ordered_local[OF Lf(2)[OF c]])
    fix d x assume dx: "(d, x) \<in> ?E" "x \<in> set (Lf c)"
    then have x: "x \<in> ids_of c" using Lf(1)[OF c] by simp
    with ok(2)[OF c] dx(1) obtain c' where c': "c' \<in> set cs" "(d, x) \<in> waits (dispatch_after c' (?w (dr_parent c')))"
      unfolding waits_dispatch by fastforce
    from waits_dispatch_target[OF c'(2)] have "x \<in> ids_of c'" .
    with x ok(3)[OF c c'(1)] have "c' = c" by blast
    with c' show "(d, x) \<in> waits (dispatch_after c (?w (dr_parent c)))" by simp
  qed
  have block: "ordered ?E (set i \<union> set (concat (take k (map (\<lambda>x. inner x @ [x]) T)))) (map (\<lambda>x. inner x @ [x]) T ! k)"
    if k: "k < length T" for k
  proof -
    let ?P = "set i \<union> set (concat (take k (map (\<lambda>x. inner x @ [x]) T)))"
    have before: "set (take k T) \<subseteq> ?P" by (auto simp: take_map)
    have "T ! k \<in> su_id ` set ?ss" using T(1) nth_mem[OF k] by simp
    then obtain s where s: "s \<in> set ?ss" "su_id s = T ! k" by auto
    have w: "set (?w (T ! k)) \<subseteq> ?P"
      using get_waits_on[OF v(1) s(1), of i] s(2) T(2)[OF k s] before by auto
    have in_order: "ordered ?E ?P (Lf c)" if "c \<in> set cs" "dr_parent c = T ! k" for c
      using ordered_mono[OF child[OF that(1)]] w that(2) by simp
    have "ordered ?E ?P (inner (T ! k))"
      unfolding inner_def[of "T ! k"]
    proof (rule ordered_concat)
      fix j assume "j < length (map Lf (filter (\<lambda>c. dr_parent c = T ! k) cs))"
      then have j: "j < length (filter (\<lambda>c. dr_parent c = T ! k) cs)" by simp
      from nth_mem[OF j] have "ordered ?E ?P (Lf (filter (\<lambda>c. dr_parent c = T ! k) cs ! j))"
        by (intro in_order) auto
      then show "ordered ?E (?P \<union> set (concat (take j (map Lf (filter (\<lambda>c. dr_parent c = T ! k) cs)))))
          (map Lf (filter (\<lambda>c. dr_parent c = T ! k) cs) ! j)"
        unfolding nth_map[OF j] by (rule ordered_mono) blast
    qed
    moreover have "\<forall>d. (d, T ! k) \<in> ?E \<longrightarrow> d \<in> ?P \<union> set (inner (T ! k))"
    proof (intro allI impI)
      fix d assume "(d, T ! k) \<in> ?E"
      then consider "d \<in> set (?w (T ! k))" | "d \<in> set (get_or_empty (contained_by cs) (T ! k))"
        | c where "c \<in> set cs" "(d, T ! k) \<in> waits (dispatch_after c (?w (dr_parent c)))"
        unfolding waits_dispatch by blast
      then show "d \<in> ?P \<union> set (inner (T ! k))"
      proof cases
        case 2
        then obtain c where "c \<in> set cs" "dr_parent c = T ! k" "d \<in> su_id ` set (dr_subtasks c)"
          using set_contained_by by fastforce
        then have "d \<in> set (Lf c)" using Lf(1) own_ids[of c] by auto
        with \<open>c \<in> set cs\<close> \<open>dr_parent c = T ! k\<close> have "d \<in> set (inner (T ! k))" by (auto simp: inner_def[of "T ! k"])
        then show ?thesis by blast
      next
        case 3
        from waits_dispatch_target[OF 3(2)] ok(2)[OF 3(1)] s have False by (metis IntI empty_iff imageI)
        then show ?thesis ..
      qed (use w in auto)
    qed
    ultimately show ?thesis using k by (simp add: ordered_append)
  qed
  have "ordered ?E (set i) L"
    unfolding L_def using block by (intro ordered_concat) simp
  moreover have "ids_of c \<subseteq> set L" if c: "c \<in> set cs" for c
  proof -
    have "dr_parent c \<in> set T" using T(1) v(3) c by auto
    then have "set (inner (dr_parent c)) \<subseteq> set L" by (auto simp: L_def)
    moreover have "ids_of c \<subseteq> set (inner (dr_parent c))"
      unfolding Lf(1)[OF c, symmetric] using c by (auto simp: inner_def)
    ultimately show ?thesis by blast
  qed
  then have "set L = ids_of ?r"
    using T(1) Lf(1) by (auto simp: L_def inner_def)
  ultimately show ?case by blast
qed

lemma distinct_dispatch: "tree_ok r \<Longrightarrow> distinct (map su_id (dispatch_after r i))"
  by (simp add: dispatch_ids tree_ok_def)

lemma range_dispatch:
  assumes "tree_ok r"
  shows "Domain (waits (dispatch_after r i)) \<subseteq> set i \<union> ids_of r"
proof -
  obtain L where L: "set L = ids_of r" "ordered (waits (dispatch_after r i)) (set i) L"
    using dispatch_order[OF assms] by blast
  have "d \<in> set i \<union> ids_of r" if "(d, x) \<in> waits (dispatch_after r i)" for d x
  proof -
    have x: "x \<in> set L" using waits_dispatch_target[OF that] L(1) by simp
    with ordered_index[OF L(2) that x] show ?thesis
      using L(1) by (metis Un_iff index_of_less_iff less_trans)
  qed
  then show ?thesis by blast
qed

lemma validate_graph_iff: "validate_graph g = Inr () \<longleftrightarrow> refs_ok g \<and> acyclic (depends g)"
proof
  assume ok: "refs_ok g \<and> acyclic (depends g)"
  then have "check_missing_references g = Inr ()" by (simp add: check_missing_references_iff)
  with ok check_cycles_spec[of g] show "validate_graph g = Inr ()"
    by (auto simp: validate_graph_def split: sum.splits)
qed (use validate_graph_spec[of g] in auto)

lemma dispatch_graph_ok:
  assumes "tree_ok r"
  shows "unique_ids (graph_of (dispatch_subtasks r))" and "refs_ok (graph_of (dispatch_subtasks r))"
    and "acyclic (depends (graph_of (dispatch_subtasks r)))"
    and "subtask_ids (graph_of (dispatch_subtasks r)) = map su_id (all_subtasks r)"
proof -
  let ?ds = "dispatch_subtasks r"
  show ids: "subtask_ids (graph_of ?ds) = map su_id (all_subtasks r)"
    by (simp add: subtask_ids_graph_of dispatch_subtasks_def dispatch_ids)
  show "unique_ids (graph_of ?ds)" using assms by (simp add: unique_ids_def ids tree_ok_def)
  have dep: "depends (graph_of ?ds) = waits ?ds"
    using distinct_dispatch[OF assms] by (simp add: depends_graph_of dispatch_subtasks_def)
  obtain L where L: "set L = ids_of r" "ordered (waits ?ds) {} L"
    using dispatch_order[OF assms, of "[]"] by (auto simp: dispatch_subtasks_def)
  have "Range (waits ?ds) \<subseteq> ids_of r"
    using waits_dispatch_target unfolding dispatch_subtasks_def by blast
  then show "acyclic (depends (graph_of ?ds))" using ordered_acyclic[OF L(2)] L(1) dep by simp
  show "refs_ok (graph_of ?ds)"
    using range_dispatch[OF assms, of "[]"] ids
    by (fastforce simp: refs_ok_def graph_of_def waits_def dispatch_subtasks_def)
qed

text \<open>
  C20. A valid decomposition tree can always be dispatched, however deeply it was
  split: the flat view the wave builder runs has no unknown reference and no cycle,
  so its validation and its grouping succeed and place every unit of every level
  exactly once.
\<close>

theorem tree_dispatches:
  assumes "tree_ok r"
  shows "validate_graph (graph_of (dispatch_subtasks r)) = Inr () \<and>
    (case parallel_groups (graph_of (dispatch_subtasks r)) of
       Inl e \<Rightarrow> False
     | Inr gs \<Rightarrow> mset (concat gs) = mset (map su_id (all_subtasks r)))"
proof -
  note ok = dispatch_graph_ok[OF assms]
  have "validate_graph (graph_of (dispatch_subtasks r)) = Inr ()"
    using ok(2,3) by (simp add: validate_graph_iff)
  moreover have "case parallel_groups (graph_of (dispatch_subtasks r)) of
       Inl e \<Rightarrow> False | Inr gs \<Rightarrow> mset (concat gs) = mset (map su_id (all_subtasks r))"
    using parallel_groups_spec[OF ok(1)] ok(2,3,4) by (auto split: sum.splits)
  ultimately show ?thesis by blast
qed

section \<open>Splitting keeps the order of the work\<close>

fun sub_results :: "decomposition_result \<Rightarrow> decomposition_result list" where
  "sub_results (Decomposition_Result p ts es d cs) =
     Decomposition_Result p ts es d cs # concat (map sub_results cs)"

lemma waits_child:
  "c \<in> set cs \<Longrightarrow> waits (dispatch_after c (get_or_empty (waits_on (dp_subtasks p) i) (dr_parent c)))
     \<subseteq> waits (dispatch_after (Decomposition_Result p ts es d cs) i)"
  by (auto simp: waits_dispatch)

lemma waits_sub_result:
  assumes "tree_ok r" and "q \<in> set (sub_results r)"
  shows "tree_ok q \<and> (\<exists>j. waits (dispatch_after q j) \<subseteq> waits (dispatch_after r i))"
  using assms
proof (induction r arbitrary: i)
  case (Decomposition_Result p ts es d cs)
  show ?case
  proof (cases "q = Decomposition_Result p ts es d cs")
    case False
    with Decomposition_Result.prems(2) obtain c where c: "c \<in> set cs" "q \<in> set (sub_results c)" by auto
    from Decomposition_Result.IH[OF c(1) tree_okD(1)[OF Decomposition_Result.prems(1) c(1)] c(2)]
    show ?thesis using waits_child[OF c(1)] by (meson order_trans)
  qed (use Decomposition_Result.prems in auto)
qed

text \<open>Whatever a subtree inherits, every unit in it waits for.\<close>

lemma inherited_first:
  assumes "tree_ok r" and "y \<in> set i" and "x \<in> ids_of r"
  shows "(y, x) \<in> (waits (dispatch_after r i))\<^sup>+"
  using assms
proof (induction r arbitrary: i x y)
  case (Decomposition_Result p ts es d cs)
  let ?r = "Decomposition_Result p ts es d cs" and ?ss = "dp_subtasks p"
  let ?w = "\<lambda>x. get_or_empty (waits_on ?ss i) x" and ?E = "waits (dispatch_after ?r i)"
  note v = result_validD[OF tree_okD(4)[OF Decomposition_Result.prems(1)]]
  obtain T where T: "set T = su_id ` set ?ss"
      "\<And>k s. k < length T \<Longrightarrow> s \<in> set ?ss \<Longrightarrow> su_id s = T ! k \<Longrightarrow> set (su_dependencies s) \<subseteq> set (take k T)"
    using level_graph[OF Decomposition_Result.prems(1)] by blast
  have edge: "(b, su_id s) \<in> ?E" if "s \<in> set ?ss" "b \<in> set (?w (su_id s))" for b s
    using that by (auto simp: waits_dispatch)
  have level: "(y, T ! k) \<in> ?E\<^sup>+" if "k < length T" for k
    using that
  proof (induction k rule: less_induct)
    case (less k)
    have "T ! k \<in> su_id ` set ?ss" using T(1) nth_mem[OF less.prems] by simp
    then obtain s where s: "s \<in> set ?ss" "su_id s = T ! k" by auto
    show ?case
    proof (cases "su_dependencies s")
      case Nil
      then show ?thesis
        using edge[OF s(1), of y] get_waits_on[OF v(1) s(1), of i] Decomposition_Result.prems(2) s(2) by auto
    next
      case (Cons b bs)
      then have "b \<in> set (take k T)" using T(2)[OF less.prems s] by auto
      then obtain j where "j < k" "j < length T" "T ! j = b" by (auto simp: in_set_conv_nth)
      then have "(y, b) \<in> ?E\<^sup>+" using less.IH by blast
      moreover have "(b, T ! k) \<in> ?E"
        using edge[OF s(1), of b] get_waits_on[OF v(1) s(1), of i] Cons s(2) by simp
      ultimately show ?thesis by (rule trancl_into_trancl)
    qed
  qed
  show ?case
  proof (cases "x \<in> su_id ` set ?ss")
    case True
    then show ?thesis using level T(1) by (metis in_set_conv_nth)
  next
    case False
    with Decomposition_Result.prems(3) obtain c where c: "c \<in> set cs" "x \<in> ids_of c" by auto
    have "dr_parent c \<in> su_id ` set ?ss" using v(3) c(1) by blast
    then obtain s where s: "s \<in> set ?ss" "su_id s = dr_parent c" by (metis imageE)
    have sub: "(b, x) \<in> ?E\<^sup>+" if "b \<in> set (?w (dr_parent c))" for b
      using Decomposition_Result.IH[OF c(1) tree_okD(1)[OF Decomposition_Result.prems(1) c(1)] that c(2)]
      by (rule trancl_mono[OF _ waits_child[OF c(1)]])
    show ?thesis
    proof (cases "su_dependencies s")
      case Nil
      then show ?thesis
        using sub[of y] get_waits_on[OF v(1) s(1), of i] s(2) Decomposition_Result.prems(2) by simp
    next
      case (Cons b bs)
      then have "b \<in> set T" using v(6)[OF s(1)] T(1) by auto
      then have "(y, b) \<in> ?E\<^sup>+" using level by (metis in_set_conv_nth)
      moreover have "(b, x) \<in> ?E\<^sup>+"
        using sub[of b] get_waits_on[OF v(1) s(1), of i] s(2) Cons by simp
      ultimately show ?thesis by (rule trancl_trans)
    qed
  qed
qed

text \<open>A container is assembled after everything below it.\<close>

lemma container_last:
  assumes "tree_ok (Decomposition_Result p ts es d cs)" and "c \<in> set cs" and "x \<in> ids_of c"
  shows "(x, dr_parent c) \<in> (waits (dispatch_after (Decomposition_Result p ts es d cs) i))\<^sup>+"
  using assms
proof (induction c arbitrary: p ts es d cs i x)
  case (Decomposition_Result q us fs e bs)
  let ?c = "Decomposition_Result q us fs e bs" and ?r = "Decomposition_Result p ts es d cs"
  note v = result_validD[OF tree_okD(4)[OF Decomposition_Result.prems(1)]]
  have edge: "(b, dr_parent ?c) \<in> waits (dispatch_after ?r i)" if "b \<in> su_id ` set (dp_subtasks q)" for b
    using that get_contained_by[OF v(4) Decomposition_Result.prems(2)] v(3) Decomposition_Result.prems(2)
    by (auto simp: waits_dispatch)
  have okc: "tree_ok ?c" using tree_okD(1)[OF Decomposition_Result.prems(1,2)] .
  show ?case
  proof (cases "x \<in> su_id ` set (dp_subtasks q)")
    case True
    then show ?thesis using edge by (intro r_into_trancl)
  next
    case False
    with Decomposition_Result.prems(3) obtain b where b: "b \<in> set bs" "x \<in> ids_of b" by auto
    from Decomposition_Result.IH[OF b(1) okc b] have "(x, dr_parent b) \<in> (waits (dispatch_after ?r i))\<^sup>+"
      by (rule trancl_mono[OF _ waits_child[OF Decomposition_Result.prems(2)]])
    moreover have "dr_parent b \<in> su_id ` set (dp_subtasks q)"
      using result_validD(3)[OF tree_okD(4)[OF okc]] b(1) by blast
    ultimately show ?thesis using edge by (meson trancl_into_trancl)
  qed
qed

text \<open>
  C21. Splitting a unit loses no ordering. Wherever in the tree a unit was split, in
  the graph the dispatcher runs every unit of the subtree waits, through some chain
  of edges, for everything the split unit declared it depends on, and the split unit
  itself waits for every unit of its subtree.
\<close>

theorem split_keeps_order:
  assumes "tree_ok r" and "q \<in> set (sub_results r)" and "c \<in> set (dr_children q)"
    and "s \<in> set (dr_subtasks q)" and "su_id s = dr_parent c" and "x \<in> ids_of c"
  shows "(x, su_id s) \<in> (depends (graph_of (dispatch_subtasks r)))\<^sup>+ \<and>
    (\<forall>y \<in> set (su_dependencies s). (y, x) \<in> (depends (graph_of (dispatch_subtasks r)))\<^sup>+)"
proof -
  obtain p ts es d cs where q: "q = Decomposition_Result p ts es d cs" by (cases q)
  obtain j where okq: "tree_ok q" and sub: "waits (dispatch_after q j) \<subseteq> waits (dispatch_subtasks r)"
    using waits_sub_result[OF assms(1,2), of "[]"] by (auto simp: dispatch_subtasks_def)
  have dep: "depends (graph_of (dispatch_subtasks r)) = waits (dispatch_subtasks r)"
    using distinct_dispatch[OF assms(1)] by (simp add: depends_graph_of dispatch_subtasks_def)
  have c: "c \<in> set cs" and s: "s \<in> set (dp_subtasks p)" using assms(3,4) q by auto
  have "(x, su_id s) \<in> (waits (dispatch_after q j))\<^sup>+"
    using container_last[OF okq[unfolded q] c assms(6)] assms(5) q by simp
  moreover have "(y, x) \<in> (waits (dispatch_after q j))\<^sup>+" if "y \<in> set (su_dependencies s)" for y
  proof -
    have "y \<in> set (get_or_empty (waits_on (dp_subtasks p) j) (dr_parent c))"
      using get_waits_on[OF result_validD(1)[OF tree_okD(4)[OF okq[unfolded q]]] s, of j] that assms(5) by auto
    from inherited_first[OF tree_okD(1)[OF okq[unfolded q] c] this assms(6)]
    show ?thesis unfolding q by (rule trancl_mono[OF _ waits_child[OF c]])
  qed
  ultimately show ?thesis unfolding dep using trancl_mono[OF _ sub] by blast
qed

section \<open>Leaves and containers\<close>

definition container_ids :: "decomposition_result \<Rightarrow> ident set" where
  "container_ids r = (\<Union>q \<in> set (sub_results r). split_task_ids q)"

lemma container_ids_node:
  "container_ids (Decomposition_Result p ts es d cs) = dr_parent ` set cs \<union> (\<Union>c \<in> set cs. container_ids c)"
  by (auto simp: container_ids_def split_task_ids_def)

lemma all_task_ids: "result_valid r \<Longrightarrow> mset (map t_id (all_tasks r)) = mset (map su_id (all_subtasks r))"
proof (induction r)
  case (Decomposition_Result p ts es d cs)
  note v = result_validD[OF Decomposition_Result.prems]
  have "mset (concat (map (\<lambda>c. map t_id (all_tasks c)) bs)) = mset (concat (map (\<lambda>c. map su_id (all_subtasks c)) bs))"
    if "set bs \<subseteq> set cs" for bs
    using that
  proof (induction bs)
    case (Cons b bs)
    then show ?case using Decomposition_Result.IH[of b] v(5)[of b] by simp
  qed simp
  with v(2) show ?case by (simp add: map_concat comp_def)
qed

lemma container_ids_subset: "result_valid r \<Longrightarrow> container_ids r \<subseteq> ids_of r"
proof (induction r)
  case (Decomposition_Result p ts es d cs)
  note v = result_validD[OF Decomposition_Result.prems]
  have "container_ids c \<subseteq> ids_of (Decomposition_Result p ts es d cs)" if "c \<in> set cs" for c
  proof -
    have "ids_of c \<subseteq> ids_of (Decomposition_Result p ts es d cs)" using that by auto
    with Decomposition_Result.IH[OF that v(5)[OF that]] show ?thesis by blast
  qed
  moreover have "dr_parent ` set cs \<subseteq> ids_of (Decomposition_Result p ts es d cs)" using v(3) by auto
  ultimately show ?case unfolding container_ids_node by blast
qed

lemma leaf_tasks_eq:
  assumes "tree_ok r"
  shows "leaf_tasks r = filter (\<lambda>t. t_id t \<notin> container_ids r) (all_tasks r)"
  using assms
proof (induction r)
  case (Decomposition_Result p ts es d cs)
  let ?r = "Decomposition_Result p ts es d cs"
  note ok = tree_okD[OF Decomposition_Result.prems] and v = result_validD[OF tree_okD(4)[OF Decomposition_Result.prems]]
  have ids: "t_id ` set (all_tasks c) = ids_of c" if "c \<in> set cs" for c
    using all_task_ids[OF v(5)[OF that]] by (metis image_set set_mset_mset)
  have ts: "t_id ` set ts = su_id ` set (dp_subtasks p)" using v(2) by (metis image_set set_mset_mset)
  have sub: "container_ids c \<subseteq> ids_of c" if "c \<in> set cs" for c
    using container_ids_subset[OF v(5)[OF that]] .
  have "filter (\<lambda>t. t_id t \<notin> container_ids ?r) (all_tasks c) = leaf_tasks c" if c: "c \<in> set cs" for c
  proof -
    have "t_id t \<in> container_ids ?r \<longleftrightarrow> t_id t \<in> container_ids c" if "t \<in> set (all_tasks c)" for t
    proof -
      have t: "t_id t \<in> ids_of c" using ids[OF c] that by blast
      have "t_id t \<notin> dr_parent ` set cs"
      proof
        assume "t_id t \<in> dr_parent ` set cs"
        with v(3) have "t_id t \<in> su_id ` set (dp_subtasks p)" by (rule subsetD)
        with t ok(2)[OF c] show False by (metis IntI empty_iff)
      qed
      moreover have "t_id t \<notin> container_ids c'" if "c' \<in> set cs" "c \<noteq> c'" for c'
        using ok(3)[OF c that] sub[OF that(1)] t by (metis IntI empty_iff subsetD)
      ultimately show ?thesis unfolding container_ids_node using c by auto
    qed
    then show ?thesis using Decomposition_Result.IH[OF c ok(1)[OF c]] by (simp cong: filter_cong)
  qed
  moreover have "t_id t \<in> container_ids ?r \<longleftrightarrow> t_id t \<in> split_task_ids ?r" if "t \<in> set ts" for t
  proof -
    have "t_id t \<in> su_id ` set (dp_subtasks p)" using ts that by blast
    then have "t_id t \<notin> container_ids c" if "c \<in> set cs" for c using ok(2)[OF that] sub[OF that] by blast
    then show ?thesis by (simp add: container_ids_node split_task_ids_def)
  qed
  ultimately have "concat (map (\<lambda>c. filter (\<lambda>t. t_id t \<notin> container_ids ?r) (all_tasks c)) cs) = concat (map leaf_tasks cs)"
      "filter (\<lambda>t. t_id t \<notin> container_ids ?r) ts = filter (\<lambda>t. t_id t \<notin> split_task_ids ?r) ts"
    by (simp_all cong: map_cong filter_cong)
  then show ?case by (simp add: filter_concat comp_def)
qed

text \<open>
  Every unit of the tree becomes one task, and what is dispatched as work is
  exactly the tasks that nothing below them replaced: no container is a leaf and no
  other task is left out.
\<close>

theorem leaves_are_uncontained:
  assumes "tree_ok r"
  shows "mset (map t_id (all_tasks r)) = mset (map su_id (all_subtasks r)) \<and>
    leaf_tasks r = filter (\<lambda>t. t_id t \<notin> container_ids r) (all_tasks r)"
  using all_task_ids leaf_tasks_eq[OF assms] assms by (simp add: tree_ok_def)

section \<open>A tree of two levels\<close>

definition demo_unit :: "ident \<Rightarrow> ident list \<Rightarrow> subtask_definition" where
  "demo_unit k ds =
     \<lparr>su_id = k, su_title = ''t'', su_description = ''d'', su_dependencies = ds,
      su_estimated_complexity = COMPLEXITY_MEDIUM, su_stakes = STAKES_NORMAL, su_required_skills = [],
      su_required_tags = [], su_required_role = None, su_expected_artifacts = [''out''],
      su_acceptance_criteria = [], su_satisfies = [], su_kind = WORK, su_options = [],
      su_unsplit_reason = None\<rparr>"

definition demo_level :: "ident \<Rightarrow> int \<Rightarrow> subtask_definition list \<Rightarrow> decomposition_result list \<Rightarrow> decomposition_result" where
  "demo_level parent depth units children =
     Decomposition_Result
       \<lparr>dp_parent_task_id = parent, dp_subtasks = units, dp_task_structure = MIXED,
        dp_coordination_topology = TOPOLOGY_AUTO, dp_open_questions = [], dp_assumptions = [],
        dp_planning_strategy = None\<rparr>
       (map (\<lambda>u. new_task (su_id u) ''t'' ''d'' DEVELOPMENT ''p'' ''pm'' 0) units)
       (concat (map (\<lambda>u. map (\<lambda>d. (d, su_id u)) (su_dependencies u)) units)) depth children"

text \<open>\<open>build\<close> waits for \<open>design\<close> and is split into \<open>parse\<close> and, after it, \<open>eval\<close>.\<close>

definition demo_inner :: decomposition_result where
  "demo_inner = demo_level ''build'' 1 [demo_unit ''parse'' [], demo_unit ''eval'' [''parse'']] []"

definition demo_tree :: decomposition_result where
  "demo_tree = demo_level ''goal'' 0 [demo_unit ''design'' [], demo_unit ''build'' [''design'']] [demo_inner]"

lemma demo_tree_ok: "tree_ok demo_tree"
  by code_simp

theorem tree_dispatches_witness:
  "parallel_groups (graph_of (dispatch_subtasks demo_tree)) =
     Inr [[''design''], [''parse''], [''eval''], [''build'']] \<and>
   validate_graph (graph_of (dispatch_subtasks demo_tree)) = Inr ()"
proof -
  have "parallel_groups (graph_of (dispatch_subtasks demo_tree)) =
     Inr [[''design''], [''parse''], [''eval''], [''build'']]" by code_simp
  with tree_dispatches[OF demo_tree_ok] show ?thesis by simp
qed

theorem split_keeps_order_witness:
  "(''eval'', ''build'') \<in> (depends (graph_of (dispatch_subtasks demo_tree)))\<^sup>+ \<and>
   (''design'', ''eval'') \<in> (depends (graph_of (dispatch_subtasks demo_tree)))\<^sup>+"
proof -
  have "demo_tree \<in> set (sub_results demo_tree)" "demo_inner \<in> set (dr_children demo_tree)"
      "demo_unit ''build'' [''design''] \<in> set (dr_subtasks demo_tree)"
      "su_id (demo_unit ''build'' [''design'']) = dr_parent demo_inner" "''eval'' \<in> ids_of demo_inner"
    by (simp_all add: demo_tree_def demo_inner_def demo_level_def demo_unit_def)
  from split_keeps_order[OF demo_tree_ok this] show ?thesis by (simp add: demo_unit_def)
qed

end
