(* ===== verification/Execution_Waves.thy ===== *)
theory Execution_Waves
  imports Decomposition_Tree
begin

text \<open>
  From a decomposition tree and its routing to the groups an executor runs
  (\<open>engine/coordination/group_builder.py\<close>, the group model of
  \<open>engine/parallel_models.py\<close>), the gate that asks whether inputs arrived
  (\<open>engine/coordination/_dependency_gate.py\<close>), and the status a parent's subtasks
  add up to (\<open>engine/decomposition/rollup.py\<close>, \<open>status_rollup.py\<close>).

  Of a routing candidate the builder reads the agent's id, of a workspace the task
  and the worktree path.
\<close>

section \<open>Assignments and groups\<close>

record routing_decision =
  rd_subtask_id :: ident
  rd_agent_id :: ident

record workspace =
  ws_task_id :: ident
  ws_worktree_path :: string

record coordination_config =
  cc_max_concurrency_per_wave :: "int option"
  cc_fail_fast :: bool

record agent_assignment =
  aa_agent_id :: ident
  aa_task :: task
  aa_resource_claims :: "string list"

abbreviation aa_task_id :: "agent_assignment \<Rightarrow> ident" where
  "aa_task_id a \<equiv> t_id (aa_task a)"

record execution_group =
  eg_group_id :: string
  eg_assignments :: "agent_assignment list"
  eg_max_concurrency :: "int option"
  eg_fail_fast :: bool
  eg_dag_level :: nat

datatype coordination_error =
    Dag_Error "ident graph_error"
  | No_Created_Task ident
  | Duplicate_Claims "string list"
  | Empty_Group
  | Duplicate_Task_Ids "ident list"
  | Duplicate_Agent_Ids "ident list"
  | Bad_Concurrency int

definition repeated :: "'a::linorder list \<Rightarrow> 'a list" where
  "repeated xs = sort (filter (\<lambda>x. 1 < count_list xs x) (remdups xs))"

definition validate_resource_claims_unique :: "agent_assignment \<Rightarrow> (coordination_error, agent_assignment) outcome" where
  "validate_resource_claims_unique a =
     (if length (aa_resource_claims a) \<noteq> length (remdups (aa_resource_claims a))
      then Inl (Duplicate_Claims (repeated (aa_resource_claims a))) else Inr a)"

definition validate_assignments :: "execution_group \<Rightarrow> (coordination_error, execution_group) outcome" where
  "validate_assignments g =
     (if \<not> opt_all (\<lambda>n. 1 \<le> n) (eg_max_concurrency g) then Inl (Bad_Concurrency (the (eg_max_concurrency g)))
      else if eg_assignments g = [] then Inl Empty_Group
      else let dupes = repeated (map aa_task_id (eg_assignments g))
           in if dupes \<noteq> [] then Inl (Duplicate_Task_Ids dupes)
              else let dupes = repeated (map aa_agent_id (eg_assignments g))
                   in if dupes \<noteq> [] then Inl (Duplicate_Agent_Ids dupes) else Inr g)"

section \<open>Rounds of distinct agents\<close>

text \<open>The first round whose agents do not include this one, else a new round.\<close>

fun place :: "agent_assignment \<Rightarrow> (ident set \<times> agent_assignment list) list \<Rightarrow> (ident set \<times> agent_assignment list) list" where
  "place a [] = [({aa_agent_id a}, [a])]"
| "place a ((taken, r) # rounds) =
     (if aa_agent_id a \<notin> taken then (insert (aa_agent_id a) taken, r @ [a]) # rounds
      else (taken, r) # place a rounds)"

definition rounds_by_agent :: "agent_assignment list \<Rightarrow> agent_assignment list list" where
  "rounds_by_agent as = map snd (fold place as [])"

section \<open>Waves\<close>

definition dependency_map :: "subtask_definition list \<Rightarrow> ident \<rightharpoonup> ident list" where
  "dependency_map ss = map_of (rev (map (\<lambda>s. (su_id s, su_dependencies s)) ss))"

definition build_workspace_lookup :: "workspace list \<Rightarrow> ident \<rightharpoonup> string" where
  "build_workspace_lookup wss = map_of (rev (map (\<lambda>w. (ws_task_id w, ws_worktree_path w)) wss))"

definition build_routing_lookup :: "routing_decision list \<Rightarrow> ident \<rightharpoonup> routing_decision" where
  "build_routing_lookup ds = map_of (rev (map (\<lambda>d. (rd_subtask_id d, d)) ds))"

definition task_lookup :: "task list \<Rightarrow> ident \<rightharpoonup> task" where
  "task_lookup ts = map_of (rev (map (\<lambda>t. (t_id t, t)) ts))"

text \<open>What one call of the builder looks things up in.\<close>

record wave_env =
  we_dependencies :: "ident \<rightharpoonup> ident list"
  we_routing :: "ident \<rightharpoonup> routing_decision"
  we_tasks :: "ident \<rightharpoonup> task"
  we_workspaces :: "ident \<rightharpoonup> string"
  we_config :: coordination_config

definition build_assignment :: "wave_env \<Rightarrow> ident \<Rightarrow> routing_decision \<Rightarrow> task \<Rightarrow> agent_assignment" where
  "build_assignment env x decision t =
     \<lparr>aa_agent_id = rd_agent_id decision,
      aa_task = t\<lparr>t_status := ASSIGNED, t_assigned_to := Some (rd_agent_id decision)\<rparr>,
      aa_resource_claims =
        (case we_workspaces env x of None \<Rightarrow> [] | Some path \<Rightarrow> if path \<noteq> '''' then [path] else [])\<rparr>"

fun build_wave ::
  "wave_env \<Rightarrow> ident list \<Rightarrow> agent_assignment list \<Rightarrow> ident set \<Rightarrow>
   (coordination_error, agent_assignment list \<times> ident set) outcome" where
  "build_wave env [] assignments blocked = Inr (assignments, blocked)"
| "build_wave env (x # xs) assignments blocked =
     (if set (get_or_empty (we_dependencies env) x) \<inter> blocked \<noteq> {}
      then build_wave env xs assignments (insert x blocked)
      else case we_routing env x of
             None \<Rightarrow> build_wave env xs assignments (insert x blocked)
           | Some decision \<Rightarrow>
               (case we_tasks env x of
                  None \<Rightarrow> Inl (No_Created_Task x)
                | Some t \<Rightarrow>
                    (case validate_resource_claims_unique (build_assignment env x decision t) of
                       Inl e \<Rightarrow> Inl e
                     | Inr a \<Rightarrow> build_wave env xs (assignments @ [a]) blocked)))"

fun show_nat :: "nat \<Rightarrow> string" where
  "show_nat n = (if n < 10 then [char_of (48 + n)] else show_nat (n div 10) @ [char_of (48 + n mod 10)])"

definition group_id :: "nat \<Rightarrow> nat \<Rightarrow> string" where
  "group_id wave_idx round_idx =
     (if round_idx = 0 then ''wave-'' @ show_nat wave_idx
      else ''wave-'' @ show_nat wave_idx @ ''-'' @ show_nat round_idx)"

fun wave_groups ::
  "coordination_config \<Rightarrow> nat \<Rightarrow> nat \<Rightarrow> agent_assignment list list \<Rightarrow> (coordination_error, execution_group list) outcome" where
  "wave_groups cfg wave_idx round_idx [] = Inr []"
| "wave_groups cfg wave_idx round_idx (r # rounds) =
     (case validate_assignments
        \<lparr>eg_group_id = group_id wave_idx round_idx, eg_assignments = r,
         eg_max_concurrency = cc_max_concurrency_per_wave cfg, eg_fail_fast = cc_fail_fast cfg,
         eg_dag_level = wave_idx\<rparr> of
        Inl e \<Rightarrow> Inl e
      | Inr g \<Rightarrow>
          (case wave_groups cfg wave_idx (Suc round_idx) rounds of Inl e \<Rightarrow> Inl e | Inr gs \<Rightarrow> Inr (g # gs)))"

fun build_groups ::
  "wave_env \<Rightarrow> nat \<Rightarrow> ident list list \<Rightarrow> ident set \<Rightarrow> (coordination_error, execution_group list) outcome" where
  "build_groups env wave_idx [] blocked = Inr []"
| "build_groups env wave_idx (w # ws) blocked =
     (case build_wave env w [] blocked of
        Inl e \<Rightarrow> Inl e
      | Inr (assignments, blocked') \<Rightarrow>
          (case (if assignments = [] then Inr []
                 else wave_groups (we_config env) wave_idx 0 (rounds_by_agent assignments)) of
             Inl e \<Rightarrow> Inl e
           | Inr here \<Rightarrow>
               (case build_groups env (Suc wave_idx) ws blocked' of
                  Inl e \<Rightarrow> Inl e
                | Inr later \<Rightarrow> Inr (here @ later))))"

definition build_execution_waves ::
  "decomposition_result \<Rightarrow> routing_decision list \<Rightarrow> coordination_config \<Rightarrow> workspace list \<Rightarrow>
   (coordination_error, execution_group list) outcome" where
  "build_execution_waves result routing cfg wss =
     (let subtasks = dispatch_subtasks result
      in case parallel_groups (graph_of subtasks) of
           Inl e \<Rightarrow> Inl (Dag_Error e)
         | Inr groups \<Rightarrow>
             build_groups
               \<lparr>we_dependencies = dependency_map subtasks, we_routing = build_routing_lookup routing,
                we_tasks = task_lookup (all_tasks result),
                we_workspaces = build_workspace_lookup wss, we_config = cfg\<rparr>
               0 groups {})"

section \<open>The dependency gate\<close>

definition NON_DELIVERING_STATUSES :: "task_status list" where
  "NON_DELIVERING_STATUSES = [FAILED, CANCELLED, REJECTED, BLOCKED, INTERRUPTED]"

definition AWAITS_DISPATCH_STATUSES :: "task_status list" where
  "AWAITS_DISPATCH_STATUSES = [CREATED, ASSIGNED, IN_PROGRESS, INTERRUPTED]"

record dependency_state =
  ds_status :: "task_status option"
  ds_blocked_reason :: "blocked_reason option"

text \<open>\<open>__post_init__\<close> refuses a reason without a park.\<close>

definition dependency_state_ok :: "dependency_state \<Rightarrow> bool" where
  "dependency_state_ok st \<longleftrightarrow> \<not> (ds_blocked_reason st \<noteq> None \<and> ds_status st \<noteq> Some BLOCKED)"

definition awaited :: "dependency_state \<Rightarrow> bool" where
  "awaited st \<longleftrightarrow> ds_status st = Some BLOCKED \<and>
     (case ds_blocked_reason st of None \<Rightarrow> False | Some b \<Rightarrow> b \<in> set ATTENDED_BLOCKED_REASONS)"

definition awaits_dispatch :: "task_status option \<Rightarrow> bool" where
  "awaits_dispatch s \<longleftrightarrow> (case s of None \<Rightarrow> True | Some st \<Rightarrow> st \<in> set AWAITS_DISPATCH_STATUSES)"

definition unmet_dependencies :: "(ident \<times> dependency_state) list \<Rightarrow> ident list" where
  "unmet_dependencies deps =
     sort (map fst (filter (\<lambda>(x, st). \<not> awaited st \<and>
       (case ds_status st of None \<Rightarrow> True | Some s \<Rightarrow> s \<in> set NON_DELIVERING_STATUSES)) deps))"

definition awaited_dependencies :: "(ident \<times> dependency_state) list \<Rightarrow> ident list" where
  "awaited_dependencies deps = sort (map fst (filter (\<lambda>(x, st). awaited st) deps))"

section \<open>The status of a parent\<close>

record subtask_status_rollup =
  ro_parent_task_id :: ident
  ro_total :: int
  ro_completed :: int
  ro_failed :: int
  ro_in_progress :: int
  ro_blocked :: int
  ro_cancelled :: int
  ro_suspended :: int

datatype rollup_error = Counts_Exceed_Total | Negative_Count

definition validate_counts :: "subtask_status_rollup \<Rightarrow> (rollup_error, subtask_status_rollup) outcome" where
  "validate_counts ro =
     (if \<not> list_all (\<lambda>n. 0 \<le> n) [ro_total ro, ro_completed ro, ro_failed ro, ro_in_progress ro, ro_blocked ro,
            ro_cancelled ro, ro_suspended ro] then Inl Negative_Count
      else if ro_completed ro + ro_failed ro + ro_in_progress ro + ro_blocked ro + ro_cancelled ro + ro_suspended ro
              > ro_total ro then Inl Counts_Exceed_Total
      else Inr ro)"

definition derived_parent_status :: "subtask_status_rollup \<Rightarrow> task_status" where
  "derived_parent_status ro =
     (if ro_total ro = 0 then CREATED
      else if ro_completed ro = ro_total ro then COMPLETED
      else if ro_cancelled ro = ro_total ro then CANCELLED
      else if ro_failed ro > 0 then FAILED
      else if ro_in_progress ro > 0 then IN_PROGRESS
      else if ro_blocked ro > 0 then BLOCKED
      else if ro_suspended ro > 0 then SUSPENDED
      else if ro_completed ro + ro_cancelled ro = ro_total ro then CANCELLED
      else IN_PROGRESS)"

definition compute_rollup :: "ident \<Rightarrow> task_status list \<Rightarrow> (rollup_error, subtask_status_rollup) outcome" where
  "compute_rollup parent statuses =
     (let total = int (length statuses); count = (\<lambda>s. int (count_list statuses s))
      in if total = 0 then
           validate_counts \<lparr>ro_parent_task_id = parent, ro_total = 0, ro_completed = 0, ro_failed = 0,
             ro_in_progress = 0, ro_blocked = 0, ro_cancelled = 0, ro_suspended = 0\<rparr>
         else
           validate_counts \<lparr>ro_parent_task_id = parent, ro_total = total, ro_completed = count COMPLETED,
             ro_failed = count FAILED, ro_in_progress = count IN_PROGRESS, ro_blocked = count BLOCKED,
             ro_cancelled = count CANCELLED, ro_suspended = count SUSPENDED\<rparr>)"

section \<open>Rounds are right and as few as possible\<close>

definition rounds_ok :: "(ident set \<times> agent_assignment list) list \<Rightarrow> bool" where
  "rounds_ok R \<longleftrightarrow>
     sorted_wrt (\<lambda>p q. fst q \<subseteq> fst p) R \<and>
     list_all (\<lambda>(taken, r). taken = aa_agent_id ` set r \<and> distinct (map aa_agent_id r) \<and> r \<noteq> []) R"

lemma place_taken:
  "aa_agent_id a \<in> T \<Longrightarrow> \<forall>q \<in> set R. fst q \<subseteq> T \<Longrightarrow> p \<in> set (place a R) \<Longrightarrow> fst p \<subseteq> T"
  by (induction a R rule: place.induct) (auto split: if_splits)

lemma rounds_ok_place: "rounds_ok R \<Longrightarrow> rounds_ok (place a R)"
proof (induction a R rule: place.induct)
  case (2 a taken r R)
  then have R: "rounds_ok R" "\<forall>q \<in> set R. fst q \<subseteq> taken" by (auto simp: rounds_ok_def)
  show ?case
  proof (cases "aa_agent_id a \<in> taken")
    case True
    have "fst p \<subseteq> taken" if "p \<in> set (place a R)" for p
      using place_taken[OF True R(2) that] .
    with True "2.IH"[OF _ R(1)] "2.prems" show ?thesis by (auto simp: rounds_ok_def)
  next
    case False
    with R "2.prems" show ?thesis by (auto simp: rounds_ok_def)
  qed
qed (simp add: rounds_ok_def)

lemma mset_place: "mset (concat (map snd (place a R))) = add_mset a (mset (concat (map snd R)))"
  by (induction a R rule: place.induct) auto

lemma fold_place:
  "rounds_ok R \<Longrightarrow> rounds_ok (fold place as R) \<and>
     mset (concat (map snd (fold place as R))) = mset as + mset (concat (map snd R))"
proof (induction as arbitrary: R)
  case (Cons a as)
  then show ?case using Cons.IH[OF rounds_ok_place[OF Cons.prems, of a]] by (simp add: mset_place)
qed simp

lemma count_round:
  "distinct xs \<Longrightarrow> count_list xs x = (if x \<in> set xs then 1 else 0)"
  by (induction xs) auto

lemma count_rounds:
  assumes "rounds_ok R"
  shows "count_list (map aa_agent_id (concat (map snd R))) x = length (filter (\<lambda>p. x \<in> fst p) R)"
  using assms
proof (induction R)
  case (Cons p R)
  obtain taken r where p: "p = (taken, r)" by fastforce
  with Cons.prems have "rounds_ok R" "count_list (map aa_agent_id r) x = (if x \<in> taken then 1 else 0)"
    by (auto simp: rounds_ok_def count_round)
  with Cons.IH p show ?case by simp
qed simp

lemma rounds_count:
  assumes "rounds_ok R" and "R \<noteq> []"
  shows "\<exists>x \<in> fst (last R). length (filter (\<lambda>p. x \<in> fst p) R) = length R"
proof -
  obtain R' q where R: "R = R' @ [q]" using assms(2) by (cases R rule: rev_cases) auto
  with assms(1) have nested: "\<forall>p \<in> set R'. fst q \<subseteq> fst p" and "snd q \<noteq> []" "fst q = aa_agent_id ` set (snd q)"
    by (auto simp: rounds_ok_def sorted_wrt_append)
  then obtain x where x: "x \<in> fst q" by (cases "snd q") auto
  with nested have "filter (\<lambda>p. x \<in> fst p) R = R" by (auto simp: R filter_id_conv)
  then show ?thesis using x R by (intro bexI[of _ x]) simp_all
qed

text \<open>
  C39. One wave is split into rounds that lose nothing and repeat nobody: together
  the rounds hold exactly the wave's assignments, no round is empty or names an
  agent twice, and there are exactly as many rounds as the busiest agent has
  assignments.
\<close>

theorem rounds_minimal:
  "mset (concat (rounds_by_agent as)) = mset as \<and>
   list_all (\<lambda>r. r \<noteq> [] \<and> distinct (map aa_agent_id r)) (rounds_by_agent as) \<and>
   length (rounds_by_agent as) =
     Max (insert 0 (set (map (count_list (map aa_agent_id as)) (map aa_agent_id as))))"
proof -
  let ?R = "fold place as []" and ?ids = "map aa_agent_id as"
  have R: "rounds_ok ?R" "mset (concat (map snd ?R)) = mset as"
    using fold_place[of "[]" as] by (simp_all add: rounds_ok_def)
  have count: "count_list ?ids x = length (filter (\<lambda>p. x \<in> fst p) ?R)" for x
    unfolding count_rounds[OF R(1), symmetric] by (metis R(2) count_mset mset_map)
  have "Max (insert 0 (set (map (count_list ?ids) ?ids))) = length ?R"
  proof (rule Max_eqI)
    show "length ?R \<in> insert 0 (set (map (count_list ?ids) ?ids))"
    proof (cases "?R = []")
      case False
      obtain x where x: "length (filter (\<lambda>p. x \<in> fst p) ?R) = length ?R"
        using rounds_count[OF R(1) False] by blast
      with count False have "count_list ?ids x \<noteq> 0" by simp
      then have "x \<in> set ?ids" by (metis count_notin)
      with x count show ?thesis by (metis image_eqI image_set insertI2)
    qed simp
  qed (auto simp: count)
  with R show ?thesis by (auto simp: rounds_by_agent_def rounds_ok_def list_all_iff)
qed

section \<open>What a wave source promises its client\<close>

text \<open>
  The wave builder relies on this much of the graph: its waves list every unit once,
  and what a unit needs lies in earlier waves.
\<close>

locale wave_source =
  fixes plan_ok :: "'t \<Rightarrow> bool" and units :: "'t \<Rightarrow> 'a set" and needs :: "'t \<Rightarrow> 'a \<Rightarrow> 'a list"
    and waves :: "'t \<Rightarrow> 'a list list"
  assumes once: "plan_ok t \<Longrightarrow> distinct (concat (waves t))"
    and complete: "plan_ok t \<Longrightarrow> set (concat (waves t)) = units t"
    and layered: "plan_ok t \<Longrightarrow> k < length (waves t) \<Longrightarrow> x \<in> set (waves t ! k) \<Longrightarrow>
      set (needs t x) \<subseteq> set (concat (take k (waves t)))"
begin

definition need_rel :: "'t \<Rightarrow> ('a \<times> 'a) set" where
  "need_rel t = {(d, x). d \<in> set (needs t x)}"

definition stuck :: "'t \<Rightarrow> ('a \<Rightarrow> bool) \<Rightarrow> 'a \<Rightarrow> bool" where
  "stuck t routed x \<longleftrightarrow> (\<exists>d. (d, x) \<in> (need_rel t)\<^sup>* \<and> \<not> routed d)"

definition block_step :: "'t \<Rightarrow> ('a \<Rightarrow> bool) \<Rightarrow> 'a \<Rightarrow> 'a set \<Rightarrow> 'a set" where
  "block_step t routed x B = (if set (needs t x) \<inter> B \<noteq> {} \<or> \<not> routed x then insert x B else B)"

lemma stuck_iff: "stuck t routed x \<longleftrightarrow> \<not> routed x \<or> (\<exists>y \<in> set (needs t x). stuck t routed y)"
  unfolding stuck_def need_rel_def by (auto elim: rtranclE intro: rtrancl_into_rtrancl)

lemma waves_ordered: "plan_ok t \<Longrightarrow> ordered (need_rel t) {} (concat (waves t))"
proof (rule ordered_concat)
  fix k assume "plan_ok t" "k < length (waves t)"
  have all: "\<forall>x \<in> set xs. \<forall>d. (d, x) \<in> E \<longrightarrow> d \<in> A \<Longrightarrow> ordered E A xs" for E :: "('a \<times> 'a) set" and A xs
  proof (induction xs arbitrary: A)
    case (Cons x xs)
    then show ?case using Cons.IH[of "insert x A"] by auto
  qed simp
  show "ordered (need_rel t) ({} \<union> set (concat (take k (waves t)))) (waves t ! k)"
    using layered[OF \<open>plan_ok t\<close> \<open>k < length (waves t)\<close>] by (intro all) (auto simp: need_rel_def)
qed

lemma blocked_exact:
  assumes "ordered (need_rel t) A xs" and "distinct xs" and "set xs \<inter> A = {}" and "B \<subseteq> A"
    and "\<And>x. x \<in> A \<Longrightarrow> x \<in> B \<longleftrightarrow> stuck t routed x"
  shows "fold (block_step t routed) xs B \<subseteq> A \<union> set xs \<and>
    (\<forall>x \<in> A \<union> set xs. x \<in> fold (block_step t routed) xs B \<longleftrightarrow> stuck t routed x)"
  using assms
proof (induction xs arbitrary: A B)
  case (Cons x xs)
  have needs: "set (needs t x) \<subseteq> A" using Cons.prems(1) by (auto simp: need_rel_def)
  let ?B = "block_step t routed x B"
  have "set (needs t x) \<inter> B \<noteq> {} \<longleftrightarrow> (\<exists>y \<in> set (needs t x). stuck t routed y)"
    using needs Cons.prems(5) by blast
  moreover have "x \<notin> B" using Cons.prems(3,4) by auto
  ultimately have x: "x \<in> ?B \<longleftrightarrow> stuck t routed x"
    using stuck_iff[of t routed x] by (auto simp: block_step_def)
  have B: "?B \<subseteq> insert x A" "\<And>y. y \<in> insert x A \<Longrightarrow> y \<in> ?B \<longleftrightarrow> stuck t routed y"
    using Cons.prems(3,4,5) x by (auto simp: block_step_def split: if_splits)
  have "ordered (need_rel t) (insert x A) xs" "distinct xs" "set xs \<inter> insert x A = {}"
    using Cons.prems(1-3) by auto
  from Cons.IH[OF this B] show ?case by auto
qed auto

lemma blocked_all:
  assumes "plan_ok t"
  shows "x \<in> units t \<Longrightarrow> x \<in> fold (block_step t routed) (concat (waves t)) {} \<longleftrightarrow> stuck t routed x"
  using blocked_exact[OF waves_ordered[OF assms] once[OF assms], of "{}" routed] complete[OF assms] by auto

text \<open>Blocking only ever adds the unit it looks at.\<close>

lemma block_mono: "B \<subseteq> fold (block_step t routed) xs B"
proof (induction xs arbitrary: B)
  case (Cons x xs)
  have "B \<subseteq> block_step t routed x B" by (auto simp: block_step_def)
  also have "\<dots> \<subseteq> fold (block_step t routed) xs (block_step t routed x B)" by (rule Cons.IH)
  finally show ?case by simp
qed simp

lemma block_within: "fold (block_step t routed) xs B \<subseteq> B \<union> set xs"
proof (induction xs arbitrary: B)
  case (Cons x xs)
  have "fold (block_step t routed) xs (block_step t routed x B) \<subseteq> block_step t routed x B \<union> set xs" by (rule Cons.IH)
  also have "\<dots> \<subseteq> insert x B \<union> set xs" by (auto simp: block_step_def)
  finally show ?case by auto
qed simp

end

text \<open>The tree's flat graph is such a source.\<close>

definition tree_waves :: "decomposition_result \<Rightarrow> ident list list" where
  "tree_waves r = (case parallel_groups (graph_of (dispatch_subtasks r)) of Inl e \<Rightarrow> [] | Inr gs \<Rightarrow> gs)"

definition tree_needs :: "decomposition_result \<Rightarrow> ident \<Rightarrow> ident list" where
  "tree_needs r = get_or_empty (dependency_map (dispatch_subtasks r))"

lemma tree_needs_eq: "tree_needs r x = reverse_adjacency (graph_of (dispatch_subtasks r)) x"
  by (simp add: tree_needs_def get_or_empty_def dependency_map_def reverse_adjacency_def graph_of_def comp_def)

lemma tree_waves_spec:
  assumes "tree_ok r"
  shows "parallel_groups (graph_of (dispatch_subtasks r)) = Inr (tree_waves r)"
    and "mset (concat (tree_waves r)) = mset (map su_id (all_subtasks r))"
    and "\<And>k. k < length (tree_waves r) \<Longrightarrow>
      set (tree_waves r ! k) = ready (graph_of (dispatch_subtasks r)) (set (concat (take k (tree_waves r))))"
proof -
  note ok = dispatch_graph_ok[OF assms]
  obtain gs where gs: "parallel_groups (graph_of (dispatch_subtasks r)) = Inr gs"
    using parallel_groups_spec[OF ok(1)] ok(2,3) by (cases "parallel_groups (graph_of (dispatch_subtasks r))") auto
  then show "parallel_groups (graph_of (dispatch_subtasks r)) = Inr (tree_waves r)" by (simp add: tree_waves_def)
  with parallel_groups_spec[OF ok(1)] ok(4)
  show "mset (concat (tree_waves r)) = mset (map su_id (all_subtasks r))"
    "\<And>k. k < length (tree_waves r) \<Longrightarrow>
      set (tree_waves r ! k) = ready (graph_of (dispatch_subtasks r)) (set (concat (take k (tree_waves r))))"
    by auto
qed

interpretation tree: wave_source tree_ok ids_of tree_needs tree_waves
proof
  fix r assume ok: "tree_ok r"
  note spec = tree_waves_spec[OF ok]
  show "distinct (concat (tree_waves r))"
    using spec(2) ok mset_eq_imp_distinct_iff by (fastforce simp: tree_ok_def)
  show "set (concat (tree_waves r)) = ids_of r" using spec(2) by (metis image_set set_mset_mset)
  show "set (tree_needs r x) \<subseteq> set (concat (take k (tree_waves r)))"
    if "k < length (tree_waves r)" "x \<in> set (tree_waves r ! k)" for k x
    using spec(3)[OF that(1)] that(2) by (auto simp: ready_def tree_needs_eq)
qed

section \<open>The groups\<close>

definition tree_routed :: "wave_env \<Rightarrow> ident \<Rightarrow> bool" where
  "tree_routed env x \<longleftrightarrow> we_routing env x \<noteq> None"

definition tree_assignment :: "wave_env \<Rightarrow> ident \<Rightarrow> agent_assignment" where
  "tree_assignment env x = build_assignment env x (the (we_routing env x)) (the (we_tasks env x))"

definition env_ok :: "decomposition_result \<Rightarrow> wave_env \<Rightarrow> bool" where
  "env_ok r env \<longleftrightarrow>
     get_or_empty (we_dependencies env) = tree_needs r \<and>
     (\<forall>x \<in> ids_of r. \<exists>t. we_tasks env x = Some t \<and> t_id t = x) \<and>
     opt_all (\<lambda>n. 1 \<le> n) (cc_max_concurrency_per_wave (we_config env))"

lemma claims_unique: "validate_resource_claims_unique (build_assignment env x d t) = Inr (build_assignment env x d t)"
  by (auto simp: validate_resource_claims_unique_def build_assignment_def split: option.splits)

lemma build_wave_spec:
  assumes "env_ok r env" and "distinct xs" and "set xs \<inter> B = {}" and "set xs \<subseteq> ids_of r"
  shows "build_wave env xs acc B =
    Inr (acc @ map (tree_assignment env) (filter (\<lambda>x. x \<notin> fold (tree.block_step r (tree_routed env)) xs B) xs),
         fold (tree.block_step r (tree_routed env)) xs B)"
  using assms(2-4)
proof (induction xs arbitrary: acc B)
  case (Cons x xs)
  let ?step = "tree.block_step r (tree_routed env)"
  obtain t where t: "we_tasks env x = Some t" using assms(1) Cons.prems(3) by (auto simp: env_ok_def)
  have needs: "get_or_empty (we_dependencies env) = tree_needs r" using assms(1) by (simp add: env_ok_def)
  show ?case
  proof (cases "set (tree_needs r x) \<inter> B \<noteq> {} \<or> \<not> tree_routed env x")
    case True
    then have st: "?step x B = insert x B" by (simp add: tree.block_step_def)
    have "x \<in> fold ?step xs (insert x B)" using tree.block_mono[of "insert x B"] by blast
    moreover have "build_wave env (x # xs) acc B = build_wave env xs acc (insert x B)"
      using True needs by (auto simp: tree_routed_def)
    ultimately show ?thesis using Cons.IH[of "insert x B" acc] Cons.prems st by simp
  next
    case False
    then have st: "?step x B = B" by (simp add: tree.block_step_def)
    have "x \<notin> fold ?step xs B" using tree.block_within[of r "tree_routed env" xs B] Cons.prems by auto
    moreover have "build_wave env (x # xs) acc B = build_wave env xs (acc @ [tree_assignment env x]) B"
      using False needs t by (auto simp: tree_routed_def tree_assignment_def claims_unique)
    ultimately show ?thesis using Cons.IH[of B "acc @ [tree_assignment env x]"] Cons.prems st by simp
  qed
qed simp

lemma repeated_Nil_iff: "repeated xs = [] \<longleftrightarrow> distinct xs"
proof -
  have "distinct xs \<longleftrightarrow> (\<forall>x \<in> set xs. count_list xs x \<le> 1)"
    by (induction xs) (auto simp: count_list_0_iff le_Suc_eq)
  then show ?thesis by (auto simp: repeated_def filter_empty_conv sort_key_Nil_iff not_less)
qed

lemma wave_groups_spec:
  assumes "opt_all (\<lambda>n. 1 \<le> n) (cc_max_concurrency_per_wave cfg)"
    and "list_all (\<lambda>r. r \<noteq> [] \<and> distinct (map aa_agent_id r)) rs" and "distinct (map aa_task_id (concat rs))"
  shows "\<exists>gs. wave_groups cfg i j rs = Inr gs \<and> map eg_assignments gs = rs \<and> set (map eg_dag_level gs) \<subseteq> {i}"
  using assms(2,3)
proof (induction rs arbitrary: j)
  case (Cons r rs)
  from Cons.IH[of "Suc j"] Cons.prems obtain gs where
    gs: "wave_groups cfg i (Suc j) rs = Inr gs" "map eg_assignments gs = rs" "set (map eg_dag_level gs) \<subseteq> {i}" by auto
  let ?g = "\<lparr>eg_group_id = group_id i j, eg_assignments = r, eg_max_concurrency = cc_max_concurrency_per_wave cfg,
    eg_fail_fast = cc_fail_fast cfg, eg_dag_level = i\<rparr>"
  have "validate_assignments ?g = Inr ?g"
    using Cons.prems assms(1) repeated_Nil_iff[of "map aa_task_id r"] repeated_Nil_iff[of "map aa_agent_id r"]
    by (simp add: validate_assignments_def)
  with gs show ?case by (intro exI[of _ "?g # gs"]) simp
qed simp

text \<open>Every group belongs to one wave, and groups come in the order of their waves.\<close>

definition groups_ok :: "nat \<Rightarrow> ident list list \<Rightarrow> execution_group list \<Rightarrow> bool" where
  "groups_ok i ws gs \<longleftrightarrow>
     sorted (map eg_dag_level gs) \<and>
     (\<forall>g \<in> set gs. i \<le> eg_dag_level g \<and> eg_dag_level g < i + length ws \<and>
        distinct (map aa_agent_id (eg_assignments g)) \<and>
        aa_task_id ` set (eg_assignments g) \<subseteq> set (ws ! (eg_dag_level g - i)))"

lemma groups_ok_Cons:
  assumes "groups_ok (Suc i) ws gs" and "\<forall>g \<in> set hs. eg_dag_level g = i \<and>
      distinct (map aa_agent_id (eg_assignments g)) \<and> aa_task_id ` set (eg_assignments g) \<subseteq> set w"
  shows "groups_ok i (w # ws) (hs @ gs)"
proof -
  have "sorted (map eg_dag_level hs)"
    using assms(2) by (induction hs) auto
  with assms show ?thesis
    by (fastforce simp: groups_ok_def sorted_append nth_Cons' Suc_diff_le)
qed

lemma aa_task_id_tree: "env_ok r env \<Longrightarrow> x \<in> ids_of r \<Longrightarrow> aa_task_id (tree_assignment env x) = x"
  by (fastforce simp: env_ok_def tree_assignment_def build_assignment_def)

lemma wave_here:
  assumes env: "env_ok r env" and xs: "distinct xs" "set xs \<subseteq> ids_of r"
  shows "\<exists>hs. (if map (tree_assignment env) xs = [] then Inr []
      else wave_groups (we_config env) i 0 (rounds_by_agent (map (tree_assignment env) xs))) = Inr hs \<and>
    mset (concat (map eg_assignments hs)) = mset (map (tree_assignment env) xs) \<and>
    (\<forall>g \<in> set hs. eg_dag_level g = i \<and> distinct (map aa_agent_id (eg_assignments g)) \<and>
       aa_task_id ` set (eg_assignments g) \<subseteq> set xs)"
proof (cases "xs = []")
  case False
  let ?as = "map (tree_assignment env) xs"
  let ?rs = "rounds_by_agent ?as"
  have R: "rounds_ok (fold place ?as [])" "mset (concat ?rs) = mset ?as"
    using fold_place[of "[]" ?as] by (simp_all add: rounds_ok_def rounds_by_agent_def)
  have la: "list_all (\<lambda>r. r \<noteq> [] \<and> distinct (map aa_agent_id r)) ?rs"
    using R(1) by (auto simp: rounds_by_agent_def rounds_ok_def list_all_iff)
  have ids: "map aa_task_id ?as = xs"
    unfolding map_map using xs(2) aa_task_id_tree[OF env] by (intro map_idI) auto
  have "mset (map aa_task_id (concat ?rs)) = mset xs" using R(2) ids by (metis mset_map)
  then have d: "distinct (map aa_task_id (concat ?rs))" "aa_task_id ` set (concat ?rs) = set xs"
    using xs(1) mset_eq_imp_distinct_iff mset_eq_setD by (blast, metis image_set)
  have cfg: "opt_all (\<lambda>n. 1 \<le> n) (cc_max_concurrency_per_wave (we_config env))" using env by (simp add: env_ok_def)
  from wave_groups_spec[OF cfg la d(1), of i 0] obtain hs where
    hs: "wave_groups (we_config env) i 0 ?rs = Inr hs" "map eg_assignments hs = ?rs" "set (map eg_dag_level hs) \<subseteq> {i}"
    by blast
  have "distinct (map aa_agent_id (eg_assignments g)) \<and> aa_task_id ` set (eg_assignments g) \<subseteq> set xs"
    if "g \<in> set hs" for g
  proof -
    have "eg_assignments g \<in> set ?rs" using that hs(2) by (metis image_eqI image_set)
    with la d(2) show ?thesis by (fastforce simp: list_all_iff)
  qed
  with hs R(2) False show ?thesis by (intro exI[of _ hs]) auto
qed simp

lemma build_groups_spec:
  assumes env: "env_ok r env" and "distinct (concat ws)" and "set (concat ws) \<inter> B = {}"
    and "set (concat ws) \<subseteq> ids_of r"
  shows "\<exists>gs. build_groups env i ws B = Inr gs \<and> groups_ok i ws gs \<and>
    mset (concat (map eg_assignments gs)) =
      mset (map (tree_assignment env)
        (filter (\<lambda>x. x \<notin> fold (tree.block_step r (tree_routed env)) (concat ws) B) (concat ws)))"
  using assms(2-4)
proof (induction ws arbitrary: i B)
  case Nil
  then show ?case by (simp add: groups_ok_def)
next
  case (Cons w ws)
  let ?fold = "fold (tree.block_step r (tree_routed env))"
  let ?B = "?fold w B" and ?xs = "filter (\<lambda>x. x \<notin> ?fold w B) w"
  have w: "distinct w" "set w \<inter> B = {}" "set w \<subseteq> ids_of r" using Cons.prems by auto
  have "set (concat ws) \<inter> ?B = {}"
    using tree.block_within[of r "tree_routed env" w B] Cons.prems(1,2) by fastforce
  then obtain gs where gs: "build_groups env (Suc i) ws ?B = Inr gs" "groups_ok (Suc i) ws gs"
      "mset (concat (map eg_assignments gs)) =
        mset (map (tree_assignment env) (filter (\<lambda>x. x \<notin> ?fold (concat ws) ?B) (concat ws)))"
    using Cons.IH[of ?B "Suc i"] Cons.prems by auto
  obtain hs where hs: "(if map (tree_assignment env) ?xs = [] then Inr []
      else wave_groups (we_config env) i 0 (rounds_by_agent (map (tree_assignment env) ?xs))) = Inr hs"
      "mset (concat (map eg_assignments hs)) = mset (map (tree_assignment env) ?xs)"
      "\<forall>g \<in> set hs. eg_dag_level g = i \<and> distinct (map aa_agent_id (eg_assignments g)) \<and>
         aa_task_id ` set (eg_assignments g) \<subseteq> set ?xs"
    using wave_here[OF env, of ?xs i] w by auto
  have same: "x \<in> ?fold (concat ws) ?B \<longleftrightarrow> x \<in> ?B" if "x \<in> set w" for x
    using that tree.block_mono[of ?B r "tree_routed env" "concat ws"]
      tree.block_within[of r "tree_routed env" "concat ws" ?B] Cons.prems(1) by auto
  have "build_groups env i (w # ws) B = Inr (hs @ gs)"
    using build_wave_spec[OF env w, of "[]"] hs(1) gs(1) by simp
  moreover have "groups_ok i (w # ws) (hs @ gs)"
    using gs(2) hs(3) by (intro groups_ok_Cons) auto
  moreover have "filter (\<lambda>x. x \<notin> ?fold (concat ws) ?B) w = ?xs" using same by (auto intro: filter_cong)
  ultimately show ?case using hs(2) gs(3) by (intro exI[of _ "hs @ gs"]) simp
qed

section \<open>The builder\<close>

lemma task_lookup_tree:
  assumes "tree_ok r" and "x \<in> ids_of r"
  shows "\<exists>t. task_lookup (all_tasks r) x = Some t \<and> t_id t = x"
proof -
  have "t_id ` set (all_tasks r) = ids_of r"
    using all_task_ids assms(1) unfolding tree_ok_def by (metis image_set set_mset_mset)
  moreover have "fst ` set (rev (map (\<lambda>t. (t_id t, t)) (all_tasks r))) = t_id ` set (all_tasks r)"
    by (simp add: image_image)
  ultimately have "x \<in> fst ` set (rev (map (\<lambda>t. (t_id t, t)) (all_tasks r)))" using assms(2) by simp
  then obtain t where "task_lookup (all_tasks r) x = Some t"
    unfolding task_lookup_def by (metis domD dom_map_of_conv_image_fst)
  moreover from this have "t_id t = x" unfolding task_lookup_def by (auto dest!: map_of_SomeD)
  ultimately show ?thesis by blast
qed

lemma depends_tree: "tree_ok r \<Longrightarrow> depends (graph_of (dispatch_subtasks r)) = tree.need_rel r"
  by (simp add: depends_def tree.need_rel_def tree_needs_eq)

text \<open>A unit can run when it and everything it waits for, through any chain, were routed.\<close>

definition can_run :: "decomposition_result \<Rightarrow> routing_decision list \<Rightarrow> ident \<Rightarrow> bool" where
  "can_run r routing x \<longleftrightarrow>
     (\<forall>d. (d, x) \<in> (depends (graph_of (dispatch_subtasks r)))\<^sup>* \<longrightarrow> d \<in> set (map rd_subtask_id routing))"

lemma routed_iff: "build_routing_lookup routing x \<noteq> None \<longleftrightarrow> x \<in> set (map rd_subtask_id routing)"
  by (force simp: build_routing_lookup_def map_of_eq_None_iff)

lemma can_run_iff:
  assumes "tree_ok r" and "we_routing env = build_routing_lookup routing"
  shows "can_run r routing x \<longleftrightarrow> \<not> tree.stuck r (tree_routed env) x"
  unfolding can_run_def tree.stuck_def depends_tree[OF assms(1)] tree_routed_def assms(2) routed_iff by blast

lemma build_execution_waves_groups:
  assumes ok: "tree_ok r" and cfg: "opt_all (\<lambda>n. 1 \<le> n) (cc_max_concurrency_per_wave cfg)"
  shows "\<exists>gs. build_execution_waves r routing cfg wss = Inr gs \<and> groups_ok 0 (tree_waves r) gs \<and>
    mset (map aa_task_id (concat (map eg_assignments gs))) =
      mset (filter (can_run r routing) (map su_id (all_subtasks r)))"
proof -
  let ?env = "\<lparr>we_dependencies = dependency_map (dispatch_subtasks r), we_routing = build_routing_lookup routing,
    we_tasks = task_lookup (all_tasks r), we_workspaces = build_workspace_lookup wss, we_config = cfg\<rparr>"
  let ?B = "fold (tree.block_step r (tree_routed ?env)) (concat (tree_waves r)) {}"
  have env: "env_ok r ?env"
    using task_lookup_tree[OF ok] cfg by (simp add: env_ok_def tree_needs_def)
  have set: "set (concat (tree_waves r)) = ids_of r" using tree.complete[OF ok] .
  obtain gs where gs: "build_groups ?env 0 (tree_waves r) {} = Inr gs" "groups_ok 0 (tree_waves r) gs"
      "mset (concat (map eg_assignments gs)) =
        mset (map (tree_assignment ?env) (filter (\<lambda>x. x \<notin> ?B) (concat (tree_waves r))))"
    using build_groups_spec[OF env tree.once[OF ok], of "{}" 0] set by auto
  have "build_execution_waves r routing cfg wss = Inr gs"
    using gs(1) by (simp add: build_execution_waves_def tree_waves_spec(1)[OF ok])
  moreover have "filter (\<lambda>x. x \<notin> ?B) (concat (tree_waves r)) = filter (can_run r routing) (concat (tree_waves r))"
    using tree.blocked_all[OF ok, of _ "tree_routed ?env"] can_run_iff[OF ok, of ?env routing] set
    by (intro filter_cong) auto
  moreover have "map aa_task_id (map (tree_assignment ?env) (filter (can_run r routing) (concat (tree_waves r)))) =
      filter (can_run r routing) (concat (tree_waves r))"
    unfolding map_map using aa_task_id_tree[OF env] set by (intro map_idI) auto
  moreover have "mset (map aa_task_id (concat (map eg_assignments gs))) =
      mset (map aa_task_id (map (tree_assignment ?env) (filter (\<lambda>x. x \<notin> ?B) (concat (tree_waves r)))))"
    using arg_cong[OF gs(3), of "image_mset aa_task_id"] by (simp only: mset_map)
  moreover have "mset (filter (can_run r routing) (concat (tree_waves r))) =
      mset (filter (can_run r routing) (map su_id (all_subtasks r)))"
    using tree_waves_spec(2)[OF ok] by (simp only: mset_filter)
  ultimately show ?thesis using gs(2) by (intro exI[of _ gs]) (simp only: simp_thms)
qed

lemma concat_nth_unique:
  "distinct (concat xss) \<Longrightarrow> i < length xss \<Longrightarrow> j < length xss \<Longrightarrow> x \<in> set (xss ! i) \<Longrightarrow> x \<in> set (xss ! j) \<Longrightarrow> i = j"
proof (induction xss arbitrary: i j)
  case (Cons xs xss)
  have "x \<notin> set (xss ! k)" if "x \<in> set xs" "k < length xss" for k
    using Cons.prems(1) that nth_mem[OF that(2)] by (simp add: disjoint_iff)
  with Cons show ?case by (cases i; cases j) auto
qed simp

lemma group_dependency:
  assumes tree: "tree_ok r" and ok: "groups_ok 0 (tree_waves r) gs"
    and tasks: "mset (map aa_task_id (concat (map eg_assignments gs))) =
      mset (filter (can_run r routing) (map su_id (all_subtasks r)))"
    and k: "k < length gs" "a \<in> set (eg_assignments (gs ! k))"
    and d: "(d, aa_task_id a) \<in> depends (graph_of (dispatch_subtasks r))"
  shows "\<exists>j < k. d \<in> aa_task_id ` set (eg_assignments (gs ! j)) \<and> eg_dag_level (gs ! j) < eg_dag_level (gs ! k)"
proof -
  let ?W = "tree_waves r" and ?lvl = "\<lambda>j. eg_dag_level (gs ! j)"
  have at: "?lvl j < length ?W" "aa_task_id ` set (eg_assignments (gs ! j)) \<subseteq> set (?W ! ?lvl j)" if "j < length gs" for j
    using ok nth_mem[OF that] by (auto simp: groups_ok_def)
  have run: "x \<in> ids_of r \<and> can_run r routing x \<longleftrightarrow> (\<exists>j < length gs. x \<in> aa_task_id ` set (eg_assignments (gs ! j)))" for x
  proof -
    have "set (map aa_task_id (concat (map eg_assignments gs))) = set (filter (can_run r routing) (map su_id (all_subtasks r)))"
      using tasks by (rule mset_eq_setD)
    then show ?thesis by (auto simp: in_set_conv_nth[of _ gs] set_eq_iff image_iff) (metis in_set_conv_nth)+
  qed
  have dW: "d \<in> set (concat (take (?lvl k) ?W))"
    using tree.layered[OF tree at(1)[OF k(1)], of "aa_task_id a"] at(2)[OF k(1)] k(2) d
    by (auto simp: depends_tree[OF tree] tree.need_rel_def)
  then have "d \<in> ids_of r" unfolding tree.complete[OF tree, symmetric] by (auto dest: in_set_takeD)
  moreover have "can_run r routing (aa_task_id a)" using run k by blast
  then have "can_run r routing d" using d by (auto simp: can_run_def intro: rtrancl_into_rtrancl)
  ultimately obtain j where j: "j < length gs" "d \<in> aa_task_id ` set (eg_assignments (gs ! j))" using run by blast
  from dW obtain l where l: "l < ?lvl k" "l < length ?W" "d \<in> set (?W ! l)" by (auto simp: in_set_conv_nth[of _ "take _ _"])
  have "?lvl j = l"
    using concat_nth_unique[OF tree.once[OF tree] at(1)[OF j(1)] l(2) _ l(3)] at(2)[OF j(1)] j(2) by blast
  with l(1) have lt: "?lvl j < ?lvl k" by simp
  have "j < k"
  proof (rule ccontr)
    assume "\<not> j < k"
    then have "?lvl k \<le> ?lvl j"
      using ok j(1) k(1) unfolding groups_ok_def by (metis length_map not_less nth_map sorted_nth_mono)
    with lt show False by simp
  qed
  with j(2) lt show ?thesis by blast
qed

text \<open>
  C32. The wave builder is right for every tree, routing and worker split. On a valid
  tree it never fails. It schedules exactly the units that were routed together with
  everything they wait for, each once; no group names an agent twice; and whatever a
  scheduled unit waits for is scheduled in an earlier group, of a smaller dependency
  level.
\<close>

theorem execution_waves_correct:
  assumes "tree_ok r" and "opt_all (\<lambda>n. 1 \<le> n) (cc_max_concurrency_per_wave cfg)"
  shows "case build_execution_waves r routing cfg wss of
      Inl e \<Rightarrow> False
    | Inr gs \<Rightarrow>
        mset (map aa_task_id (concat (map eg_assignments gs))) =
          mset (filter (can_run r routing) (map su_id (all_subtasks r))) \<and>
        (\<forall>g \<in> set gs. distinct (map aa_agent_id (eg_assignments g))) \<and>
        (\<forall>k < length gs. \<forall>a \<in> set (eg_assignments (gs ! k)). \<forall>d.
           (d, aa_task_id a) \<in> depends (graph_of (dispatch_subtasks r)) \<longrightarrow>
           (\<exists>j < k. d \<in> aa_task_id ` set (eg_assignments (gs ! j)) \<and>
              eg_dag_level (gs ! j) < eg_dag_level (gs ! k)))"
proof -
  obtain gs where gs: "build_execution_waves r routing cfg wss = Inr gs" and ok: "groups_ok 0 (tree_waves r) gs"
    and tasks: "mset (map aa_task_id (concat (map eg_assignments gs))) =
      mset (filter (can_run r routing) (map su_id (all_subtasks r)))"
    using build_execution_waves_groups[OF assms] by blast
  have "\<exists>j < k. d \<in> aa_task_id ` set (eg_assignments (gs ! j)) \<and> eg_dag_level (gs ! j) < eg_dag_level (gs ! k)"
    if k: "k < length gs" "a \<in> set (eg_assignments (gs ! k))"
      and d: "(d, aa_task_id a) \<in> depends (graph_of (dispatch_subtasks r))" for k a d
    using group_dependency[OF assms(1) ok tasks k d] .
  with gs tasks ok show ?thesis by (auto simp: groups_ok_def)
qed

theorem execution_waves_correct_witness:
  "build_execution_waves demo_tree [\<lparr>rd_subtask_id = ''design'', rd_agent_id = ''ada''\<rparr>,
       \<lparr>rd_subtask_id = ''parse'', rd_agent_id = ''bob''\<rparr>, \<lparr>rd_subtask_id = ''build'', rd_agent_id = ''ada''\<rparr>]
       \<lparr>cc_max_concurrency_per_wave = Some 5, cc_fail_fast = False\<rparr> [] \<noteq> Inl Empty_Group \<and>
   (case build_execution_waves demo_tree [\<lparr>rd_subtask_id = ''design'', rd_agent_id = ''ada''\<rparr>,
       \<lparr>rd_subtask_id = ''parse'', rd_agent_id = ''bob''\<rparr>, \<lparr>rd_subtask_id = ''build'', rd_agent_id = ''ada''\<rparr>]
       \<lparr>cc_max_concurrency_per_wave = Some 5, cc_fail_fast = False\<rparr> [] of
      Inl e \<Rightarrow> False
    | Inr gs \<Rightarrow> map (\<lambda>g. (eg_group_id g, map aa_task_id (eg_assignments g))) gs =
        [(''wave-0'', [''design'']), (''wave-1'', [''parse''])])"
proof -
  let ?routing = "[\<lparr>rd_subtask_id = ''design'', rd_agent_id = ''ada''\<rparr>,
       \<lparr>rd_subtask_id = ''parse'', rd_agent_id = ''bob''\<rparr>, \<lparr>rd_subtask_id = ''build'', rd_agent_id = ''ada''\<rparr>]"
  let ?cfg = "\<lparr>cc_max_concurrency_per_wave = Some 5, cc_fail_fast = False\<rparr>"
  have "case build_execution_waves demo_tree ?routing ?cfg [] of
      Inl e \<Rightarrow> False
    | Inr gs \<Rightarrow> map (\<lambda>g. (eg_group_id g, map aa_task_id (eg_assignments g))) gs =
        [(''wave-0'', [''design'']), (''wave-1'', [''parse''])]"
    by code_simp
  moreover have "build_execution_waves demo_tree ?routing ?cfg [] \<noteq> Inl Empty_Group"
    using execution_waves_correct[OF demo_tree_ok, of ?cfg ?routing "[]"] by auto
  ultimately show ?thesis by blast
qed

section \<open>Gate and rollup\<close>

lemma count_pos: "0 < count_list xs x \<longleftrightarrow> x \<in> set xs"
  by (metis count_list_0_iff gr_zeroI less_not_refl)

lemma count_all: "count_list xs x = length xs \<longleftrightarrow> set xs \<subseteq> {x}"
proof (induction xs)
  case (Cons y xs)
  have "count_list xs x \<le> length xs" by (rule count_le_length)
  with Cons show ?case by auto
qed simp

lemma count_two: "x \<noteq> y \<Longrightarrow> count_list xs x + count_list xs y = length xs \<longleftrightarrow> set xs \<subseteq> {x, y}"
proof (induction xs)
  case (Cons z xs)
  have "count_list xs x + count_list xs y \<le> length xs"
    using \<open>x \<noteq> y\<close> by (induction xs) auto
  with Cons show ?case by auto
qed simp

lemma count_tracked:
  "count_list xs COMPLETED + count_list xs FAILED + count_list xs IN_PROGRESS + count_list xs BLOCKED +
     count_list xs CANCELLED + count_list xs SUSPENDED \<le> length xs"
  by (induction xs) auto

text \<open>
  A rollup is always computed, and the status it derives depends only on which
  statuses occur: COMPLETED exactly when every subtask is completed, FAILED exactly
  when one failed, CANCELLED exactly when all ended completed or cancelled and one
  was cancelled, BLOCKED and SUSPENDED only when nothing failed or is running, and
  every other mixture, a rejected subtask included, as work in progress.
\<close>

theorem rollup_exact:
  "case compute_rollup parent xs of
     Inl e \<Rightarrow> False
   | Inr ro \<Rightarrow>
       (derived_parent_status ro = CREATED \<longleftrightarrow> xs = []) \<and>
       (derived_parent_status ro = COMPLETED \<longleftrightarrow> set xs = {COMPLETED}) \<and>
       (derived_parent_status ro = FAILED \<longleftrightarrow> FAILED \<in> set xs) \<and>
       (derived_parent_status ro = CANCELLED \<longleftrightarrow> CANCELLED \<in> set xs \<and> set xs \<subseteq> {COMPLETED, CANCELLED}) \<and>
       (derived_parent_status ro = BLOCKED \<longleftrightarrow> BLOCKED \<in> set xs \<and> FAILED \<notin> set xs \<and> IN_PROGRESS \<notin> set xs) \<and>
       (derived_parent_status ro = SUSPENDED \<longleftrightarrow>
          SUSPENDED \<in> set xs \<and> BLOCKED \<notin> set xs \<and> FAILED \<notin> set xs \<and> IN_PROGRESS \<notin> set xs) \<and>
       (derived_parent_status ro = IN_PROGRESS \<longleftrightarrow>
          xs \<noteq> [] \<and> FAILED \<notin> set xs \<and>
          (IN_PROGRESS \<in> set xs \<or> BLOCKED \<notin> set xs \<and> SUSPENDED \<notin> set xs \<and> \<not> set xs \<subseteq> {COMPLETED, CANCELLED}))"
proof (cases "xs = []")
  case False
  let ?ro = "\<lparr>ro_parent_task_id = parent, ro_total = int (length xs), ro_completed = int (count_list xs COMPLETED),
     ro_failed = int (count_list xs FAILED), ro_in_progress = int (count_list xs IN_PROGRESS),
     ro_blocked = int (count_list xs BLOCKED), ro_cancelled = int (count_list xs CANCELLED),
     ro_suspended = int (count_list xs SUSPENDED)\<rparr>"
  have c: "compute_rollup parent xs = Inr ?ro"
    using False count_tracked[of xs] by (simp add: compute_rollup_def validate_counts_def Let_def)
  have d: "derived_parent_status ?ro =
     (if set xs \<subseteq> {COMPLETED} then COMPLETED else if set xs \<subseteq> {CANCELLED} then CANCELLED
      else if FAILED \<in> set xs then FAILED else if IN_PROGRESS \<in> set xs then IN_PROGRESS
      else if BLOCKED \<in> set xs then BLOCKED else if SUSPENDED \<in> set xs then SUSPENDED
      else if set xs \<subseteq> {COMPLETED, CANCELLED} then CANCELLED else IN_PROGRESS)"
    using False count_two[of COMPLETED CANCELLED xs]
    by (simp add: derived_parent_status_def count_pos count_all[symmetric] flip: of_nat_add)
  obtain x where "x \<in> set xs" using False by (cases xs) auto
  then show ?thesis unfolding c sum.case d by auto
qed (simp add: compute_rollup_def validate_counts_def derived_parent_status_def)

text \<open>
  The gate lets no dead input through and blames no waiting one: a dependency is
  never reported both as dead and as awaited, an awaited one is parked on a reason
  somebody attends to, and a dependency in neither list has a row whose status is
  not one of the non-delivering ones.
\<close>

theorem gate_exact:
  "set (unmet_dependencies [(x, st)]) \<inter> set (awaited_dependencies [(x, st)]) = {} \<and>
   set (unmet_dependencies deps) = (\<Union>(y, s) \<in> set deps. set (unmet_dependencies [(y, s)])) \<and>
   set (awaited_dependencies deps) = (\<Union>(y, s) \<in> set deps. set (awaited_dependencies [(y, s)])) \<and>
   sorted (unmet_dependencies deps) \<and> sorted (awaited_dependencies deps) \<and>
   (unmet_dependencies [(x, st)] = [] \<and> awaited_dependencies [(x, st)] = [] \<longleftrightarrow>
      (\<exists>s. ds_status st = Some s \<and> s \<notin> set NON_DELIVERING_STATUSES))"
  by (auto simp: unmet_dependencies_def awaited_dependencies_def awaited_def NON_DELIVERING_STATUSES_def
      sort_key_Nil_iff filter_empty_conv split: option.splits if_splits)

end
