(* ===== verification/Resource_Lock.thy ===== *)
theory Resource_Lock
  imports Execution_Waves
begin

text \<open>
  Exclusive access to resources while groups run (\<open>engine/resource_lock.py\<close>,
  \<open>engine/parallel_locks.py\<close>). The \<open>ResourceLock\<close> protocol is a locale; the helpers
  that acquire and release a group's claims take the protocol's operations as
  arguments and are proved once inside it; \<open>InMemoryResourceLock\<close> is the
  interpretation. Each operation runs under the lock's own mutex, so it is one step.
\<close>

section \<open>The in-memory lock\<close>

text \<open>The dictionary from resource to holder, in insertion order.\<close>

type_synonym lock_table = "(string \<times> string) list"

definition holder_of :: "lock_table \<Rightarrow> string \<Rightarrow> string option" where
  "holder_of st r = map_of st r"

definition is_locked :: "lock_table \<Rightarrow> string \<Rightarrow> bool" where
  "is_locked st r \<longleftrightarrow> r \<in> fst ` set st"

definition acquire :: "string \<Rightarrow> string \<Rightarrow> lock_table \<Rightarrow> bool \<times> lock_table" where
  "acquire r h st =
     (case map_of st r of
        None \<Rightarrow> (True, st @ [(r, h)])
      | Some current \<Rightarrow> if current = h then (True, st) else (False, st))"

definition release :: "string \<Rightarrow> string \<Rightarrow> lock_table \<Rightarrow> lock_table" where
  "release r h st = (if map_of st r = Some h then filter (\<lambda>(k, _). k \<noteq> r) st else st)"

definition release_all :: "string \<Rightarrow> lock_table \<Rightarrow> nat \<times> lock_table" where
  "release_all h st =
     (let to_release = map fst (filter (\<lambda>(_, c). c = h) st)
      in (length to_release, filter (\<lambda>(k, _). k \<notin> set to_release) st))"

definition lock_inv :: "lock_table \<Rightarrow> bool" where
  "lock_inv st \<longleftrightarrow> distinct (map fst st)"

section \<open>The claims of a group\<close>

datatype lock_error = Claim_Conflict string ident ident | Lock_Held string "string option"

definition holder_id :: "execution_group \<Rightarrow> agent_assignment \<Rightarrow> string" where
  "holder_id g a = eg_group_id g @ '':'' @ aa_task_id a"

definition needs_lock :: "execution_group \<Rightarrow> bool" where
  "needs_lock g \<longleftrightarrow> list_ex (\<lambda>a. aa_resource_claims a \<noteq> []) (eg_assignments g)"

fun check_claims :: "(string \<times> ident) list \<Rightarrow> (string \<rightharpoonup> ident) \<Rightarrow> (lock_error, unit) outcome" where
  "check_claims [] seen = Inr ()"
| "check_claims ((r, agent) # claims) seen =
     (case seen r of
        Some other \<Rightarrow> Inl (Claim_Conflict r other agent)
      | None \<Rightarrow> check_claims claims (seen(r \<mapsto> agent)))"

definition validate_resource_claims :: "execution_group \<Rightarrow> (lock_error, unit) outcome" where
  "validate_resource_claims g =
     check_claims (concat (map (\<lambda>a. map (\<lambda>r. (r, aa_agent_id a)) (aa_resource_claims a)) (eg_assignments g))) Map.empty"

text \<open>The pairs the two nested loops visit, in order.\<close>

definition group_claims :: "execution_group \<Rightarrow> (string \<times> string) list" where
  "group_claims g = concat (map (\<lambda>a. map (\<lambda>r. (r, holder_id g a)) (aa_resource_claims a)) (eg_assignments g))"

fun acquire_each ::
  "(string \<Rightarrow> string \<Rightarrow> 'l \<Rightarrow> bool \<times> 'l) \<Rightarrow> (string \<times> string) list \<Rightarrow> 'l \<Rightarrow> string option \<times> 'l" where
  "acquire_each acq [] st = (None, st)"
| "acquire_each acq ((r, h) # claims) st =
     (case acq r h st of
        (True, st') \<Rightarrow> acquire_each acq claims st'
      | (False, st') \<Rightarrow> (Some r, st'))"

definition release_all_locks :: "(string \<Rightarrow> 'l \<Rightarrow> nat \<times> 'l) \<Rightarrow> execution_group \<Rightarrow> 'l \<Rightarrow> 'l" where
  "release_all_locks rel_all g st = fold (\<lambda>a st. snd (rel_all (holder_id g a) st)) (eg_assignments g) st"

definition acquire_all_locks ::
  "(string \<Rightarrow> string \<Rightarrow> 'l \<Rightarrow> bool \<times> 'l) \<Rightarrow> (string \<Rightarrow> 'l \<Rightarrow> nat \<times> 'l) \<Rightarrow> ('l \<Rightarrow> string \<Rightarrow> string option) \<Rightarrow>
   execution_group \<Rightarrow> 'l \<Rightarrow> (lock_error, unit) outcome \<times> 'l" where
  "acquire_all_locks acq rel_all held g st =
     (case acquire_each acq (group_claims g) st of
        (None, st') \<Rightarrow> (Inr (), st')
      | (Some r, st') \<Rightarrow> (Inl (Lock_Held r (held st' r)), release_all_locks rel_all g st'))"

section \<open>The protocol\<close>

abbreviation group_holders :: "execution_group \<Rightarrow> string set" where
  "group_holders g \<equiv> holder_id g ` set (eg_assignments g)"

text \<open>What a set of holders giving everything back leaves held.\<close>

definition without :: "string set \<Rightarrow> (string \<rightharpoonup> string) \<Rightarrow> (string \<rightharpoonup> string)" where
  "without H m = (\<lambda>r. case m r of None \<Rightarrow> None | Some h \<Rightarrow> if h \<in> H then None else Some h)"

lemma without_Some_iff: "without H m r = Some h \<longleftrightarrow> m r = Some h \<and> h \<notin> H"
  by (auto simp: without_def split: option.splits)

lemma without_eq: "(\<And>r h. m r = Some h \<Longrightarrow> h \<notin> H) \<Longrightarrow> without H m = m"
  by (auto simp: without_def fun_eq_iff split: option.splits)

lemma check_claims_Inr:
  "check_claims cs seen = Inr () \<longleftrightarrow> distinct (map fst cs) \<and> fst ` set cs \<inter> dom seen = {}"
proof (induction cs arbitrary: seen)
  case (Cons c cs)
  obtain r a where c: "c = (r, a)" by fastforce
  show ?case
  proof (cases "seen r")
    case None
    then have unf: "check_claims (c # cs) seen = check_claims cs (seen(r \<mapsto> a))" by (simp add: c)
    show ?thesis unfolding unf Cons.IH using None by (auto simp: c)
  qed (auto simp: c)
qed simp

lemma validate_claims_distinct: "validate_resource_claims g = Inr () \<longleftrightarrow> distinct (map fst (group_claims g))"
  by (simp add: validate_resource_claims_def group_claims_def check_claims_Inr map_concat comp_def)

lemma group_claims_holder: "(r, h) \<in> set (group_claims g) \<Longrightarrow> h \<in> group_holders g"
  by (auto simp: group_claims_def)

locale resource_lock =
  fixes inv :: "'l \<Rightarrow> bool" and acq :: "string \<Rightarrow> string \<Rightarrow> 'l \<Rightarrow> bool \<times> 'l"
    and rel :: "string \<Rightarrow> string \<Rightarrow> 'l \<Rightarrow> 'l" and rel_all :: "string \<Rightarrow> 'l \<Rightarrow> nat \<times> 'l"
    and held :: "'l \<Rightarrow> string \<Rightarrow> string option"
  assumes acquire_inv: "inv st \<Longrightarrow> inv (snd (acq r h st))"
    and release_inv: "inv st \<Longrightarrow> inv (rel r h st)"
    and release_all_inv: "inv st \<Longrightarrow> inv (snd (rel_all h st))"
    and acquire_answer: "inv st \<Longrightarrow> fst (acq r h st) \<longleftrightarrow> held st r = None \<or> held st r = Some h"
    and acquire_held: "inv st \<Longrightarrow> held (snd (acq r h st)) = (if fst (acq r h st) then (held st)(r \<mapsto> h) else held st)"
    and release_held: "inv st \<Longrightarrow> held (rel r h st) = (if held st r = Some h then (held st)(r := None) else held st)"
    and release_all_held: "inv st \<Longrightarrow> held (snd (rel_all h st)) = without {h} (held st)"
    and release_all_count: "inv st \<Longrightarrow> fst (rel_all h st) = card {r. held st r = Some h}"
begin

lemma acquire_each_spec:
  assumes "inv st" and "distinct (map fst cs)"
  shows "case acquire_each acq cs st of
      (None, st') \<Rightarrow> inv st' \<and> held st' = held st ++ map_of cs \<and>
        (\<forall>(r, h) \<in> set cs. held st r = None \<or> held st r = Some h)
    | (Some r, st') \<Rightarrow> inv st' \<and>
        (\<exists>h. (r, h) \<in> set cs \<and> held st r \<noteq> None \<and> held st r \<noteq> Some h) \<and> held st' r = held st r \<and>
        (\<forall>x. held st' x = held st x \<or> (\<exists>h. (x, h) \<in> set cs \<and> held st x = None \<and> held st' x = Some h))"
  using assms
proof (induction cs arbitrary: st)
  case (Cons c cs)
  obtain r h where c: "c = (r, h)" by fastforce
  obtain ok st1 where a: "acq r h st = (ok, st1)" by fastforce
  have st1: "inv st1" "ok \<longleftrightarrow> held st r = None \<or> held st r = Some h"
      "held st1 = (if ok then (held st)(r \<mapsto> h) else held st)"
    using acquire_inv[OF Cons.prems(1), of r h] acquire_answer[OF Cons.prems(1), of r h]
      acquire_held[OF Cons.prems(1), of r h] a by auto
  have r: "r \<notin> fst ` set cs" "distinct (map fst cs)" using Cons.prems(2) c by auto
  show ?case
  proof (cases ok)
    case False
    with st1 c a show ?thesis by auto
  next
    case True
    note IH = Cons.IH[OF st1(1) r(2)]
    have unf: "acquire_each acq (c # cs) st = acquire_each acq cs st1" using True c a by simp
    obtain res st2 where e: "acquire_each acq cs st1 = (res, st2)" by fastforce
    have out: "\<And>x h'. (x, h') \<in> set cs \<Longrightarrow> held st1 x = held st x" using st1(3) r(1) by force
    show ?thesis
    proof (cases res)
      case None
      with IH e have i: "inv st2" "held st2 = held st1 ++ map_of cs"
        "\<And>x h'. (x, h') \<in> set cs \<Longrightarrow> held st1 x = None \<or> held st1 x = Some h'" by auto
      have "map_of cs r = None" using r(1) by (simp add: map_of_eq_None_iff)
      then have "held st2 = held st ++ map_of (c # cs)"
        using i(2) st1(3) True c by (auto simp: fun_eq_iff map_add_def split: option.splits)
      then show ?thesis unfolding unf e None using i(1,3) out st1(2) True c by auto
    next
      case (Some s)
      with IH e obtain h' where i: "inv st2" "(s, h') \<in> set cs" "held st1 s \<noteq> None" "held st1 s \<noteq> Some h'"
          "held st2 s = held st1 s"
        "\<And>x. held st2 x = held st1 x \<or> (\<exists>h. (x, h) \<in> set cs \<and> held st1 x = None \<and> held st2 x = Some h)" by auto
      have "held st2 x = held st x \<or> (\<exists>h. (x, h) \<in> set (c # cs) \<and> held st x = None \<and> held st2 x = Some h)" for x
        using i(6)[of x] st1(2,3) True c out by (cases "x = r") auto
      then show ?thesis unfolding unf e Some using i(1-5) out[OF i(2)] by auto
    qed
  qed
qed simp

lemma release_all_locks_held:
  assumes "inv st"
  shows "inv (release_all_locks rel_all g st)"
    and "held (release_all_locks rel_all g st) = without (group_holders g) (held st)"
proof -
  have "inv (fold (\<lambda>a st. snd (rel_all (holder_id g a) st)) as st) \<and>
      held (fold (\<lambda>a st. snd (rel_all (holder_id g a) st)) as st) = without (holder_id g ` set as) (held st)"
    if "inv st" for as st
    using that
  proof (induction as arbitrary: st)
    case (Cons a as)
    let ?st = "snd (rel_all (holder_id g a) st)"
    have "without (holder_id g ` set as) (without {holder_id g a} (held st)) =
        without (holder_id g ` set (a # as)) (held st)"
      by (auto simp: without_def fun_eq_iff split: option.splits)
    with Cons.IH[OF release_all_inv[OF Cons.prems]] release_all_held[OF Cons.prems] show ?case by simp
  qed (simp add: without_eq)
  from this[OF assms] show "inv (release_all_locks rel_all g st)"
    "held (release_all_locks rel_all g st) = without (group_holders g) (held st)"
    by (simp_all add: release_all_locks_def)
qed

lemma acquire_all_spec:
  assumes "inv st" and "validate_resource_claims g = Inr ()"
  shows "case acquire_all_locks acq rel_all held g st of
      (Inr _, st') \<Rightarrow> inv st' \<and> held st' = held st ++ map_of (group_claims g) \<and>
        (\<forall>(r, h) \<in> set (group_claims g). held st r = None \<or> held st r = Some h)
    | (Inl e, st') \<Rightarrow> inv st' \<and> held st' = without (group_holders g) (held st) \<and>
        (\<exists>(r, h) \<in> set (group_claims g). held st r \<noteq> None \<and> held st r \<noteq> Some h \<and> e = Lock_Held r (held st r))"
proof -
  note spec = acquire_each_spec[OF assms(1), of "group_claims g"]
  have d: "distinct (map fst (group_claims g))" using assms(2) validate_claims_distinct by blast
  obtain res st1 where e: "acquire_each acq (group_claims g) st = (res, st1)" by fastforce
  show ?thesis
  proof (cases res)
    case (Some r)
    with spec[OF d] e obtain h where i: "inv st1" "(r, h) \<in> set (group_claims g)" "held st r \<noteq> None" "held st r \<noteq> Some h"
        "held st1 r = held st r"
      "\<And>x. held st1 x = held st x \<or> (\<exists>h. (x, h) \<in> set (group_claims g) \<and> held st x = None \<and> held st1 x = Some h)" by auto
    have "without (group_holders g) (held st1) x = without (group_holders g) (held st) x" for x
      using i(6)[of x] group_claims_holder[of x _ g] by (auto simp: without_def split: option.splits)
    then have "held (release_all_locks rel_all g st1) = without (group_holders g) (held st)"
      using release_all_locks_held(2)[OF i(1)] by (simp add: fun_eq_iff)
    with e Some i release_all_locks_held(1)[OF i(1)] show ?thesis
      by (auto simp: acquire_all_locks_def)
  qed (use spec[OF d] e in \<open>simp add: acquire_all_locks_def\<close>)
qed

end

section \<open>The in-memory lock keeps the protocol\<close>

lemma map_of_filter_key: "map_of (filter (\<lambda>(k, _). P k) st) r = (if P r then map_of st r else None)"
  by (induction st) auto

lemma released_keys:
  assumes "lock_inv st"
  shows "r \<in> fst ` set (filter (\<lambda>(_, c). c = h) st) \<longleftrightarrow> map_of st r = Some h"
  using assms by (force simp: lock_inv_def map_of_eq_Some_iff)

lemma distinct_filter_keys: "lock_inv st \<Longrightarrow> lock_inv (filter P st)"
  by (simp add: lock_inv_def distinct_map_filter)

interpretation mem: resource_lock lock_inv acquire release release_all holder_of
proof
  fix st r h assume inv: "lock_inv st"
  show "lock_inv (snd (acquire r h st))"
    using inv by (auto simp: acquire_def lock_inv_def map_of_eq_None_iff split: option.splits)
  show "lock_inv (release r h st)" using inv by (simp add: release_def distinct_filter_keys)
  show "lock_inv (snd (release_all h st))" using inv by (simp add: release_all_def distinct_filter_keys Let_def)
  show "fst (acquire r h st) \<longleftrightarrow> holder_of st r = None \<or> holder_of st r = Some h"
    by (simp add: acquire_def holder_of_def split: option.splits)
  show "holder_of (snd (acquire r h st)) = (if fst (acquire r h st) then (holder_of st)(r \<mapsto> h) else holder_of st)"
    by (auto simp: acquire_def holder_of_def fun_eq_iff map_add_def split: option.splits)
  show "holder_of (release r h st) = (if holder_of st r = Some h then (holder_of st)(r := None) else holder_of st)"
    by (auto simp: release_def holder_of_def fun_eq_iff map_of_filter_key)
  show "holder_of (snd (release_all h st)) = without {h} (holder_of st)"
    using released_keys[OF inv, of _ h]
    by (auto simp: release_all_def Let_def holder_of_def without_def fun_eq_iff map_of_filter_key split: option.splits)
  have "{r. map_of st r = Some h} = fst ` set (filter (\<lambda>(_, c). c = h) st)" using released_keys[OF inv, of _ h] by blast
  moreover have "distinct (map fst (filter (\<lambda>(_, c). c = h) st))"
    using distinct_filter_keys[OF inv] by (simp add: lock_inv_def)
  ultimately have "card {r. map_of st r = Some h} = length (map fst (filter (\<lambda>(_, c). c = h) st))"
    by (metis distinct_card set_map)
  then show "fst (release_all h st) = card {r. holder_of st r = Some h}"
    by (simp add: release_all_def Let_def holder_of_def)
qed

text \<open>
  C33. A group's locks are taken together or not at all. When the group's own claims do
  not collide, acquiring succeeds exactly when every claimed resource is free or
  already its holder's; then the claims are held and nothing else changed. When it
  fails it names a resource somebody else holds, the group holds nothing any more,
  and the locks of all others are as they were.
\<close>

theorem acquire_all_or_nothing:
  assumes "lock_inv st" and "validate_resource_claims g = Inr ()"
  shows "case acquire_all_locks acquire release_all holder_of g st of
      (Inr _, st') \<Rightarrow> lock_inv st' \<and> holder_of st' = holder_of st ++ map_of (group_claims g) \<and>
        (\<forall>(r, h) \<in> set (group_claims g). holder_of st r = None \<or> holder_of st r = Some h)
    | (Inl e, st') \<Rightarrow> lock_inv st' \<and> holder_of st' = without (group_holders g) (holder_of st) \<and>
        (\<exists>(r, h) \<in> set (group_claims g). holder_of st r \<noteq> None \<and> holder_of st r \<noteq> Some h \<and>
           e = Lock_Held r (holder_of st r))"
  by (rule mem.acquire_all_spec[OF assms])

lemma release_undoes:
  assumes "acquire_all_locks acquire release_all holder_of g st = (Inr (), st')"
    and "lock_inv st" and "validate_resource_claims g = Inr ()"
    and free: "\<And>r h. holder_of st r = Some h \<Longrightarrow> h \<notin> group_holders g"
  shows "holder_of (release_all_locks release_all g st') = holder_of st"
proof
  fix r
  from mem.acquire_all_spec[OF assms(2,3)] assms(1)
  have i: "lock_inv st'" "holder_of st' = holder_of st ++ map_of (group_claims g)"
      "\<And>r h. (r, h) \<in> set (group_claims g) \<Longrightarrow> holder_of st r = None \<or> holder_of st r = Some h" by auto
  note held = mem.release_all_locks_held(2)[OF i(1), of g]
  show "holder_of (release_all_locks release_all g st') r = holder_of st r"
  proof (cases "map_of (group_claims g) r")
    case None
    then have "holder_of st' r = holder_of st r" by (simp add: i(2) map_add_def)
    then show ?thesis unfolding held without_def using free by (cases "holder_of st r") auto
  next
    case (Some h)
    from group_claims_holder[OF map_of_SomeD[OF Some]] have h: "h \<in> group_holders g" .
    with i(3)[OF map_of_SomeD[OF Some]] free[of r h] have "holder_of st r = None" by blast
    moreover have "holder_of st' r = Some h" using Some by (simp add: i(2) map_add_def)
    ultimately show ?thesis unfolding held without_def using h by simp
  qed
qed

text \<open>
  Taking a group's locks and giving them back restores the table: when the group
  held nothing before, a release after an acquire leaves every resource with the
  holder it had.
\<close>

theorem acquire_release_restores:
  assumes "lock_inv st" and "validate_resource_claims g = Inr ()"
    and "\<And>r h. holder_of st r = Some h \<Longrightarrow> h \<notin> group_holders g"
  shows "case acquire_all_locks acquire release_all holder_of g st of
      (Inr _, st') \<Rightarrow> holder_of (release_all_locks release_all g st') = holder_of st
    | (Inl _, st') \<Rightarrow> holder_of st' = holder_of st"
proof -
  obtain res st' where r: "acquire_all_locks acquire release_all holder_of g st = (res, st')" by fastforce
  show ?thesis
  proof (cases res)
    case (Inl e)
    with mem.acquire_all_spec[OF assms(1,2)] r show ?thesis by (simp add: without_eq[OF assms(3)])
  next
    case (Inr u)
    with r release_undoes[OF _ assms] show ?thesis by simp
  qed
qed

section \<open>Interleaved groups\<close>

text \<open>
  Between two awaits any other task may run, so groups interleave operation by
  operation. The table is shared; each step is one operation by one holder.
\<close>

inductive lock_step :: "string \<Rightarrow> lock_table \<Rightarrow> lock_table \<Rightarrow> bool" where
  acquires: "lock_step h st (snd (acquire r h st))"
| releases: "lock_step h st (release r h st)"
| releases_all: "lock_step h st (snd (release_all h st))"

inductive steps_of_others :: "string \<Rightarrow> lock_table \<Rightarrow> lock_table \<Rightarrow> bool" for h where
  refl: "steps_of_others h st st"
| step: "steps_of_others h st st' \<Longrightarrow> lock_step h' st' st'' \<Longrightarrow> h' \<noteq> h \<Longrightarrow> steps_of_others h st st''"

lemma other_step_keeps:
  assumes "lock_step h' st st'" and "lock_inv st" and "h' \<noteq> h"
  shows "lock_inv st' \<and> (holder_of st' r = Some h \<longleftrightarrow> holder_of st r = Some h)"
  using assms
proof (induction)
  case (acquires h' st q)
  then show ?case using mem.acquire_inv mem.acquire_held[of st q h'] mem.acquire_answer[of st q h'] by auto
next
  case (releases h' st q)
  then show ?case using mem.release_inv mem.release_held[of st q h'] by auto
next
  case (releases_all h' st)
  then show ?case using mem.release_all_inv mem.release_all_held[of st h'] by (auto simp: without_Some_iff)
qed

text \<open>
  C34. A lock is exclusive under every interleaving: however the operations of other
  holders are ordered, a resource stays with its holder until that holder gives it
  back, nobody else's acquire of it succeeds meanwhile, and others can neither hand it
  the lock nor take it away.
\<close>

theorem lock_held_until_released:
  assumes "steps_of_others h st st'" and "lock_inv st"
  shows "lock_inv st' \<and> {r. holder_of st' r = Some h} = {r. holder_of st r = Some h} \<and>
    (\<forall>r h'. holder_of st r = Some h \<and> fst (acquire r h' st') \<longrightarrow> h' = h)"
proof -
  have "lock_inv st' \<and> (\<forall>r. holder_of st' r = Some h \<longleftrightarrow> holder_of st r = Some h)"
    using assms
  proof (induction)
    case (step st st' h' st'')
    then show ?case using other_step_keeps[OF step.hyps(2) _ step.hyps(3)] by blast
  qed auto
  moreover from this have "h' = h" if "holder_of st r = Some h" "fst (acquire r h' st')" for r h'
  proof -
    have "holder_of st' r = Some h" "lock_inv st'" using calculation that(1) by blast+
    with mem.acquire_answer[of st' r h'] that(2) show ?thesis by simp
  qed
  ultimately show ?thesis by blast
qed

section \<open>Two groups\<close>

definition demo_group :: "string \<Rightarrow> ident \<Rightarrow> string list \<Rightarrow> execution_group" where
  "demo_group gid k claims =
     \<lparr>eg_group_id = gid,
      eg_assignments = [\<lparr>aa_agent_id = ''ada'', aa_task = new_task k ''t'' ''d'' DEVELOPMENT ''p'' ''pm'' 0,
        aa_resource_claims = claims\<rparr>],
      eg_max_concurrency = None, eg_fail_fast = False, eg_dag_level = 0\<rparr>"

theorem acquire_all_or_nothing_witness:
  "acquire_all_locks acquire release_all holder_of (demo_group ''wave-0'' ''a'' [''/x'', ''/y'']) [(''/y'', ''wave-0:b'')] =
     (Inl (Lock_Held ''/y'' (Some ''wave-0:b'')), [(''/y'', ''wave-0:b'')]) \<and>
   holder_of [(''/y'', ''wave-0:b'')] =
     without (group_holders (demo_group ''wave-0'' ''a'' [''/x'', ''/y''])) (holder_of [(''/y'', ''wave-0:b'')])"
proof -
  let ?g = "demo_group ''wave-0'' ''a'' [''/x'', ''/y'']" and ?st = "[(''/y'', ''wave-0:b'')]"
  have r: "acquire_all_locks acquire release_all holder_of ?g ?st =
      (Inl (Lock_Held ''/y'' (Some ''wave-0:b'')), ?st)" by code_simp
  have "lock_inv ?st" "validate_resource_claims ?g = Inr ()" by code_simp+
  from acquire_all_or_nothing[OF this] show ?thesis unfolding r by simp
qed

theorem lock_held_until_released_witness:
  "{r. holder_of (snd (acquire ''/x'' ''b'' [(''/x'', ''a'')])) r = Some ''a''} = {''/x''}"
proof -
  have "steps_of_others ''a'' [(''/x'', ''a'')] (snd (acquire ''/x'' ''b'' [(''/x'', ''a'')]))"
    by (rule steps_of_others.step[OF steps_of_others.refl lock_step.acquires]) simp
  moreover have "lock_inv [(''/x'', ''a'')]" by code_simp
  ultimately show ?thesis using lock_held_until_released by (force simp: holder_of_def)
qed

end
