(* ===== verification/Plan_Tree.thy ===== *)
theory Plan_Tree
  imports Decomposition_Tree Plan_Lifecycle "HOL-Library.AList"
begin

text \<open>
  The durable plan (\<open>core/plan.py\<close>), what makes its items a containment tree
  (\<open>core/plan_tree_validation.py\<close>), the views of that tree (\<open>core/plan_tree.py\<close>),
  and the projection of a decomposition onto plan items
  (\<open>engine/decomposition/plan_mapping.py\<close>).

  A dictionary is the list of its entries in insertion order; assigning to a key it
  holds keeps the position. The walks that follow parent or child links have no
  bound in the code: they are \<open>partial_function\<close>s, \<open>None\<close> where the loop would not
  end, and are proved to return on every valid plan.
\<close>

section \<open>Items\<close>

record plan_item =
  pi_id :: ident
  pi_title :: string
  pi_description :: string
  pi_parent_id :: "ident option"
  pi_dependencies :: "ident list"
  pi_owner :: "string option"
  pi_acceptance_criteria :: "string list"
  pi_expected_artifacts :: "string list"
  pi_required_skills :: "string list"
  pi_required_tags :: "string list"
  pi_estimated_complexity :: complexity
  pi_stakes :: stakes
  pi_kind :: plan_item_kind
  pi_options :: "plan_option list"
  pi_chosen_option_id :: "ident option"
  pi_satisfies :: "string list"
  pi_unsplit_reason :: "string option"

datatype tree_problem =
    Unknown_Container ident ident
  | Hangs_Off_Decision ident ident
  | Containment_Cycle "ident list"
  | Cross_Level ident ident

datatype plan_error =
    Unit_Error unit_error
  | Blank_Item_Field
  | Not_Canonical_Uuid ident
  | Own_Parent ident
  | Depends_On_Itself ident
  | Repeated_Dependencies ident "ident list"
  | No_Items
  | Repeated_Items "ident list"
  | Unknown_Items ident "ident list"
  | Item_Cycle "ident list"
  | Malformed_Tree "tree_problem list"
  | Naive_Now
  | Unresolvable_Option ident
  | Missing_Failure_Reason
  | Stray_Failure_Reason

text \<open>\<open>str(UUID(s)) == s\<close>: lower case hexadecimal digits in groups of 8-4-4-4-12.\<close>

definition canonical_uuid :: "string \<Rightarrow> bool" where
  "canonical_uuid s \<longleftrightarrow>
     length s = 36 \<and>
     list_all (\<lambda>i. if i \<in> {8, 13, 18, 23} then s ! i = CHR ''-'' else s ! i \<in> set ''0123456789abcdef'') [0..<36]"

definition MAX_DECISION_OPTIONS :: nat where
  "MAX_DECISION_OPTIONS = 50"

definition item_fields_ok :: "plan_item \<Rightarrow> bool" where
  "item_fields_ok i \<longleftrightarrow>
     list_all not_blank ([pi_id i, pi_title i, pi_description i] @ pi_dependencies i @ pi_acceptance_criteria i @
       pi_expected_artifacts i @ pi_required_skills i @ pi_required_tags i @ pi_satisfies i) \<and>
     pi_acceptance_criteria i \<noteq> [] \<and> length (pi_options i) \<le> MAX_DECISION_OPTIONS \<and>
     opt_all not_blank (pi_parent_id i) \<and> opt_all not_blank (pi_owner i) \<and>
     opt_all not_blank (pi_chosen_option_id i) \<and> opt_all not_blank (pi_unsplit_reason i) \<and>
     list_all (\<lambda>p. not_blank (po_id p) \<and> not_blank (po_title p) \<and> not_blank (po_summary p)) (pi_options i)"

definition repeated_in :: "ident list \<Rightarrow> ident list" where
  "repeated_in xs = sort (filter (\<lambda>x. 1 < count_list xs x) (remdups xs))"

definition validate_item :: "plan_item \<Rightarrow> (plan_error, unit) outcome" where
  "validate_item i =
     (if \<not> item_fields_ok i then Inl Blank_Item_Field
      else if \<not> canonical_uuid (pi_id i) then Inl (Not_Canonical_Uuid (pi_id i))
      else if Some (pi_id i) = pi_parent_id i then Inl (Own_Parent (pi_id i))
      else if pi_id i \<in> set (pi_dependencies i) then Inl (Depends_On_Itself (pi_id i))
      else if length (pi_dependencies i) \<noteq> length (remdups (pi_dependencies i))
      then Inl (Repeated_Dependencies (pi_id i) (repeated_in (pi_dependencies i)))
      else case validate_decision_options (pi_id i) (pi_kind i) (pi_options i) (pi_chosen_option_id i) of
             Inl e \<Rightarrow> Inl (Unit_Error e)
           | Inr _ \<Rightarrow>
               (case validate_expected_artifacts (pi_id i) (pi_kind i) (pi_expected_artifacts i) of
                  Inl e \<Rightarrow> Inl (Unit_Error e)
                | Inr _ \<Rightarrow> Inr ()))"

definition resolved_option :: "plan_item \<Rightarrow> (plan_error, plan_option option) outcome" where
  "resolved_option i =
     (if pi_kind i \<noteq> DECISION then Inr None
      else case (case pi_chosen_option_id i of
                   Some c \<Rightarrow> find (\<lambda>p. po_id p = c) (pi_options i)
                 | None \<Rightarrow> find po_recommended (pi_options i)) of
             None \<Rightarrow> Inl (Unresolvable_Option (pi_id i))
           | Some p \<Rightarrow> Inr (Some p))"

section \<open>Is it a tree\<close>

definition known_items :: "plan_item list \<Rightarrow> ident \<rightharpoonup> plan_item" where
  "known_items items = map_of (fold (\<lambda>i. AList.update (pi_id i) i) items [])"

definition parent_problem :: "(ident \<rightharpoonup> plan_item) \<Rightarrow> plan_item \<Rightarrow> tree_problem list" where
  "parent_problem known i =
     (case pi_parent_id i of
        None \<Rightarrow> []
      | Some p \<Rightarrow>
          (case known p of
             None \<Rightarrow> [Unknown_Container (pi_id i) p]
           | Some held \<Rightarrow> if pi_kind held = DECISION then [Hangs_Off_Decision (pi_id i) p] else []))"

function reduce_parents :: "(ident \<times> ident) list \<Rightarrow> (ident \<times> ident) list" where
  "reduce_parents pending =
     (let settled = filter (\<lambda>(k, p). p \<notin> set (map fst pending)) pending
      in if settled = [] then pending
         else reduce_parents (filter (\<lambda>(k, p). k \<notin> set (map fst settled)) pending))"
  by pat_completeness auto
termination
proof (relation "measure length", simp, goal_cases)
  case (1 pending settled)
  obtain k p where kp: "hd settled = (k, p)" by fastforce
  with hd_in_set[OF 1(2)] have mem: "(k, p) \<in> set settled" by simp
  then have "(k, p) \<in> set pending" unfolding 1(1) by simp
  moreover have "\<not> (case (k, p) of (k, p) \<Rightarrow> k \<notin> set (map fst settled))" using mem by force
  ultimately have "length (filter (\<lambda>(k, p). k \<notin> set (map fst settled)) pending) < length pending"
    by (rule length_filter_less)
  then show ?case by simp
qed

definition resolved_parent :: "(ident \<rightharpoonup> plan_item) \<Rightarrow> plan_item \<Rightarrow> ident option" where
  "resolved_parent known i =
     (case pi_parent_id i of None \<Rightarrow> None | Some p \<Rightarrow> if known p \<noteq> None then Some p else None)"

definition describe_parent_cycles :: "plan_item list \<Rightarrow> (ident \<rightharpoonup> plan_item) \<Rightarrow> tree_problem list" where
  "describe_parent_cycles items known =
     (let pending = fold (\<lambda>i d. case resolved_parent known i of
            None \<Rightarrow> d | Some p \<Rightarrow> AList.update (pi_id i) p d) items [];
          left = reduce_parents pending
      in if left = [] then [] else [Containment_Cycle (sort (map fst left))])"

definition describe_cross_level_dependencies :: "plan_item list \<Rightarrow> (ident \<rightharpoonup> plan_item) \<Rightarrow> tree_problem list" where
  "describe_cross_level_dependencies items known =
     concat (map (\<lambda>i.
       if (case pi_parent_id i of None \<Rightarrow> True | Some p \<Rightarrow> known p \<noteq> None) then
         map (Cross_Level (pi_id i)) (filter (\<lambda>d.
           case known d of None \<Rightarrow> False | Some j \<Rightarrow> pi_parent_id j \<noteq> pi_parent_id i) (pi_dependencies i))
       else []) items)"

definition describe_malformed_tree :: "plan_item list \<Rightarrow> tree_problem list" where
  "describe_malformed_tree items =
     (let known = known_items items
      in concat (map (parent_problem known) items) @ describe_parent_cycles items known @
         describe_cross_level_dependencies items known)"

section \<open>Views\<close>

record plan_tree =
  by_id :: "(ident \<times> plan_item) list"
  by_parent :: "(ident \<times> plan_item list) list"

fun dict_append :: "'k \<Rightarrow> 'v \<Rightarrow> ('k \<times> 'v list) list \<Rightarrow> ('k \<times> 'v list) list" where
  "dict_append k v [] = [(k, [v])]"
| "dict_append k v ((k', vs) # d) = (if k' = k then (k', vs @ [v]) # d else (k', vs) # dict_append k v d)"

definition tree_of :: "plan_item list \<Rightarrow> plan_tree" where
  "tree_of items =
     \<lparr>by_id = fold (\<lambda>i. AList.update (pi_id i) i) items [],
      by_parent = fold (\<lambda>i d. case pi_parent_id i of None \<Rightarrow> d | Some p \<Rightarrow> dict_append p i d) items []\<rparr>"

definition workstreams :: "plan_tree \<Rightarrow> plan_item list" where
  "workstreams tr = filter (\<lambda>i. pi_parent_id i = None) (map snd (by_id tr))"

definition children :: "plan_tree \<Rightarrow> ident \<Rightarrow> plan_item list" where
  "children tr k = (case map_of (by_parent tr) k of None \<Rightarrow> [] | Some cs \<Rightarrow> cs)"

definition is_container :: "plan_tree \<Rightarrow> ident \<Rightarrow> bool" where
  "is_container tr k \<longleftrightarrow> children tr k \<noteq> []"

definition parent_of :: "plan_tree \<Rightarrow> ident \<Rightarrow> ident option" where
  "parent_of tr k = (case map_of (by_id tr) k of None \<Rightarrow> None | Some i \<Rightarrow> pi_parent_id i)"

partial_function (option) depth_loop :: "plan_tree \<Rightarrow> nat \<Rightarrow> ident option \<Rightarrow> nat option" where
  "depth_loop tr level current =
     (case current of None \<Rightarrow> Some level | Some k \<Rightarrow> depth_loop tr (Suc level) (parent_of tr k))"

definition depth :: "plan_tree \<Rightarrow> ident \<Rightarrow> nat option" where
  "depth tr k = depth_loop tr 0 (parent_of tr k)"

record subtree_step =
  ss_title :: string
  ss_position :: nat

definition siblings :: "plan_tree \<Rightarrow> plan_item \<Rightarrow> plan_item list" where
  "siblings tr i = (case pi_parent_id i of None \<Rightarrow> workstreams tr | Some p \<Rightarrow> children tr p)"

text \<open>\<open>next((at for at, s in enumerate(siblings) if s.id == i.id), 0)\<close>.\<close>

definition position :: "plan_tree \<Rightarrow> plan_item \<Rightarrow> nat" where
  "position tr i =
     (let ids = map pi_id (siblings tr i) in if pi_id i \<in> set ids then index_of (pi_id i) ids else 0)"

partial_function (option) address_loop ::
  "plan_tree \<Rightarrow> subtree_step list \<Rightarrow> plan_item option \<Rightarrow> subtree_step list option" where
  "address_loop tr chain current =
     (case current of
        None \<Rightarrow> Some (rev chain)
      | Some i \<Rightarrow>
          address_loop tr (chain @ [\<lparr>ss_title = pi_title i, ss_position = position tr i\<rparr>])
            (case pi_parent_id i of None \<Rightarrow> None | Some p \<Rightarrow> map_of (by_id tr) p))"

definition address :: "plan_tree \<Rightarrow> ident \<Rightarrow> subtree_step list option" where
  "address tr k = address_loop tr [] (map_of (by_id tr) k)"

definition child_ids :: "plan_tree \<Rightarrow> ident set" where
  "child_ids tr = pi_id ` (\<Union>(k, cs) \<in> set (by_parent tr). set cs)"

lemma children_ids: "pi_id ` set (children tr k) \<subseteq> child_ids tr"
  unfolding children_def child_ids_def by (cases "map_of (by_parent tr) k") (force dest: map_of_SomeD)+

text \<open>The frontier with its end first.\<close>

function subtree_loop :: "plan_tree \<Rightarrow> ident set \<Rightarrow> ident list \<Rightarrow> ident set" where
  "subtree_loop tr found [] = found"
| "subtree_loop tr found (current # frontier) =
     (if current \<in> found then subtree_loop tr found frontier
      else subtree_loop tr (insert current found) (rev (map pi_id (children tr current)) @ frontier))"
  by pat_completeness auto
termination
proof (relation "measures [\<lambda>(tr, found, frontier). card ((set frontier \<union> child_ids tr) - found),
    \<lambda>(tr, found, frontier). length frontier]", simp, goal_cases)
  case (1 tr found current frontier)
  then show ?case by (auto simp: insert_Diff_if)
next
  case (2 tr found current frontier)
  have fin: "finite (child_ids tr)" by (auto simp: child_ids_def)
  have "(set (rev (map pi_id (children tr current)) @ frontier) \<union> child_ids tr) - insert current found
      \<subset> (set (current # frontier) \<union> child_ids tr) - found"
    using 2 children_ids[of tr current] by auto
  then have "card ((set (rev (map pi_id (children tr current)) @ frontier) \<union> child_ids tr) - insert current found)
      < card ((set (current # frontier) \<union> child_ids tr) - found)"
    using fin by (intro psubset_card_mono) auto
  then show ?case by simp
qed

definition subtree_ids :: "plan_tree \<Rightarrow> ident \<Rightarrow> ident set" where
  "subtree_ids tr k = subtree_loop tr {} [k]"

text \<open>The stack with its end first; the flag says the children were pushed.\<close>

partial_function (option) below_loop ::
  "plan_tree \<Rightarrow> plan_item list \<Rightarrow> (plan_item \<times> bool) list \<Rightarrow> plan_item list option" where
  "below_loop tr out pending =
     (case pending of
        [] \<Rightarrow> Some out
      | (node, expanded) # rest \<Rightarrow>
          if expanded then below_loop tr (out @ [node]) rest
          else below_loop tr out (map (\<lambda>c. (c, False)) (children tr (pi_id node)) @ (node, True) # rest))"

definition below :: "plan_tree \<Rightarrow> plan_item \<Rightarrow> plan_item list option" where
  "below tr i = below_loop tr [] [(i, False)]"

fun below_all :: "plan_tree \<Rightarrow> plan_item list \<Rightarrow> plan_item list option" where
  "below_all tr [] = Some []"
| "below_all tr (i # is) =
     (case below tr i of None \<Rightarrow> None
      | Some xs \<Rightarrow> (case below_all tr is of None \<Rightarrow> None | Some ys \<Rightarrow> Some (xs @ ys)))"

definition deepest_first :: "plan_tree \<Rightarrow> plan_item list option" where
  "deepest_first tr = below_all tr (workstreams tr)"

declare reduce_parents.simps [simp del]
declare depth_loop.simps [code] address_loop.simps [code] below_loop.simps [code]

section \<open>Cycles and stuck sets\<close>

lemma cyclic_stuck: "\<not> acyclic R \<Longrightarrow> \<exists>A. A \<noteq> {} \<and> (\<forall>x \<in> A. \<exists>y \<in> A. (y, x) \<in> R)"
proof -
  assume "\<not> acyclic R"
  then obtain x where x: "(x, x) \<in> R\<^sup>+" by (auto simp: acyclic_def)
  let ?A = "{y. (y, x) \<in> R\<^sup>+ \<and> (x, y) \<in> R\<^sup>+}"
  have "\<exists>z \<in> ?A. (z, y) \<in> R" if "y \<in> ?A" for y
  proof -
    from that obtain z where z: "(x, z) \<in> R\<^sup>*" "(z, y) \<in> R" by (auto dest: tranclD2)
    then have "(x, z) \<in> R\<^sup>+" using x by (auto simp: rtrancl_eq_or_trancl)
    moreover have "(z, x) \<in> R\<^sup>+" using z(2) that by (auto intro: trancl_into_trancl2)
    ultimately show ?thesis using z(2) by blast
  qed
  with x show ?thesis by (intro exI[of _ ?A]) auto
qed

lemma acyclic_not_stuck:
  assumes "finite R" and "acyclic R" and "\<And>x. x \<in> A \<Longrightarrow> \<exists>y \<in> A. (y, x) \<in> R"
  shows "A = {}"
proof (rule ccontr)
  assume "A \<noteq> {}"
  then obtain x where "x \<in> A" "\<And>y. (y, x) \<in> R \<Longrightarrow> y \<notin> A"
    using finite_acyclic_wf[OF assms(1,2)] by (metis ex_in_conv wfE_min)
  with assms(3) show False by blast
qed

text \<open>
  A check that drops what waits for nothing, until nothing can be dropped: what it
  leaves over waits within itself, and whatever waits within itself is never dropped.
  That much makes it exact.
\<close>

locale cycle_check =
  fixes input_ok :: "'i \<Rightarrow> bool" and edges :: "'i \<Rightarrow> ('a \<times> 'a) set" and left_over :: "'i \<Rightarrow> 'a set"
  assumes finite_edges: "input_ok i \<Longrightarrow> finite (edges i)"
    and waits_within: "input_ok i \<Longrightarrow> x \<in> left_over i \<Longrightarrow> \<exists>y \<in> left_over i. (y, x) \<in> edges i"
    and never_dropped: "input_ok i \<Longrightarrow> (\<And>x. x \<in> A \<Longrightarrow> \<exists>y \<in> A. (y, x) \<in> edges i) \<Longrightarrow> A \<subseteq> left_over i"
begin

lemma exact:
  assumes "input_ok i"
  shows "left_over i = {} \<longleftrightarrow> acyclic (edges i)"
proof
  assume nil: "left_over i = {}"
  show "acyclic (edges i)"
  proof (rule ccontr)
    assume "\<not> acyclic (edges i)"
    from cyclic_stuck[OF this] obtain A where "A \<noteq> {}" "\<And>x. x \<in> A \<Longrightarrow> \<exists>y \<in> A. (y, x) \<in> edges i" by metis
    with never_dropped[OF assms, of A] nil show False by blast
  qed
next
  assume "acyclic (edges i)"
  from acyclic_not_stuck[OF finite_edges[OF assms] this waits_within[OF assms]] show "left_over i = {}" .
qed

end

section \<open>What the dictionaries of a plan hold\<close>

lemma update_new: "k \<notin> fst ` set al \<Longrightarrow> AList.update k v al = al @ [(k, v)]"
  by (induction al) auto

lemma fold_update:
  assumes "distinct (map f xs)" and "f ` set xs \<inter> fst ` set al = {}"
  shows "fold (\<lambda>x d. case P x of None \<Rightarrow> d | Some v \<Rightarrow> AList.update (f x) v d) xs al =
    al @ List.map_filter (\<lambda>x. map_option (Pair (f x)) (P x)) xs"
  using assms
proof (induction xs arbitrary: al)
  case (Cons x xs)
  show ?case
  proof (cases "P x")
    case None
    with Cons show ?thesis by (simp add: map_filter_simps)
  next
    case (Some v)
    then have u: "AList.update (f x) v al = al @ [(f x, v)]" using Cons.prems by (intro update_new) auto
    have "f ` set xs \<inter> fst ` set (al @ [(f x, v)]) = {}" using Cons.prems by auto
    with Some u show ?thesis using Cons.IH[of "al @ [(f x, v)]"] Cons.prems(1) by (simp add: map_filter_simps)
  qed
qed (simp add: map_filter_simps)

lemma by_id_tree: "distinct (map pi_id items) \<Longrightarrow> fold (\<lambda>i. AList.update (pi_id i) i) items [] = map (\<lambda>i. (pi_id i, i)) items"
  using fold_update[of pi_id items "[]" Some] by (simp add: map_filter_def comp_def)

lemma known_items_iff:
  assumes "distinct (map pi_id items)"
  shows "known_items items k = Some i \<longleftrightarrow> i \<in> set items \<and> pi_id i = k"
  using assms by (force simp: known_items_def by_id_tree map_of_eq_Some_iff comp_def)

lemma known_items_None:
  "distinct (map pi_id items) \<Longrightarrow> known_items items k = None \<longleftrightarrow> k \<notin> pi_id ` set items"
  by (force simp: known_items_def by_id_tree map_of_eq_None_iff)

lemma map_of_dict_append: "map_of (dict_append k v d) x = (if x = k then Some (get_or_empty (map_of d) k @ [v]) else map_of d x)"
  by (induction k v d rule: dict_append.induct) (auto simp: get_or_empty_def)

lemma children_tree: "children (tree_of items) k = filter (\<lambda>i. pi_parent_id i = Some k) items"
proof -
  have "get_or_empty (map_of (fold (\<lambda>i d. case pi_parent_id i of None \<Rightarrow> d | Some p \<Rightarrow> dict_append p i d) items d)) k =
      get_or_empty (map_of d) k @ filter (\<lambda>i. pi_parent_id i = Some k) items" for d
  proof (induction items arbitrary: d)
    case (Cons i items)
    show ?case
    proof (cases "pi_parent_id i")
      case (Some p)
      then show ?thesis using Cons.IH[of "dict_append p i d"] by (simp add: get_or_empty_def map_of_dict_append)
    qed (simp add: Cons.IH)
  qed simp
  from this[of "[]"] show ?thesis by (simp add: children_def tree_of_def get_or_empty_def)
qed

lemma by_id_of: "distinct (map pi_id items) \<Longrightarrow> map_of (by_id (tree_of items)) = known_items items"
  by (simp add: tree_of_def known_items_def)

lemma workstreams_tree: "distinct (map pi_id items) \<Longrightarrow> workstreams (tree_of items) = filter (\<lambda>i. pi_parent_id i = None) items"
  by (simp add: workstreams_def tree_of_def by_id_tree comp_def)

section \<open>Exactly the trees are accepted\<close>

definition contains :: "plan_item list \<Rightarrow> (ident \<times> ident) set" where
  "contains items = {(p, pi_id i) | p i. i \<in> set items \<and> pi_parent_id i = Some p}"

lemma finite_contains [simp]: "finite (contains items)"
proof -
  have "contains items \<subseteq> (\<lambda>i. (the (pi_parent_id i), pi_id i)) ` set items" by (force simp: contains_def)
  then show ?thesis by (rule finite_subset) simp
qed

lemma reduce_parents_subset: "set (reduce_parents pd) \<subseteq> set pd"
proof (induction pd rule: reduce_parents.induct)
  case (1 pd)
  then show ?case by (subst reduce_parents.simps) (auto simp: Let_def)
qed

lemma reduce_parents_stuck: "(k, p) \<in> set (reduce_parents pd) \<Longrightarrow> p \<in> fst ` set (reduce_parents pd)"
proof (induction pd rule: reduce_parents.induct)
  case (1 pd)
  let ?s = "filter (\<lambda>(k, p). p \<notin> set (map fst pd)) pd"
  show ?case
  proof (cases "?s = []")
    case True
    then have eq: "reduce_parents pd = pd" by (subst reduce_parents.simps) (simp add: Let_def)
    with True "1.prems" show ?thesis by (auto simp: filter_empty_conv)
  next
    case False
    then have eq: "reduce_parents pd = reduce_parents (filter (\<lambda>(k, p). k \<notin> set (map fst ?s)) pd)"
      by (subst reduce_parents.simps) (simp only: Let_def if_False)
    show ?thesis unfolding eq by (rule "1.IH"[OF refl False "1.prems"[unfolded eq]])
  qed
qed

lemma reduce_parents_keeps:
  "distinct (map fst pd) \<Longrightarrow> C \<subseteq> set pd \<Longrightarrow> (\<And>k p. (k, p) \<in> C \<Longrightarrow> p \<in> fst ` C) \<Longrightarrow> C \<subseteq> set (reduce_parents pd)"
proof (induction pd rule: reduce_parents.induct)
  case (1 pd)
  let ?s = "filter (\<lambda>(k, p). p \<notin> set (map fst pd)) pd"
  show ?case
  proof (cases "?s = []")
    case True
    then show ?thesis using "1.prems"(2) by (subst reduce_parents.simps) (simp add: Let_def)
  next
    case False
    then have eq: "reduce_parents pd = reduce_parents (filter (\<lambda>(k, p). k \<notin> set (map fst ?s)) pd)"
      by (subst reduce_parents.simps) (simp only: Let_def if_False)
    have "k \<notin> set (map fst ?s)" if "(k, p) \<in> C" for k p
    proof
      assume "k \<in> set (map fst ?s)"
      then obtain q where q: "(k, q) \<in> set pd" "q \<notin> fst ` set pd" by auto
      have "(k, p) \<in> set pd" using that "1.prems"(2) by blast
      with q(1) have "q = p" using "1.prems"(1) eq_key_imp_eq_value by fastforce
      moreover have "p \<in> fst ` set pd" using "1.prems"(2) "1.prems"(3)[OF that] by blast
      ultimately show False using q(2) by simp
    qed
    then have "C \<subseteq> set (filter (\<lambda>(k, p). k \<notin> set (map fst ?s)) pd)" using "1.prems"(2) by auto
    moreover have "distinct (map fst (filter (\<lambda>(k, p). k \<notin> set (map fst ?s)) pd))"
      using "1.prems"(1) by (rule distinct_map_filter)
    ultimately show ?thesis unfolding eq using "1.IH"[OF refl False] "1.prems"(3) by blast
  qed
qed


definition tree_wf :: "plan_item list \<Rightarrow> bool" where
  "tree_wf items \<longleftrightarrow>
     (\<forall>i \<in> set items. \<forall>p. pi_parent_id i = Some p \<longrightarrow> (\<exists>j \<in> set items. pi_id j = p \<and> pi_kind j \<noteq> DECISION)) \<and>
     acyclic (contains items) \<and>
     (\<forall>i \<in> set items. \<forall>j \<in> set items. pi_id j \<in> set (pi_dependencies i) \<longrightarrow> pi_parent_id j = pi_parent_id i)"

definition parent_links :: "plan_item list \<Rightarrow> (ident \<times> ident) list" where
  "parent_links items =
     List.map_filter (\<lambda>i. map_option (Pair (pi_id i)) (resolved_parent (known_items items) i)) items"

lemma set_parent_links:
  assumes "distinct (map pi_id items)"
  shows "set (parent_links items) =
    {(pi_id i, p) | i p. i \<in> set items \<and> pi_parent_id i = Some p \<and> p \<in> pi_id ` set items}"
proof -
  have "resolved_parent (known_items items) i = Some p \<longleftrightarrow> pi_parent_id i = Some p \<and> p \<in> pi_id ` set items" for i p
    using known_items_None[OF assms, of p] by (auto simp: resolved_parent_def split: option.splits)
  note r = this
  have "set (parent_links items) =
      {(pi_id i, p) | i p. i \<in> set items \<and> resolved_parent (known_items items) i = Some p}"
    by (force simp: parent_links_def map_filter_def)
  then show ?thesis unfolding r by blast
qed

lemma distinct_parent_links: "distinct (map pi_id items) \<Longrightarrow> distinct (map fst (parent_links items))"
proof -
  have "map fst (parent_links items) = map pi_id (filter (\<lambda>i. resolved_parent (known_items items) i \<noteq> None) items)"
    by (auto simp: parent_links_def map_filter_def intro!: map_cong filter_cong)
  then show "distinct (map pi_id items) \<Longrightarrow> distinct (map fst (parent_links items))"
    by (simp add: distinct_map_filter)
qed

interpretation parent_check: cycle_check "\<lambda>items. distinct (map pi_id items)" contains
  "\<lambda>items. fst ` set (reduce_parents (parent_links items))"
proof
  fix items x assume "distinct (map pi_id items)" "x \<in> fst ` set (reduce_parents (parent_links items))"
  then obtain p where xp: "(x, p) \<in> set (reduce_parents (parent_links items))" by auto
  with reduce_parents_subset have "(x, p) \<in> set (parent_links items)" by blast
  then have "(p, x) \<in> contains items"
    unfolding set_parent_links[OF \<open>distinct (map pi_id items)\<close>] by (auto simp: contains_def)
  with reduce_parents_stuck[OF xp] show "\<exists>y \<in> fst ` set (reduce_parents (parent_links items)). (y, x) \<in> contains items" by blast
next
  fix items and A :: "ident set"
  assume d: "distinct (map pi_id items)" and A: "\<And>x. x \<in> A \<Longrightarrow> \<exists>y \<in> A. (y, x) \<in> contains items"
  have ids: "A \<subseteq> pi_id ` set items" using A by (auto simp: contains_def)
  let ?C = "{(k, p) \<in> set (parent_links items). k \<in> A \<and> p \<in> A}"
  have keys: "k \<in> fst ` ?C" if k: "k \<in> A" for k
  proof -
    obtain p i where "p \<in> A" "i \<in> set items" "pi_parent_id i = Some p" "pi_id i = k"
      using A[OF k] by (auto simp: contains_def)
    with ids have "(k, p) \<in> set (parent_links items)" unfolding set_parent_links[OF d] by auto
    with k \<open>p \<in> A\<close> show ?thesis by (intro image_eqI[of _ _ "(k, p)"]) auto
  qed
  have "?C \<subseteq> set (reduce_parents (parent_links items))"
    using keys by (intro reduce_parents_keeps[OF distinct_parent_links[OF d]]) auto
  with keys show "A \<subseteq> fst ` set (reduce_parents (parent_links items))" by blast
qed simp

lemma describe_parent_cycles_Nil:
  assumes "distinct (map pi_id items)"
  shows "describe_parent_cycles items (known_items items) = [] \<longleftrightarrow> acyclic (contains items)"
proof -
  have "fold (\<lambda>i d. case resolved_parent (known_items items) i of None \<Rightarrow> d | Some p \<Rightarrow> AList.update (pi_id i) p d) items []
      = parent_links items"
    unfolding parent_links_def using fold_update[of pi_id items "[]" "resolved_parent (known_items items)"] assms by simp
  then show ?thesis using parent_check.exact[OF assms] by (simp add: describe_parent_cycles_def Let_def)
qed

lemma describe_malformed_tree_Nil:
  assumes "distinct (map pi_id items)"
  shows "describe_malformed_tree items = [] \<longleftrightarrow> tree_wf items"
proof -
  let ?known = "known_items items"
  have parents: "parent_problem ?known i = [] \<longleftrightarrow>
      (\<forall>p. pi_parent_id i = Some p \<longrightarrow> (\<exists>j \<in> set items. pi_id j = p \<and> pi_kind j \<noteq> DECISION))" for i
  proof (cases "pi_parent_id i")
    case (Some p)
    show ?thesis
    proof (cases "?known p")
      case None
      with Some show ?thesis using known_items_None[OF assms, of p] by (auto simp: parent_problem_def)
    next
      case (Some held)
      then have h: "held \<in> set items" "pi_id held = p" using known_items_iff[OF assms] by auto
      have "j = held" if "j \<in> set items" "pi_id j = p" for j
        using known_items_iff[OF assms, of p j] that Some by simp
      with h have "(\<exists>j \<in> set items. pi_id j = p \<and> pi_kind j \<noteq> DECISION) \<longleftrightarrow> pi_kind held \<noteq> DECISION" by blast
      then show ?thesis by (simp add: parent_problem_def Some \<open>pi_parent_id i = Some p\<close>)
    qed
  qed (simp add: parent_problem_def)
  have levels: "describe_cross_level_dependencies items ?known = [] \<longleftrightarrow>
      (\<forall>i \<in> set items. \<forall>j \<in> set items. pi_id j \<in> set (pi_dependencies i) \<longrightarrow> pi_parent_id j = pi_parent_id i)"
    if "\<forall>i \<in> set items. parent_problem ?known i = []"
  proof -
    have res: "(case pi_parent_id i of None \<Rightarrow> True | Some p \<Rightarrow> ?known p \<noteq> None) = True" if "i \<in> set items" for i
      using that \<open>\<forall>i \<in> set items. parent_problem ?known i = []\<close>
      by (auto simp: parent_problem_def split: option.splits)
    have "(case ?known d of None \<Rightarrow> False | Some j \<Rightarrow> pi_parent_id j \<noteq> q) \<longleftrightarrow>
        (\<exists>j \<in> set items. pi_id j = d \<and> pi_parent_id j \<noteq> q)" for d q
      using known_items_iff[OF assms, of d] known_items_None[OF assms, of d] by (cases "?known d") (auto, metis)
    then show ?thesis
      by (auto simp: describe_cross_level_dependencies_def filter_empty_conv res)
  qed
  show ?thesis
    using levels parents describe_parent_cycles_Nil[OF assms]
    by (auto simp: describe_malformed_tree_def tree_wf_def Let_def)
qed


section \<open>The walks of a tree\<close>

text \<open>The walks are followed on the relation of the items' ids; upwards it has one way to go.\<close>

definition containment :: "plan_item list \<Rightarrow> bool" where
  "containment items \<longleftrightarrow> distinct (map pi_id items) \<and> tree_wf items"

lemma unique: "containment items \<Longrightarrow> distinct (map pi_id items)"
  by (simp add: containment_def)

lemma item_eq: "containment items \<Longrightarrow> i \<in> set items \<Longrightarrow> j \<in> set items \<Longrightarrow> pi_id i = pi_id j \<Longrightarrow> i = j"
  by (auto simp: containment_def distinct_map dest: inj_onD)

lemma wf_up: "containment items \<Longrightarrow> wf (contains items)"
  by (intro finite_acyclic_wf) (simp_all add: containment_def tree_wf_def)

lemma wf_down: "containment items \<Longrightarrow> wf ((contains items)\<inverse>)"
  by (intro finite_acyclic_wf_converse) (simp_all add: containment_def tree_wf_def)

lemma parent_item:
  "containment items \<Longrightarrow> i \<in> set items \<Longrightarrow> pi_parent_id i = Some p \<Longrightarrow> \<exists>j \<in> set items. pi_id j = p"
  by (auto simp: containment_def tree_wf_def)

lemma contains_iff:
  "containment items \<Longrightarrow> i \<in> set items \<Longrightarrow> (p, pi_id i) \<in> contains items \<longleftrightarrow> pi_parent_id i = Some p"
  by (auto simp: contains_def dest: item_eq)

lemma one_parent: "containment items \<Longrightarrow> single_valued ((contains items)\<inverse>)"
  unfolding single_valued_def contains_def by simp (metis item_eq option.inject)

lemma lookup: "containment items \<Longrightarrow> i \<in> set items \<Longrightarrow> map_of (by_id (tree_of items)) (pi_id i) = Some i"
  using known_items_iff[OF unique] by (simp add: by_id_of[OF unique])

lemma lookup_None: "containment items \<Longrightarrow> k \<notin> pi_id ` set items \<Longrightarrow> map_of (by_id (tree_of items)) k = None"
  using known_items_None[OF unique] by (simp add: by_id_of[OF unique])

lemma parent_of_item: "containment items \<Longrightarrow> i \<in> set items \<Longrightarrow> parent_of (tree_of items) (pi_id i) = pi_parent_id i"
  by (simp add: parent_of_def lookup)

lemma item_induct [consumes 2, case_names item]:
  assumes "containment items" and "i \<in> set items"
    and "\<And>i. i \<in> set items \<Longrightarrow> (\<And>j. j \<in> set items \<Longrightarrow> pi_parent_id i = Some (pi_id j) \<Longrightarrow> P j) \<Longrightarrow> P i"
  shows "P i"
proof -
  have "\<forall>i \<in> set items. pi_id i = k \<longrightarrow> P i" for k
  proof (induction k rule: wf_induct_rule[OF wf_up[OF assms(1)]])
    case (1 k)
    show ?case
    proof (intro ballI impI)
      fix i assume i: "i \<in> set items" "pi_id i = k"
      show "P i"
      proof (rule assms(3)[OF i(1)])
        fix j assume "j \<in> set items" "pi_parent_id i = Some (pi_id j)"
        with 1[of "pi_id j"] i contains_iff[OF assms(1) i(1)] show "P j" by simp
      qed
    qed
  qed
  with assms(2) show ?thesis by blast
qed

lemma depth_loop_Some: "depth_loop tr n (Some k) = depth_loop tr (Suc n) (parent_of tr k)"
  by (subst depth_loop.simps) simp

lemma depth_loop_item:
  assumes "containment items" and "i \<in> set items"
  shows "\<exists>d. \<forall>n. depth_loop (tree_of items) n (pi_parent_id i) = Some (n + d)"
  using assms
proof (induction rule: item_induct)
  case (item i)
  show ?case
  proof (cases "pi_parent_id i")
    case None
    then show ?thesis by (simp add: depth_loop.simps)
  next
    case (Some p)
    then obtain j where j: "j \<in> set items" "pi_id j = p" using parent_item[OF assms(1)] item(1) by blast
    with item(2) Some obtain d where "\<And>n. depth_loop (tree_of items) n (pi_parent_id j) = Some (n + d)" by blast
    then have "depth_loop (tree_of items) n (Some p) = Some (n + Suc d)" for n
      using parent_of_item[OF assms(1) j(1)] j(2) by (simp add: depth_loop_Some)
    with Some show ?thesis by auto
  qed
qed

lemma depth_item:
  assumes "containment items" and "i \<in> set items"
  shows "\<exists>d. depth (tree_of items) (pi_id i) = Some d \<and>
    (case pi_parent_id i of None \<Rightarrow> d = 0 | Some p \<Rightarrow> \<exists>e. depth (tree_of items) p = Some e \<and> d = Suc e)"
proof (cases "pi_parent_id i")
  case None
  then show ?thesis using assms by (simp add: depth_def parent_of_item depth_loop.simps)
next
  case (Some p)
  then obtain j where j: "j \<in> set items" "pi_id j = p" using parent_item[OF assms] by blast
  from depth_loop_item[OF assms(1) j(1)]
  obtain e where e: "\<And>n. depth_loop (tree_of items) n (pi_parent_id j) = Some (n + e)" by blast
  then have "depth (tree_of items) p = Some e"
    using parent_of_item[OF assms(1) j(1)] j(2) by (simp add: depth_def)
  moreover have "depth (tree_of items) (pi_id i) = Some (Suc e)"
    using e parent_of_item[OF assms(1) j(1)] j(2) parent_of_item[OF assms] Some by (simp add: depth_def depth_loop_Some)
  ultimately show ?thesis using Some by simp
qed

lemma depth_unknown: "containment items \<Longrightarrow> k \<notin> pi_id ` set items \<Longrightarrow> depth (tree_of items) k = Some 0"
  by (simp add: depth_def parent_of_def lookup_None depth_loop.simps)

text \<open>Addresses.\<close>

definition step_of :: "plan_tree \<Rightarrow> plan_item \<Rightarrow> subtree_step" where
  "step_of tr i = \<lparr>ss_title = pi_title i, ss_position = position tr i\<rparr>"

lemma address_loop_Some:
  "address_loop tr chain (Some i) = address_loop tr (chain @ [step_of tr i])
     (case pi_parent_id i of None \<Rightarrow> None | Some p \<Rightarrow> map_of (by_id tr) p)"
  by (subst address_loop.simps) (simp add: step_of_def)

lemma address_loop_item:
  assumes "containment items" and "i \<in> set items"
  shows "\<exists>a. (\<forall>chain. address_loop (tree_of items) chain (Some i) = Some (a @ [step_of (tree_of items) i] @ rev chain)) \<and>
    (case pi_parent_id i of None \<Rightarrow> a = [] | Some p \<Rightarrow> address (tree_of items) p = Some a)"
  using assms
proof (induction rule: item_induct)
  case (item i)
  show ?case
  proof (cases "pi_parent_id i")
    case None
    then have "address_loop (tree_of items) chain (Some i) = address_loop (tree_of items) (chain @ [step_of (tree_of items) i]) None" for chain
      by (simp only: address_loop_Some[of _ chain] option.case)
    moreover have "address_loop (tree_of items) chain None = Some (rev chain)" for chain
      by (subst address_loop.simps) simp
    ultimately show ?thesis using None by simp
  next
    case (Some p)
    then obtain j where j: "j \<in> set items" "pi_id j = p" using parent_item[OF assms(1)] item(1) by blast
    with item(2) Some obtain b where b:
      "\<And>chain. address_loop (tree_of items) chain (Some j) = Some (b @ [step_of (tree_of items) j] @ rev chain)" by blast
    have l: "map_of (by_id (tree_of items)) p = Some j" using lookup[OF assms(1) j(1)] j(2) by simp
    have "address (tree_of items) p = Some (b @ [step_of (tree_of items) j])"
      using b[of "[]"] l by (simp add: address_def)
    moreover have "address_loop (tree_of items) chain (Some i) =
        Some ((b @ [step_of (tree_of items) j]) @ [step_of (tree_of items) i] @ rev chain)" for chain
      using b l Some by (simp add: address_loop_Some[of _ chain])
    ultimately show ?thesis using Some by auto
  qed
qed

lemma address_item:
  assumes "containment items" and "i \<in> set items"
  shows "\<exists>a. address (tree_of items) (pi_id i) = Some (a @ [step_of (tree_of items) i]) \<and>
    (case pi_parent_id i of None \<Rightarrow> a = [] | Some p \<Rightarrow> address (tree_of items) p = Some a)"
proof -
  from address_loop_item[OF assms] obtain a where
    a: "\<And>chain. address_loop (tree_of items) chain (Some i) = Some (a @ [step_of (tree_of items) i] @ rev chain)"
    "case pi_parent_id i of None \<Rightarrow> a = [] | Some p \<Rightarrow> address (tree_of items) p = Some a" by blast
  have "address (tree_of items) (pi_id i) = Some (a @ [step_of (tree_of items) i])"
    using a(1)[of "[]"] lookup[OF assms] by (simp add: address_def)
  with a(2) show ?thesis by blast
qed

lemma siblings_item:
  assumes "containment items" and "i \<in> set items"
  shows "siblings (tree_of items) i = filter (\<lambda>j. pi_parent_id j = pi_parent_id i) items"
  using workstreams_tree[OF unique[OF assms(1)]] children_tree
  by (cases "pi_parent_id i") (simp_all add: siblings_def)

lemma position_inj:
  assumes "containment items" and "i \<in> set items" and "j \<in> set items"
    and "pi_parent_id i = pi_parent_id j" and "position (tree_of items) i = position (tree_of items) j"
  shows "i = j"
proof -
  let ?ids = "map pi_id (filter (\<lambda>k. pi_parent_id k = pi_parent_id i) items)"
  have m: "pi_id i \<in> set ?ids" "pi_id j \<in> set ?ids" using assms(2-4) by auto
  then have "index_of (pi_id i) ?ids = index_of (pi_id j) ?ids"
    using assms(5) siblings_item[OF assms(1,2)] siblings_item[OF assms(1,3)] assms(4)
    by (simp add: position_def Let_def)
  from index_of_inject[OF m(1) this] show ?thesis by (rule item_eq[OF assms(1-3)])
qed

lemma address_inj:
  assumes "containment items" and "i \<in> set items" and "j \<in> set items"
    and "address (tree_of items) (pi_id i) = Some a" and "address (tree_of items) (pi_id j) = Some b"
    and "map ss_position a = map ss_position b"
  shows "i = j"
  using assms(1,2,3-)
proof (induction i arbitrary: j a b rule: item_induct)
  case (item i)
  let ?s = "step_of (tree_of items)"
  from address_item[OF assms(1) item(1)] item.prems(2) obtain a' where
    a: "a = a' @ [?s i]" "case pi_parent_id i of None \<Rightarrow> a' = [] | Some p \<Rightarrow> address (tree_of items) p = Some a'"
    by auto
  from address_item[OF assms(1) item.prems(1)] item.prems(3) obtain b' where
    b: "b = b' @ [?s j]" "case pi_parent_id j of None \<Rightarrow> b' = [] | Some p \<Rightarrow> address (tree_of items) p = Some b'"
    by auto
  have pos: "map ss_position a' = map ss_position b'" "position (tree_of items) i = position (tree_of items) j"
    using item.prems(4) a(1) b(1) by (auto simp: step_of_def)
  have known: "x \<noteq> []" if k: "pi_parent_id k = Some p" "k \<in> set items" "address (tree_of items) p = Some x" for k p x
  proof -
    obtain l where "l \<in> set items" "pi_id l = p" using parent_item[OF assms(1) k(2,1)] by blast
    with address_item[OF assms(1), of l] k(3) show ?thesis by auto
  qed
  have "pi_parent_id i = pi_parent_id j"
  proof (cases "pi_parent_id i")
    case None
    with a(2) pos(1) b(2) known[OF _ item.prems(1)] show ?thesis by (cases "pi_parent_id j") auto
  next
    case (Some p)
    with a(2) have ap: "address (tree_of items) p = Some a'" by simp
    obtain k where k: "k \<in> set items" "pi_id k = p" using parent_item[OF assms(1) item(1) Some] by blast
    from known[OF Some item(1) ap] pos(1) b(2) obtain q where q: "pi_parent_id j = Some q" "address (tree_of items) q = Some b'"
      by (cases "pi_parent_id j") auto
    obtain l where l: "l \<in> set items" "pi_id l = q" using parent_item[OF assms(1) item.prems(1) q(1)] by blast
    from item(2)[OF k(1) _ l(1) _ _ pos(1)] Some k(2) l(2) ap q have "k = l" by simp
    with k(2) l(2) Some q(1) show ?thesis by simp
  qed
  from position_inj[OF assms(1) item(1) item.prems(1) this pos(2)] show ?case .
qed

text \<open>Walks downwards.\<close>

lemma item_induct_down [consumes 2, case_names item]:
  assumes "containment items" and "i \<in> set items"
    and "\<And>i. i \<in> set items \<Longrightarrow> (\<And>j. j \<in> set items \<Longrightarrow> pi_parent_id j = Some (pi_id i) \<Longrightarrow> P j) \<Longrightarrow> P i"
  shows "P i"
proof -
  have "\<forall>i \<in> set items. pi_id i = k \<longrightarrow> P i" for k
  proof (induction k rule: wf_induct_rule[OF wf_down[OF assms(1)]])
    case (1 k)
    show ?case
    proof (intro ballI impI)
      fix i assume i: "i \<in> set items" "pi_id i = k"
      show "P i"
      proof (rule assms(3)[OF i(1)])
        fix j assume j: "j \<in> set items" "pi_parent_id j = Some (pi_id i)"
        with 1[of "pi_id j"] i contains_iff[OF assms(1) j(1)] show "P j" by simp
      qed
    qed
  qed
  with assms(2) show ?thesis by blast
qed

definition descendants :: "plan_item list \<Rightarrow> plan_item \<Rightarrow> plan_item set" where
  "descendants items i = {j \<in> set items. (pi_id i, pi_id j) \<in> (contains items)\<^sup>*}"

lemma ancestor_chain:
  "containment items \<Longrightarrow> (a, x) \<in> (contains items)\<^sup>* \<Longrightarrow> (b, x) \<in> (contains items)\<^sup>* \<Longrightarrow>
     (a, b) \<in> (contains items)\<^sup>* \<or> (b, a) \<in> (contains items)\<^sup>*"
  using single_valued_confluent[OF one_parent, of items x a b] by (auto simp: rtrancl_converse)

lemma sibling_not_above:
  assumes "containment items" and "i \<in> set items" and "j \<in> set items"
    and "pi_parent_id i = pi_parent_id j" and "(pi_id i, pi_id j) \<in> (contains items)\<^sup>*"
  shows "i = j"
proof (rule ccontr)
  assume "i \<noteq> j"
  then have "pi_id i \<noteq> pi_id j" using item_eq[OF assms(1-3)] by blast
  with assms(5) have "(pi_id i, pi_id j) \<in> (contains items)\<^sup>+" by (auto simp: rtrancl_eq_or_trancl)
  then obtain p where p: "(pi_id i, p) \<in> (contains items)\<^sup>*" "(p, pi_id j) \<in> contains items" by (auto dest: tranclD2)
  with assms have "(p, pi_id i) \<in> contains items" by (simp add: contains_iff)
  with p(1) have "(p, p) \<in> (contains items)\<^sup>+" by (rule rtrancl_into_trancl2[rotated])
  with assms(1) show False by (auto simp: containment_def tree_wf_def acyclic_def)
qed

lemma siblings_disjoint:
  assumes "containment items" and "i \<in> set items" and "j \<in> set items"
    and "pi_parent_id i = pi_parent_id j" and "i \<noteq> j"
  shows "descendants items i \<inter> descendants items j = {}"
proof -
  have "\<not> (pi_id i, pi_id j) \<in> (contains items)\<^sup>*" "\<not> (pi_id j, pi_id i) \<in> (contains items)\<^sup>*"
    using sibling_not_above[OF assms(1-4)] sibling_not_above[OF assms(1,3,2) assms(4)[symmetric]] assms(5) by auto
  then show ?thesis using ancestor_chain[OF assms(1)] by (fastforce simp: descendants_def)
qed

lemma descendants_step:
  assumes "containment items" and "i \<in> set items"
  shows "descendants items i = insert i (\<Union>c \<in> set (children (tree_of items) (pi_id i)). descendants items c)"
proof -
  have "j = i \<or> (\<exists>c \<in> set (children (tree_of items) (pi_id i)). j \<in> descendants items c)"
    if j: "j \<in> descendants items i" for j
  proof (cases "pi_id i = pi_id j")
    case True
    with item_eq[OF assms] j show ?thesis by (auto simp: descendants_def)
  next
    case False
    with j obtain x where x: "(pi_id i, x) \<in> contains items" "(x, pi_id j) \<in> (contains items)\<^sup>*"
      by (auto simp: descendants_def elim: converse_rtranclE)
    then obtain c where "c \<in> set items" "pi_id c = x" "pi_parent_id c = Some (pi_id i)" by (auto simp: contains_def)
    with x(2) j show ?thesis by (auto simp: children_tree descendants_def)
  qed
  moreover have "descendants items c \<subseteq> descendants items i" if c: "c \<in> set (children (tree_of items) (pi_id i))" for c
  proof -
    have "(pi_id i, pi_id c) \<in> contains items" using c by (auto simp: children_tree contains_def)
    then show ?thesis by (auto simp: descendants_def intro: converse_rtrancl_into_rtrancl)
  qed
  ultimately show ?thesis using assms(2) by (auto simp: descendants_def)
qed

definition assembles :: "plan_item list \<Rightarrow> plan_item list \<Rightarrow> plan_item list \<Rightarrow> bool" where
  "assembles items cs xs \<longleftrightarrow>
     set xs = (\<Union>c \<in> set cs. descendants items c) \<and> distinct xs \<and> ordered ((contains items)\<inverse>) {} (map pi_id xs)"

lemma assembles_Cons:
  assumes "assembles items [c] xs" and "assembles items cs ys"
    and "\<And>d. d \<in> set cs \<Longrightarrow> descendants items c \<inter> descendants items d = {}"
  shows "assembles items (c # cs) (xs @ ys)"
proof -
  have "ordered ((contains items)\<inverse>) (pi_id ` set xs) (map pi_id ys)"
    using assms(2) ordered_mono unfolding assembles_def by blast
  with assms show ?thesis by (auto simp: assembles_def ordered_append)
qed

lemma siblings_forest:
  assumes "containment items" and "\<And>c. c \<in> set cs \<Longrightarrow> \<exists>xs. Q [c] xs \<and> assembles items [c] xs"
    and "distinct cs" and "set cs \<subseteq> {c \<in> set items. pi_parent_id c = p}"
    and "Q [] []" and "\<And>c cs xs ys. Q [c] xs \<Longrightarrow> Q cs ys \<Longrightarrow> Q (c # cs) (xs @ ys)"
  shows "\<exists>xs. Q cs xs \<and> assembles items cs xs"
  using assms(2-4)
proof (induction cs)
  case Nil
  with assms(5) show ?case by (intro exI[of _ "[]"]) (simp add: assembles_def)
next
  case (Cons c cs)
  then obtain xs ys where "Q [c] xs" "assembles items [c] xs" "Q cs ys" "assembles items cs ys" by force
  moreover have "descendants items c \<inter> descendants items d = {}" if "d \<in> set cs" for d
    using that Cons.prems by (intro siblings_disjoint[OF assms(1)]) auto
  ultimately show ?case using assembles_Cons assms(6) by blast
qed

lemma below_loop_False:
  "below_loop tr out ((i, False) # rest) =
     below_loop tr out (map (\<lambda>c. (c, False)) (children tr (pi_id i)) @ (i, True) # rest)"
  by (subst below_loop.simps) simp

lemma below_loop_True: "below_loop tr out ((i, True) # rest) = below_loop tr (out @ [i]) rest"
  by (subst below_loop.simps) simp

abbreviation emits :: "plan_tree \<Rightarrow> plan_item list \<Rightarrow> plan_item list \<Rightarrow> bool" where
  "emits tr cs xs \<equiv> \<forall>out rest. below_loop tr out (map (\<lambda>c. (c, False)) cs @ rest) = below_loop tr (out @ xs) rest"

lemma children_items: "distinct (map pi_id items) \<Longrightarrow> distinct (children (tree_of items) k)"
  by (auto simp: children_tree distinct_map)

lemma below_item:
  assumes "containment items" and "i \<in> set items"
  shows "\<exists>xs. emits (tree_of items) [i] xs \<and> assembles items [i] xs"
  using assms
proof (induction rule: item_induct_down)
  case (item i)
  let ?cs = "children (tree_of items) (pi_id i)"
  have "\<exists>xs. emits (tree_of items) ?cs xs \<and> assembles items ?cs xs"
  proof (rule siblings_forest[OF assms(1), where p = "Some (pi_id i)"])
    show "\<exists>xs. emits (tree_of items) [c] xs \<and> assembles items [c] xs" if "c \<in> set ?cs" for c
      using item(2)[of c] that by (simp add: children_tree)
    show "distinct ?cs" using children_items[OF unique[OF assms(1)]] .
  qed (auto simp: children_tree)
  then obtain xs where xs: "emits (tree_of items) ?cs xs" "assembles items ?cs xs" by blast
  have emit: "emits (tree_of items) [i] (xs @ [i])"
    using xs(1) by (simp add: below_loop_False below_loop_True)
  have kids: "d \<in> pi_id ` set xs" if d: "(pi_id i, d) \<in> contains items" for d
  proof -
    obtain c where c: "c \<in> set items" "pi_id c = d" "pi_parent_id c = Some (pi_id i)" using d by (auto simp: contains_def)
    then have "c \<in> descendants items c" "c \<in> set ?cs" by (auto simp: descendants_def children_tree)
    with xs(2) c(2) show ?thesis by (auto simp: assembles_def)
  qed
  have "i \<notin> set xs"
  proof
    assume "i \<in> set xs"
    with xs(2) obtain c where c: "c \<in> set ?cs" "(pi_id c, pi_id i) \<in> (contains items)\<^sup>*"
      by (auto simp: assembles_def descendants_def)
    then have "(pi_id i, pi_id c) \<in> contains items" by (auto simp: children_tree contains_def)
    with c(2) have "(pi_id i, pi_id i) \<in> (contains items)\<^sup>+" by (rule rtrancl_into_trancl2[rotated])
    with assms(1) show False by (auto simp: containment_def tree_wf_def acyclic_def)
  qed
  with xs(2) kids have "assembles items [i] (xs @ [i])"
    by (auto simp: assembles_def descendants_step[OF assms(1) item(1)] ordered_append)
  with emit show ?case by blast
qed

lemma deepest_first_tree:
  assumes "containment items"
  shows "\<exists>xs. deepest_first (tree_of items) = Some xs \<and> assembles items (workstreams (tree_of items)) xs"
  unfolding deepest_first_def
proof (rule siblings_forest[OF assms, where p = None and Q = "\<lambda>cs xs. below_all (tree_of items) cs = Some xs"])
  show "\<exists>xs. below_all (tree_of items) [c] = Some xs \<and> assembles items [c] xs"
    if "c \<in> set (workstreams (tree_of items))" for c
  proof -
    have "c \<in> set items" using that workstreams_tree[OF unique[OF assms]] by simp
    from below_item[OF assms this] obtain xs where xs: "emits (tree_of items) [c] xs" "assembles items [c] xs" by blast
    have "below_loop (tree_of items) xs [] = Some xs" by (subst below_loop.simps) simp
    with xs(1)[rule_format, of "[]" "[]"] xs(2) show ?thesis by (auto simp: below_def)
  qed
  show "distinct (workstreams (tree_of items))"
    using unique[OF assms] by (simp add: workstreams_tree distinct_map)
qed (use workstreams_tree[OF unique[OF assms]] in \<open>auto split: option.splits\<close>)

lemma workstreams_cover:
  assumes "containment items"
  shows "(\<Union>c \<in> set (workstreams (tree_of items)). descendants items c) = set items"
proof -
  have "\<exists>c \<in> set (workstreams (tree_of items)). i \<in> descendants items c" if "i \<in> set items" for i
    using assms that
  proof (induction rule: item_induct)
    case (item i)
    show ?case
    proof (cases "pi_parent_id i")
      case None
      with item(1) show ?thesis by (auto simp: workstreams_tree[OF unique[OF assms]] descendants_def)
    next
      case (Some p)
      obtain j where j: "j \<in> set items" "pi_id j = p" using parent_item[OF assms item(1) Some] by blast
      with item(2) Some obtain c where c: "c \<in> set (workstreams (tree_of items))" "j \<in> descendants items c" by blast
      have "(pi_id j, pi_id i) \<in> contains items" using contains_iff[OF assms item(1)] Some j(2) by simp
      with c(2) item(1) have "i \<in> descendants items c" by (auto simp: descendants_def)
      with c(1) show ?thesis by blast
    qed
  qed
  then show ?thesis by (auto simp: descendants_def)
qed

definition child_links :: "plan_tree \<Rightarrow> (ident \<times> ident) set" where
  "child_links tr = {(k, pi_id c) | k c. c \<in> set (children tr k)}"

lemma child_links_tree: "child_links (tree_of items) = contains items"
  by (auto simp: child_links_def contains_def children_tree)

lemma subtree_loop_spec:
  assumes "\<And>x y. x \<in> found \<Longrightarrow> (x, y) \<in> child_links tr \<Longrightarrow> y \<in> found \<union> set frontier"
  shows "subtree_loop tr found frontier = (child_links tr)\<^sup>* `` (found \<union> set frontier)"
  using assms
proof (induction tr found frontier rule: subtree_loop.induct)
  case (1 tr found)
  then have "child_links tr `` found \<subseteq> found" by auto
  then show ?case by (simp add: Image_closed_trancl)
next
  case (2 tr found current frontier)
  let ?R = "child_links tr"
  show ?case
  proof (cases "current \<in> found")
    case True
    moreover have "subtree_loop tr found frontier = ?R\<^sup>* `` (found \<union> set frontier)"
      using "2.prems" True by (intro "2.IH"(1)) auto
    ultimately show ?thesis by (simp add: insert_absorb)
  next
    case False
    let ?kids = "rev (map pi_id (children tr current)) @ frontier"
    have "subtree_loop tr (insert current found) ?kids = ?R\<^sup>* `` (insert current found \<union> set ?kids)"
    proof (rule "2.IH"(2)[OF False])
      show "y \<in> insert current found \<union> set ?kids" if "x \<in> insert current found" "(x, y) \<in> ?R" for x y
        using that "2.prems"[of x y] by (auto simp: child_links_def)
    qed
    also have "\<dots> = ?R\<^sup>* `` (found \<union> set (current # frontier)) \<union> ?R\<^sup>* `` pi_id ` set (children tr current)"
      by auto
    also have "\<dots> = ?R\<^sup>* `` (found \<union> set (current # frontier))"
    proof -
      have "(current, pi_id c) \<in> ?R" if "c \<in> set (children tr current)" for c
        using that by (auto simp: child_links_def)
      then have "?R\<^sup>* `` pi_id ` set (children tr current) \<subseteq> ?R\<^sup>* `` {current}"
        by (auto intro: converse_rtrancl_into_rtrancl)
      then show ?thesis by auto
    qed
    finally show ?thesis using False by simp
  qed
qed

lemma subtree_ids_tree: "subtree_ids (tree_of items) k = (contains items)\<^sup>* `` {k}"
  unfolding subtree_ids_def using subtree_loop_spec[of "{}" "tree_of items" "[k]"] by (simp add: child_links_tree)

section \<open>Properties of the views\<close>

lemma accepted_containment:
  "distinct (map pi_id items) \<Longrightarrow> describe_malformed_tree items = [] \<Longrightarrow> containment items"
  by (simp add: containment_def describe_malformed_tree_Nil)

lemma deepest_first_spec:
  assumes "containment items"
  shows "\<exists>xs. deepest_first (tree_of items) = Some xs \<and> mset xs = mset items \<and>
    ordered ((contains items)\<inverse>) {} (map pi_id xs)"
proof -
  obtain xs where xs: "deepest_first (tree_of items) = Some xs" "assembles items (workstreams (tree_of items)) xs"
    using deepest_first_tree[OF assms] by blast
  then have "set xs = set items" "distinct xs" by (auto simp: assembles_def workstreams_cover[OF assms])
  then have "mset xs = mset items"
    using unique[OF assms] by (simp add: distinct_map set_eq_iff_mset_eq_distinct)
  with xs show ?thesis by (auto simp: assembles_def)
qed

text \<open>
  C31. A plan whose items the tree check accepts can be walked for assembly, however
  deep it is: the walk returns, it emits every item exactly once, and each item comes
  before the container it was split out of.
\<close>

theorem deepest_first_assembles:
  assumes "distinct (map pi_id items)" and "describe_malformed_tree items = []"
  shows "\<exists>xs. deepest_first (tree_of items) = Some xs \<and> mset xs = mset items \<and>
    (\<forall>i \<in> set items. \<forall>p. pi_parent_id i = Some p \<longrightarrow>
       index_of (pi_id i) (map pi_id xs) < index_of p (map pi_id xs))"
proof -
  note ok = accepted_containment[OF assms]
  obtain xs where xs: "deepest_first (tree_of items) = Some xs" "mset xs = mset items"
      "ordered ((contains items)\<inverse>) {} (map pi_id xs)"
    using deepest_first_spec[OF ok] by blast
  have "index_of (pi_id i) (map pi_id xs) < index_of p (map pi_id xs)"
    if i: "i \<in> set items" "pi_parent_id i = Some p" for i p
  proof -
    have e: "(pi_id i, p) \<in> (contains items)\<inverse>" using i by (auto simp: contains_def)
    obtain j where "j \<in> set items" "pi_id j = p" using parent_item[OF ok i] by blast
    then have "p \<in> set (map pi_id xs)" using xs(2) by (metis image_eqI list.set_map set_mset_mset)
    from ordered_index[OF xs(3) e this] show ?thesis by simp
  qed
  with xs show ?thesis by blast
qed

text \<open>
  Every item of an accepted plan has a depth and an address: a workstream sits at
  depth zero and an item one below its container; its address has one step per level
  and extends its container's; what \<open>subtree_ids\<close> collects is the item with everything
  below it; and two items never share the positions of an address, whatever their
  titles.
\<close>

theorem addresses_are_unique:
  assumes "distinct (map pi_id items)" and "describe_malformed_tree items = []"
    and "i \<in> set items" and "j \<in> set items"
  shows "\<exists>d a b. depth (tree_of items) (pi_id i) = Some d \<and>
    (case pi_parent_id i of None \<Rightarrow> d = 0 | Some p \<Rightarrow> \<exists>e. depth (tree_of items) p = Some e \<and> d = Suc e) \<and>
    address (tree_of items) (pi_id i) = Some a \<and> length a = Suc d \<and>
    (case pi_parent_id i of None \<Rightarrow> True | Some p \<Rightarrow> address (tree_of items) p = Some (butlast a)) \<and>
    subtree_ids (tree_of items) (pi_id i) = (contains items)\<^sup>* `` {pi_id i} \<and>
    address (tree_of items) (pi_id j) = Some b \<and> (map ss_position a = map ss_position b \<longrightarrow> i = j)"
proof -
  note ok = accepted_containment[OF assms(1,2)]
  have len: "\<forall>d a. depth (tree_of items) (pi_id i) = Some d \<longrightarrow> address (tree_of items) (pi_id i) = Some a \<longrightarrow>
      length a = Suc d" if "i \<in> set items" for i
    using ok that
  proof (induction rule: item_induct)
    case (item i)
    show ?case
    proof (cases "pi_parent_id i")
      case None
      with depth_item[OF ok item(1)] address_item[OF ok item(1)] show ?thesis by auto
    next
      case (Some p)
      obtain k where "k \<in> set items" "pi_id k = p" using parent_item[OF ok item(1) Some] by blast
      with Some item(2)[of k] depth_item[OF ok item(1)] address_item[OF ok item(1)] show ?thesis by auto
    qed
  qed
  obtain d where d: "depth (tree_of items) (pi_id i) = Some d"
      "case pi_parent_id i of None \<Rightarrow> d = 0 | Some p \<Rightarrow> \<exists>e. depth (tree_of items) p = Some e \<and> d = Suc e"
    using depth_item[OF ok assms(3)] by blast
  obtain a where a: "address (tree_of items) (pi_id i) = Some (a @ [step_of (tree_of items) i])"
      "case pi_parent_id i of None \<Rightarrow> a = [] | Some p \<Rightarrow> address (tree_of items) p = Some a"
    using address_item[OF ok assms(3)] by blast
  obtain b where b: "address (tree_of items) (pi_id j) = Some b"
    using address_item[OF ok assms(4)] by blast
  have "map ss_position (a @ [step_of (tree_of items) i]) = map ss_position b \<Longrightarrow> i = j"
    using address_inj[OF ok assms(3,4) a(1) b] .
  moreover have "length (a @ [step_of (tree_of items) i]) = Suc d" using len[OF assms(3)] d(1) a(1) by blast
  moreover have "case pi_parent_id i of None \<Rightarrow> True
      | Some p \<Rightarrow> address (tree_of items) p = Some (butlast (a @ [step_of (tree_of items) i]))"
    using a(2) by (cases "pi_parent_id i") simp_all
  ultimately show ?thesis using d a(1) b subtree_ids_tree by blast
qed

section \<open>A tree of three items\<close>

definition demo_item :: "ident \<Rightarrow> ident option \<Rightarrow> ident list \<Rightarrow> plan_item" where
  "demo_item k parent ds =
     \<lparr>pi_id = k, pi_title = ''setup'', pi_description = ''d'', pi_parent_id = parent, pi_dependencies = ds,
      pi_owner = None, pi_acceptance_criteria = [''works''], pi_expected_artifacts = [''out.py''],
      pi_required_skills = [], pi_required_tags = [], pi_estimated_complexity = COMPLEXITY_MEDIUM,
      pi_stakes = STAKES_NORMAL, pi_kind = WORK, pi_options = [], pi_chosen_option_id = None,
      pi_satisfies = [], pi_unsplit_reason = None\<rparr>"

abbreviation demo_a :: ident where
  "demo_a \<equiv> ''0a000000-0000-4000-8000-000000000000''"

abbreviation demo_b :: ident where
  "demo_b \<equiv> ''0b000000-0000-4000-8000-000000000000''"

abbreviation demo_c :: ident where
  "demo_c \<equiv> ''0c000000-0000-4000-8000-000000000000''"

definition demo_items :: "plan_item list" where
  "demo_items = [demo_item demo_a None [], demo_item demo_b (Some demo_a) [], demo_item demo_c (Some demo_a) [demo_b]]"

lemma demo_items_accepted: "distinct (map pi_id demo_items)" "describe_malformed_tree demo_items = []"
  by code_simp+

theorem deepest_first_assembles_witness:
  "map_option (map pi_id) (deepest_first (tree_of demo_items)) = Some [demo_b, demo_c, demo_a] \<and>
   (\<exists>xs. deepest_first (tree_of demo_items) = Some xs \<and> mset xs = mset demo_items)"
proof -
  have "map_option (map pi_id) (deepest_first (tree_of demo_items)) = Some [demo_b, demo_c, demo_a]" by code_simp
  with deepest_first_assembles[OF demo_items_accepted] show ?thesis by blast
qed

end
