(* ===== verification/Plan_Entity.thy ===== *)
theory Plan_Entity
  imports Plan_Tree
begin

text \<open>
  The durable plan itself (\<open>core/plan.py\<close>): its fields, the rules a plan answers for
  when it is constructed, and the one way it is failed.

  An aware datetime is an instant; a naive one is told apart because \<open>fail\<close> refuses it.
  The panel review and the decomposition progress are opaque text.
\<close>

section \<open>Plans\<close>

datatype py_datetime = Aware int | Naive int

record plan_version_snapshot =
  vs_version :: int
  vs_items :: "plan_item list"
  vs_task_structure :: task_structure
  vs_captured_at :: int

record plan =
  p_id :: ident
  p_project :: string
  p_project_name :: string
  p_objective_id :: string
  p_objective_title :: string
  p_parent_task_id :: ident
  p_items :: "plan_item list"
  p_task_structure :: task_structure
  p_coordination_topology :: coordination_topology
  p_status :: plan_status
  p_failure_reason :: "string option"
  p_forecast_id :: "ident option"
  p_review :: "string option"
  p_open_questions :: "string list"
  p_assumptions :: "string list"
  p_planning_strategy :: "string option"
  p_review_absent_reason :: "string option"
  p_decomposition_progress :: "string option"
  p_objective_criteria :: "string list"
  p_version_history :: "plan_version_snapshot list"
  p_replan_generation :: int
  p_version :: int
  p_created_at :: py_datetime
  p_updated_at :: py_datetime

definition MAX_PLAN_VERSION_HISTORY :: nat where
  "MAX_PLAN_VERSION_HISTORY = 20"

definition MAX_OBJECTIVE_CRITERIA :: nat where
  "MAX_OBJECTIVE_CRITERIA = 100"

fun is_aware :: "py_datetime \<Rightarrow> bool" where
  "is_aware (Aware _) = True"
| "is_aware (Naive _) = False"

definition plan_entity_fields_ok :: "plan \<Rightarrow> bool" where
  "plan_entity_fields_ok p \<longleftrightarrow>
     list_all not_blank ([p_project p, p_project_name p, p_objective_id p, p_objective_title p, p_parent_task_id p] @
       p_open_questions p @ p_assumptions p @ p_objective_criteria p) \<and>
     opt_all not_blank (p_failure_reason p) \<and> opt_all not_blank (p_planning_strategy p) \<and>
     opt_all not_blank (p_review_absent_reason p) \<and>
     length (p_objective_criteria p) \<le> MAX_OBJECTIVE_CRITERIA \<and>
     length (p_version_history p) \<le> MAX_PLAN_VERSION_HISTORY \<and>
     list_all (\<lambda>v. 1 \<le> vs_version v \<and> list_all (\<lambda>i. validate_item i = Inr ()) (vs_items v)) (p_version_history p) \<and>
     0 \<le> p_replan_generation p \<and> 1 \<le> p_version p \<and> is_aware (p_created_at p) \<and> is_aware (p_updated_at p)"

section \<open>Validation\<close>

fun first_missing :: "ident list \<Rightarrow> plan_item list \<Rightarrow> (plan_error, unit) outcome" where
  "first_missing ids [] = Inr ()"
| "first_missing ids (i # is) =
     (let missing = filter (\<lambda>d. d \<notin> set ids) (pi_dependencies i)
      in if missing \<noteq> [] then Inl (Unknown_Items (pi_id i) missing) else first_missing ids is)"

text \<open>The loop of the dependency cycle check, on the dictionary from an item to what it still waits for.\<close>

function reduce_dependencies :: "(ident \<times> ident set) list \<Rightarrow> (ident \<times> ident set) list" where
  "reduce_dependencies pending =
     (let ready = map fst (filter (\<lambda>(k, ds). ds = {}) pending)
      in if ready = [] then pending
         else reduce_dependencies
           (map (\<lambda>(k, ds). (k, ds - set ready)) (filter (\<lambda>(k, ds). k \<notin> set ready) pending)))"
  by pat_completeness auto
termination
proof (relation "measure length", simp, goal_cases)
  case (1 pending ready)
  then obtain k where "(k, {}) \<in> set pending" by (auto simp: filter_empty_conv)
  moreover from this have "k \<in> set ready" unfolding 1(1) by force
  ultimately have "length (filter (\<lambda>(k, ds). k \<notin> set ready) pending) < length pending"
    by (intro length_filter_less[of "(k, {})"]) auto
  then show ?case by simp
qed

declare reduce_dependencies.simps [simp del]

definition reject_dependency_cycle :: "plan_item list \<Rightarrow> (plan_error, unit) outcome" where
  "reject_dependency_cycle items =
     (let left = reduce_dependencies (fold (\<lambda>i. AList.update (pi_id i) (set (pi_dependencies i))) items [])
      in if left = [] then Inr () else Inl (Item_Cycle (sort (map fst left))))"

definition reject_malformed_tree :: "plan_item list \<Rightarrow> (plan_error, unit) outcome" where
  "reject_malformed_tree items =
     (let problems = describe_malformed_tree items
      in if problems = [] then Inr () else Inl (Malformed_Tree problems))"

definition validate_items :: "plan \<Rightarrow> (plan_error, unit) outcome" where
  "validate_items p =
     (let items = p_items p; ids = map pi_id items
      in if items = [] then (if p_status p \<in> ITEMLESS_STATUSES then Inr () else Inl No_Items)
         else if length ids \<noteq> length (remdups ids) then Inl (Repeated_Items (repeated_in ids))
         else first_error [first_missing ids items, reject_dependency_cycle items, reject_malformed_tree items])"

definition validate_failure_reason :: "plan \<Rightarrow> (plan_error, unit) outcome" where
  "validate_failure_reason p =
     (if p_status p = PL_FAILED \<and> p_failure_reason p = None then Inl Missing_Failure_Reason
      else if p_failure_reason p \<noteq> None \<and> p_status p \<noteq> PL_FAILED then Inl Stray_Failure_Reason
      else Inr ())"

definition plan_entity_valid :: "plan \<Rightarrow> bool" where
  "plan_entity_valid p \<longleftrightarrow>
     plan_entity_fields_ok p \<and> list_all (\<lambda>i. validate_item i = Inr ()) (p_items p) \<and>
     validate_items p = Inr () \<and> validate_failure_reason p = Inr ()"

text \<open>\<open>model_copy\<close> runs no validator.\<close>

definition fail :: "string \<Rightarrow> py_datetime \<Rightarrow> plan \<Rightarrow> (plan_error, plan) outcome" where
  "fail reason now p =
     (if \<not> is_aware now then Inl Naive_Now
      else Inr (p\<lparr>p_status := PL_FAILED, p_failure_reason := Some reason,
                  p_version := p_version p + 1, p_updated_at := now\<rparr>))"

section \<open>The two cycle checks agree\<close>

lemma reduce_dependencies_stuck:
  assumes "\<And>k ds. (k, ds) \<in> set pd \<Longrightarrow> ds \<subseteq> fst ` set pd \<and> ds \<subseteq> {d. (d, k) \<in> E}"
    and "k \<in> fst ` set (reduce_dependencies pd)"
  shows "\<exists>d \<in> fst ` set (reduce_dependencies pd). (d, k) \<in> E"
  using assms
proof (induction pd rule: reduce_dependencies.induct)
  case (1 pd)
  let ?r = "map fst (filter (\<lambda>(k, ds). ds = {}) pd)"
  let ?pd = "map (\<lambda>(k, ds). (k, ds - set ?r)) (filter (\<lambda>(k, ds). k \<notin> set ?r) pd)"
  show ?case
  proof (cases "?r = []")
    case True
    then have eq: "reduce_dependencies pd = pd" by (subst reduce_dependencies.simps) (simp add: Let_def)
    with "1.prems"(2) obtain ds where ds: "(k, ds) \<in> set pd" by force
    with True have "ds \<noteq> {}" by (auto simp: filter_empty_conv)
    with "1.prems"(1)[OF ds] eq show ?thesis by auto
  next
    case False
    then have eq: "reduce_dependencies pd = reduce_dependencies ?pd"
      by (subst reduce_dependencies.simps) (simp only: Let_def if_False)
    have "ds \<subseteq> fst ` set ?pd \<and> ds \<subseteq> {d. (d, k) \<in> E}" if m: "(k, ds) \<in> set ?pd" for k ds
    proof -
      from m obtain es where es: "(k, es) \<in> set pd" "ds = es - set ?r" by auto
      have "d \<in> fst ` set ?pd" if d: "d \<in> ds" for d
      proof -
        have "d \<in> fst ` set pd" "d \<notin> set ?r" using d "1.prems"(1)[OF es(1)] es(2) by auto
        then show ?thesis by force
      qed
      then show ?thesis using "1.prems"(1)[OF es(1)] es(2) by blast
    qed
    with "1.IH"[OF refl False] "1.prems"(2) show ?thesis unfolding eq by blast
  qed
qed

lemma reduce_dependencies_keeps:
  assumes "distinct (map fst pd)" and "C \<subseteq> fst ` set pd"
    and "\<And>k ds. (k, ds) \<in> set pd \<Longrightarrow> k \<in> C \<Longrightarrow> ds \<inter> C \<noteq> {}"
  shows "C \<subseteq> fst ` set (reduce_dependencies pd)"
  using assms
proof (induction pd rule: reduce_dependencies.induct)
  case (1 pd)
  let ?r = "map fst (filter (\<lambda>(k, ds). ds = {}) pd)"
  let ?pd = "map (\<lambda>(k, ds). (k, ds - set ?r)) (filter (\<lambda>(k, ds). k \<notin> set ?r) pd)"
  show ?case
  proof (cases "?r = []")
    case True
    with "1.prems"(2) show ?thesis by (subst reduce_dependencies.simps) (simp add: Let_def)
  next
    case False
    then have eq: "reduce_dependencies pd = reduce_dependencies ?pd"
      by (subst reduce_dependencies.simps) (simp only: Let_def if_False)
    have r: "C \<inter> set ?r = {}" using "1.prems"(3) by fastforce
    have keys: "map fst ?pd = map fst (filter (\<lambda>(k, ds). k \<notin> set ?r) pd)" by (simp add: case_prod_beta comp_def)
    have "distinct (map fst ?pd)" unfolding keys by (rule distinct_map_filter[OF "1.prems"(1)])
    moreover have "C \<subseteq> fst ` set ?pd"
    proof
      fix x assume x: "x \<in> C"
      then obtain ds where "(x, ds) \<in> set pd" "x \<notin> set ?r" using "1.prems"(2) r by force
      then show "x \<in> fst ` set ?pd" by force
    qed
    moreover have "ds \<inter> C \<noteq> {}" if m: "(k, ds) \<in> set ?pd" "k \<in> C" for k ds
    proof -
      from m(1) obtain es where "(k, es) \<in> set pd" "ds = es - set ?r" by auto
      with "1.prems"(3)[of k es] m(2) r show ?thesis by blast
    qed
    ultimately show ?thesis unfolding eq by (rule "1.IH"[OF refl False])
  qed
qed

definition item_graph :: "plan_item list \<Rightarrow> ident graph" where
  "item_graph items = map (\<lambda>i. \<lparr>sd_id = pi_id i, sd_dependencies = pi_dependencies i\<rparr>) items"

lemma subtask_ids_item_graph [simp]: "subtask_ids (item_graph items) = map pi_id items"
  by (simp add: subtask_ids_def item_graph_def)

lemma depends_item_graph:
  assumes "distinct (map pi_id items)"
  shows "depends (item_graph items) = {(d, pi_id i) | d i. i \<in> set items \<and> d \<in> set (pi_dependencies i)}"
proof -
  have "unique_ids (item_graph items)" using assms by (simp add: unique_ids_def)
  from depends_iff[OF this] show ?thesis by (auto simp: item_graph_def)
qed

lemma refs_ok_item_graph:
  "refs_ok (item_graph items) \<longleftrightarrow> (\<forall>i \<in> set items. set (pi_dependencies i) \<subseteq> pi_id ` set items)"
  by (simp add: refs_ok_def) (auto simp: item_graph_def)

lemma first_missing_Inr: "first_missing ids is = Inr () \<longleftrightarrow> (\<forall>i \<in> set is. set (pi_dependencies i) \<subseteq> set ids)"
  by (induction "is") (auto simp: Let_def filter_empty_conv)

definition waiting_links :: "plan_item list \<Rightarrow> (ident \<times> ident set) list" where
  "waiting_links items = map (\<lambda>i. (pi_id i, set (pi_dependencies i))) items"

interpretation dependency_check: cycle_check "\<lambda>items. distinct (map pi_id items) \<and> refs_ok (item_graph items)"
  "\<lambda>items. depends (item_graph items)" "\<lambda>items. fst ` set (reduce_dependencies (waiting_links items))"
proof
  fix items x
  assume ok: "distinct (map pi_id items) \<and> refs_ok (item_graph items)"
    and x: "x \<in> fst ` set (reduce_dependencies (waiting_links items))"
  show "\<exists>y \<in> fst ` set (reduce_dependencies (waiting_links items)). (y, x) \<in> depends (item_graph items)"
  proof (rule reduce_dependencies_stuck[OF _ x])
    fix k ds assume "(k, ds) \<in> set (waiting_links items)"
    then obtain i where i: "i \<in> set items" "pi_id i = k" "ds = set (pi_dependencies i)" by (auto simp: waiting_links_def)
    with ok have "ds \<subseteq> pi_id ` set items" by (simp add: refs_ok_item_graph)
    then have "ds \<subseteq> fst ` set (waiting_links items)" by (simp add: waiting_links_def image_image)
    moreover have "ds \<subseteq> {d. (d, k) \<in> depends (item_graph items)}"
      using i ok by (auto simp: depends_item_graph)
    ultimately show "ds \<subseteq> fst ` set (waiting_links items) \<and> ds \<subseteq> {d. (d, k) \<in> depends (item_graph items)}" by blast
  qed
next
  fix items and A :: "ident set"
  assume ok: "distinct (map pi_id items) \<and> refs_ok (item_graph items)"
    and A: "\<And>x. x \<in> A \<Longrightarrow> \<exists>y \<in> A. (y, x) \<in> depends (item_graph items)"
  note E = depends_item_graph[of items]
  show "A \<subseteq> fst ` set (reduce_dependencies (waiting_links items))"
  proof (rule reduce_dependencies_keeps)
    show "distinct (map fst (waiting_links items))" using ok by (simp add: waiting_links_def comp_def)
    show "A \<subseteq> fst ` set (waiting_links items)"
      using A ok by (force simp: E waiting_links_def)
    fix k ds assume m: "(k, ds) \<in> set (waiting_links items)" "k \<in> A"
    obtain i where i: "i \<in> set items" "pi_id i = k" "ds = set (pi_dependencies i)" using m(1) by (auto simp: waiting_links_def)
    obtain y j where y: "y \<in> A" "j \<in> set items" "pi_id j = k" "y \<in> set (pi_dependencies j)"
      using A[OF m(2)] ok by (auto simp: E)
    have "i = j" using i(1,2) y(2,3) ok by (auto simp: distinct_map dest: inj_onD)
    with i y show "ds \<inter> A \<noteq> {}" by blast
  qed
qed (simp add: finite_depends)

lemma reject_dependency_cycle_Inr:
  assumes "distinct (map pi_id items)" and "refs_ok (item_graph items)"
  shows "reject_dependency_cycle items = Inr () \<longleftrightarrow> acyclic (depends (item_graph items))"
proof -
  have "fold (\<lambda>i. AList.update (pi_id i) (set (pi_dependencies i))) items [] = waiting_links items"
    using fold_update[of pi_id items "[]" "\<lambda>i. Some (set (pi_dependencies i))"] assms(1)
    by (simp add: waiting_links_def map_filter_def comp_def)
  with dependency_check.exact[of items] assms show ?thesis by (simp add: reject_dependency_cycle_def Let_def)
qed

lemma length_remdups_iff: "length xs = length (remdups xs) \<longleftrightarrow> distinct xs"
  by (metis length_remdups_eq remdups_id_iff_distinct)

lemma validate_items_iff:
  "validate_items p = Inr () \<longleftrightarrow>
     (p_items p = [] \<and> p_status p \<in> ITEMLESS_STATUSES) \<or>
     (p_items p \<noteq> [] \<and> distinct (map pi_id (p_items p)) \<and>
      validate_graph (item_graph (p_items p)) = Inr () \<and> tree_wf (p_items p))"
proof (cases "p_items p = [] \<or> \<not> distinct (map pi_id (p_items p))")
  case False
  let ?items = "p_items p"
  from False have d: "distinct (map pi_id ?items)" by simp
  have "first_missing (map pi_id ?items) ?items = Inr () \<longleftrightarrow> refs_ok (item_graph ?items)"
    by (simp add: first_missing_Inr refs_ok_item_graph)
  moreover have "reject_malformed_tree ?items = Inr () \<longleftrightarrow> tree_wf ?items"
    using describe_malformed_tree_Nil[OF d] by (simp add: reject_malformed_tree_def Let_def)
  moreover have "validate_items p = Inr () \<longleftrightarrow>
      first_missing (map pi_id ?items) ?items = Inr () \<and> reject_dependency_cycle ?items = Inr () \<and>
      reject_malformed_tree ?items = Inr ()"
    using False length_remdups_iff[of "map pi_id ?items"] by (simp add: validate_items_def Let_def del: length_remdups_eq)
  ultimately show ?thesis
    using False reject_dependency_cycle_Inr[OF d] by (auto simp: validate_graph_iff)
next
  case True
  then show ?thesis
    using length_remdups_iff[of "map pi_id (p_items p)"]
    by (auto simp: validate_items_def Let_def simp del: length_remdups_eq)
qed

text \<open>
  C29. The rules of a plan's items accept exactly the plans that can be dispatched and
  assembled: an empty plan only while it is being planned or has failed; otherwise
  items with distinct ids whose dependencies pass the validation of the dependency
  graph the dispatcher builds (the plan's own reduction finds a cycle exactly when the
  graph's search does), whose containers exist, are not decisions and do not contain
  each other in a circle, and whose dependencies stay on their own level.
\<close>

theorem plan_items_accepted_iff:
  "validate_items p = Inr () \<longleftrightarrow>
     (p_items p = [] \<and> p_status p \<in> ITEMLESS_STATUSES) \<or>
     (p_items p \<noteq> [] \<and> distinct (map pi_id (p_items p)) \<and>
      validate_graph (item_graph (p_items p)) = Inr () \<and> tree_wf (p_items p))"
  by (rule validate_items_iff)

text \<open>
  C38. Failing a plan skips every validator and still keeps it valid: with a reason that
  is not blank and an aware time, a valid plan, whatever its status and items, becomes
  a valid failed plan that carries the reason, one version on; a naive time is refused.
\<close>

theorem fail_keeps_valid:
  assumes "plan_entity_valid p" and "not_blank reason"
  shows "case fail reason now p of
      Inl e \<Rightarrow> e = Naive_Now \<and> \<not> is_aware now
    | Inr q \<Rightarrow> is_aware now \<and> plan_entity_valid q \<and> p_status q = PL_FAILED \<and> p_failure_reason q = Some reason \<and>
        p_version q = p_version p + 1 \<and> p_items q = p_items p"
  using assms
  by (auto simp: fail_def plan_entity_valid_def plan_entity_fields_ok_def validate_items_iff
      validate_failure_reason_def ITEMLESS_STATUSES_def)

definition demo_plan :: plan where
  "demo_plan =
     \<lparr>p_id = demo_a, p_project = ''p'', p_project_name = ''P'', p_objective_id = ''o'', p_objective_title = ''O'',
      p_parent_task_id = ''goal'', p_items = demo_items, p_task_structure = MIXED,
      p_coordination_topology = TOPOLOGY_AUTO, p_status = PL_EXECUTING, p_failure_reason = None,
      p_forecast_id = None, p_review = None, p_open_questions = [], p_assumptions = [''offline''],
      p_planning_strategy = None, p_review_absent_reason = None, p_decomposition_progress = None,
      p_objective_criteria = [''works''], p_version_history = [], p_replan_generation = 0, p_version = 1,
      p_created_at = Aware 0, p_updated_at = Aware 0\<rparr>"

lemma demo_plan_valid: "plan_entity_valid demo_plan"
  by code_simp

theorem fail_keeps_valid_witness:
  "\<exists>q. fail ''timed out'' (Aware 7) demo_plan = Inr q \<and> plan_entity_valid q \<and> p_version q = 2"
proof -
  have "not_blank ''timed out''" by code_simp
  from fail_keeps_valid[OF demo_plan_valid this, of "Aware 7"] show ?thesis by (simp add: fail_def demo_plan_def)
qed

end
