(* ===== verification/Assembly.thy ===== *)
theory Assembly
  imports Plan_Tree Prompt_Fence
begin

text \<open>
  What a container dispatches instead of the work below it (\<open>engine/assembly.py\<close>): where
  its evidence goes, its brief, its stakes; and the context a plan adds to every task
  (\<open>engine/decomposition/plan_context.py\<close>).
\<close>

section \<open>Paths\<close>

definition ASSEMBLY_ROOT :: string where
  "ASSEMBLY_ROOT = ''.synthorg/integration''"

record assembly_paths =
  ap_report :: string
  ap_test_output :: string

definition declared :: "assembly_paths \<Rightarrow> string list" where
  "declared ps = [ap_report ps, ap_test_output ps]"

definition ROOT_ASSEMBLY_PATHS :: assembly_paths where
  "ROOT_ASSEMBLY_PATHS =
     \<lparr>ap_report = ASSEMBLY_ROOT @ ''/report.md'', ap_test_output = ASSEMBLY_ROOT @ ''/end-to-end.txt''\<rparr>"

definition SLUG_MAX_CHARS :: nat where
  "SLUG_MAX_CHARS = 40"

definition slug_char :: "char \<Rightarrow> bool" where
  "slug_char c \<longleftrightarrow> lower_letter c \<or> digit c"

text \<open>\<open>re.sub("[^a-z0-9]+", "-", s)\<close>.\<close>

function slug_sub :: "string \<Rightarrow> string" where
  "slug_sub [] = []"
| "slug_sub (c # cs) =
     (if slug_char c then c # slug_sub cs else CHR ''-'' # slug_sub (dropWhile (\<lambda>c. \<not> slug_char c) cs))"
  by pat_completeness auto
termination
  by (relation "measure length") (auto simp: less_Suc_eq_le length_dropWhile_le)

definition strip_dashes :: "string \<Rightarrow> string" where
  "strip_dashes s = rev (dropWhile ((=) CHR ''-'') (rev (dropWhile ((=) CHR ''-'') s)))"

text \<open>\<open>str(n)\<close> and \<open>f"{n:02d}"\<close> of a position.\<close>

fun decimal :: "nat \<Rightarrow> string" where
  "decimal n = (if n < 10 then [char_of (48 + n)] else decimal (n div 10) @ [char_of (48 + n mod 10)])"

declare decimal.simps [simp del]

definition two_digits :: "nat \<Rightarrow> string" where
  "two_digits n = (if n < 10 then CHR ''0'' # decimal n else decimal n)"

definition subtree_slug :: "subtree_step \<Rightarrow> string" where
  "subtree_slug st =
     (let stem = take SLUG_MAX_CHARS (strip_dashes (slug_sub (map lower_char (ss_title st))))
      in if stem \<noteq> [] then two_digits (ss_position st) @ ''-'' @ stem else two_digits (ss_position st))"

definition subtree_assembly_paths :: "subtree_step list \<Rightarrow> assembly_paths" where
  "subtree_assembly_paths addr =
     (let namespace = join ''/'' (map subtree_slug addr)
      in \<lparr>ap_report = ASSEMBLY_ROOT @ ''/'' @ namespace @ ''/report.md'',
          ap_test_output = ASSEMBLY_ROOT @ ''/'' @ namespace @ ''/end-to-end.txt''\<rparr>)"

section \<open>Briefs and stakes\<close>

definition assembly_title :: "string \<Rightarrow> string" where
  "assembly_title objective_title = ''Integrate: '' @ objective_title"

abbreviation newline :: string where
  "newline \<equiv> [CHR 0x0A]"

abbreviation apostrophe :: string where
  "apostrophe \<equiv> [CHR 0x27]"

definition build_assembly_brief ::
  "string \<Rightarrow> string list \<Rightarrow> string list \<Rightarrow> assembly_paths \<Rightarrow> (fence_error, string) outcome" where
  "build_assembly_brief objective_title pieces criteria paths =
     (let report = [''Objective: '' @ objective_title, ''The delivered pieces:''] @ map (\<lambda>t. ''- '' @ t) pieces @
            (if criteria = [] then []
             else ''The whole is only working when all of these hold:'' # map (\<lambda>c. ''- '' @ c) criteria)
      in case wrap_untrusted TAG_TASK_DATA (join newline report) of
           Inl e \<Rightarrow> Inl e
         | Inr fenced \<Rightarrow> Inr (join newline
             [''Every piece of this has been built and has passed its own review. None of that shows '' @
                ''they work together, which is what this job is for.'',
              ''Assemble the delivered work into one deliverable that actually runs, fix whatever only '' @
                ''shows up once the pieces meet, and prove it end to end by running it. A run that produces '' @
                ''no integrated deliverable and no test evidence is not an integration.'',
              ''Record what you did in `'' @ ap_report paths @ ''`: what you assembled, where the runnable '' @
                ''deliverable is, and what you had to fix. Put the end-to-end run'' @ apostrophe @ ''s own output, '' @
                ''verbatim, in `'' @ ap_test_output paths @ ''`. Both paths are relative to the project workspace, '' @
                ''and both are checked: a run that leaves them empty is recorded as having delivered nothing, '' @
                ''whatever it says here.'',
              fenced]))"

definition escalated_stakes :: "stakes list \<Rightarrow> stakes" where
  "escalated_stakes assembled =
     (let highest = (if assembled = [] then index_of STAKES_NORMAL STAKES_ORDER
                     else Max (set (map (\<lambda>s. index_of s STAKES_ORDER) assembled)))
      in STAKES_ORDER ! min (highest + 1) (length STAKES_ORDER - 1))"

record assembly =
  as_brief :: string
  as_paths :: assembly_paths
  as_stakes :: stakes

definition build_assembly ::
  "string \<Rightarrow> string list \<Rightarrow> string list \<Rightarrow> stakes list \<Rightarrow> subtree_step list \<Rightarrow> (fence_error, assembly) outcome" where
  "build_assembly title pieces criteria assembled addr =
     (let paths = subtree_assembly_paths addr
      in case build_assembly_brief title pieces criteria paths of
           Inl e \<Rightarrow> Inl e
         | Inr brief \<Rightarrow> Inr \<lparr>as_brief = brief, as_paths = paths, as_stakes = escalated_stakes assembled\<rparr>)"

section \<open>The context of a plan\<close>

definition plan_context_block :: "string list \<Rightarrow> string list \<Rightarrow> string" where
  "plan_context_block assumptions open_questions =
     (let settled = (if assumptions = [] then []
            else [''## Settled before this work was dispatched'',
                  ''These hold for this plan. Some were the planner'' @ apostrophe @ ''s assumptions and some '' @
                  ''are answers a human gave to questions the planner could not resolve; '' @
                  ''either way they are decided. Build on them rather than re-deciding them.''] @
                 map (\<lambda>a. ''- '' @ a) assumptions);
          unsettled = (if open_questions = [] then []
            else (if settled = [] then [] else [[]]) @
                 [''## Not decided yet'',
                  ''Nobody has answered these. Do not invent an answer and proceed as though '' @
                  ''it were settled: if one blocks your task, say so in your result rather than guessing.''] @
                 map (\<lambda>q. ''- '' @ q) open_questions)
      in join newline (settled @ unsettled))"

definition with_plan_context :: "string \<Rightarrow> string list \<Rightarrow> string list \<Rightarrow> string" where
  "with_plan_context description assumptions open_questions =
     (let block = plan_context_block assumptions open_questions
      in if block = [] then description else description @ newline @ newline @ block)"

section \<open>No two assemblies share a path\<close>

fun number :: "string \<Rightarrow> nat" where
  "number s = foldl (\<lambda>n c. 10 * n + (of_char c - 48)) 0 s"

lemma number_decimal: "number (decimal n) = n"
proof (induction n rule: decimal.induct)
  case (1 n)
  show ?case
  proof (cases "n < 10")
    case True
    then show ?thesis by (subst decimal.simps) simp
  next
    case False
    then have "number (decimal n) = 10 * number (decimal (n div 10)) + n mod 10"
      by (subst decimal.simps) simp
    with 1 False show ?thesis by simp
  qed
qed

lemma decimal_digits: "list_all digit (decimal n)"
proof (induction n rule: decimal.induct)
  case (1 n)
  have "digit (char_of (48 + m :: nat))" if "m < 10" for m using that by (simp add: digit_def)
  with 1 show ?case by (subst decimal.simps) (simp add: not_less)
qed

lemma number_two_digits: "number (two_digits n) = n"
  using number_decimal[of n] by (simp add: two_digits_def)

lemma two_digits_digits: "list_all digit (two_digits n)"
  using decimal_digits[of n] by (simp add: two_digits_def digit_def)

lemma subtree_slug_inj:
  assumes "subtree_slug s = subtree_slug t"
  shows "ss_position s = ss_position t"
proof -
  have "takeWhile digit (subtree_slug s) = two_digits (ss_position s)" for s
  proof -
    have "\<not> digit CHR ''-''" by code_simp
    moreover have "takeWhile digit (two_digits n) = two_digits n" for n
      using two_digits_digits[of n] by (simp add: takeWhile_eq_all_conv list_all_iff)
    ultimately show ?thesis
      using two_digits_digits[of "ss_position s"]
      by (simp add: subtree_slug_def Let_def takeWhile_append list_all_iff)
  qed
  with assms number_two_digits show ?thesis by metis
qed

lemma set_slug_sub: "c \<in> set (slug_sub s) \<Longrightarrow> slug_char c \<or> c = CHR ''-''"
  by (induction s rule: slug_sub.induct) (auto split: if_splits)

lemma slug_no_slash: "CHR ''/'' \<notin> set (subtree_slug st)"
proof -
  have n: "\<not> slug_char CHR ''/''" "\<not> digit CHR ''/''" by code_simp+
  have "CHR ''/'' \<notin> set (two_digits k)" for k
    using two_digits_digits[of k] n by (auto simp: list_all_iff)
  moreover have "set (strip_dashes s) \<subseteq> set s" for s
    by (auto simp: strip_dashes_def dest!: set_dropWhileD)
  then have "CHR ''/'' \<notin> set (take m (strip_dashes (slug_sub s)))" for m s
    using set_slug_sub[of "CHR ''/''" s] n by (auto dest!: in_set_takeD)
  ultimately show ?thesis by (auto simp: subtree_slug_def Let_def)
qed

lemma append_sep_inj:
  "x \<notin> set us \<Longrightarrow> x \<notin> set vs \<Longrightarrow> us @ x # as = vs @ x # bs \<longleftrightarrow> us = vs \<and> as = bs"
proof (induction us arbitrary: vs)
  case Nil
  then show ?case by (cases vs) auto
next
  case (Cons u us)
  then show ?case by (cases vs) auto
qed

lemma join_Cons: "join sep (x # xs) = (if xs = [] then x else x @ sep @ join sep xs)"
  by (cases xs) simp_all

lemma join_slash_inj:
  assumes "\<And>s. s \<in> set xs \<Longrightarrow> CHR ''/'' \<notin> set s" and "\<And>s. s \<in> set ys \<Longrightarrow> CHR ''/'' \<notin> set s"
    and "xs \<noteq> []" and "ys \<noteq> []" and "join ''/'' xs = join ''/'' ys"
  shows "xs = ys"
  using assms
proof (induction xs arbitrary: ys)
  case (Cons x xs)
  then obtain y ys' where ys: "ys = y # ys'" by (cases ys) auto
  have no: "CHR ''/'' \<notin> set x" "CHR ''/'' \<notin> set y" using Cons.prems(1,2) ys by auto
  show ?case
  proof (cases "xs = [] \<or> ys' = []")
    case True
    have "CHR ''/'' \<in> set (join ''/'' (z # zs))" if "zs \<noteq> []" for z zs using that by (simp add: join_Cons)
    with True Cons.prems(5) no show ?thesis unfolding ys by (metis join.simps(2))
  next
    case False
    then have "x @ CHR ''/'' # join ''/'' xs = y @ CHR ''/'' # join ''/'' ys'"
      using Cons.prems(5) ys by (simp add: join_Cons)
    then have "x = y" "join ''/'' xs = join ''/'' ys'" using append_sep_inj[OF no] by blast+
    with Cons.IH[of ys'] Cons.prems(1,2) False ys show ?thesis by simp
  qed
qed simp

lemma namespace_inj:
  assumes "a \<noteq> []" and "b \<noteq> []" and "join ''/'' (map subtree_slug a) = join ''/'' (map subtree_slug b)"
  shows "map ss_position a = map ss_position b"
proof -
  have "map subtree_slug a = map subtree_slug b"
    by (rule join_slash_inj) (use assms slug_no_slash in auto)
  then show ?thesis
  proof (induction a arbitrary: b)
    case (Cons x a)
    then obtain y b' where "b = y # b'" by (cases b) auto
    with Cons.prems Cons.IH[of b'] subtree_slug_inj[of x y] show ?case by simp
  qed simp
qed

lemma namespace_nonempty: "a \<noteq> [] \<Longrightarrow> join ''/'' (map subtree_slug a) \<noteq> []"
proof -
  have "decimal n \<noteq> []" for n by (subst decimal.simps) simp
  then have "subtree_slug st \<noteq> []" for st by (simp add: subtree_slug_def two_digits_def Let_def)
  then show "a \<noteq> [] \<Longrightarrow> join ''/'' (map subtree_slug a) \<noteq> []" by (cases a) (simp_all add: join_Cons)
qed

text \<open>
  No assembly of a plan overwrites another's evidence. Of two different items of an
  accepted plan, wherever they sit and whatever their titles are reduced to, neither
  declares a path the other declares, and neither declares a path of the root's own
  assembly.
\<close>

theorem evidence_never_shared:
  assumes "distinct (map pi_id items)" and "describe_malformed_tree items = []"
    and "i \<in> set items" and "j \<in> set items" and "i \<noteq> j"
  shows "\<exists>a b. address (tree_of items) (pi_id i) = Some a \<and> address (tree_of items) (pi_id j) = Some b \<and>
    set (declared (subtree_assembly_paths a)) \<inter> set (declared (subtree_assembly_paths b)) = {} \<and>
    set (declared (subtree_assembly_paths a)) \<inter> set (declared ROOT_ASSEMBLY_PATHS) = {}"
proof -
  note ok = accepted_containment[OF assms(1,2)]
  obtain a b where a: "address (tree_of items) (pi_id i) = Some a" "a \<noteq> []"
    and b: "address (tree_of items) (pi_id j) = Some b" "b \<noteq> []"
    using address_item[OF ok assms(3)] address_item[OF ok assms(4)] by blast
  have ne: "join ''/'' (map subtree_slug a) \<noteq> join ''/'' (map subtree_slug b)"
    using namespace_inj[OF a(2) b(2)] address_inj[OF ok assms(3,4) a(1) b(1)] assms(5) by blast
  have ends: "u @ ''/report.md'' \<noteq> v @ ''/end-to-end.txt''" for u v :: string
  proof
    assume "u @ ''/report.md'' = v @ ''/end-to-end.txt''"
    then have "last (u @ ''/report.md'') = last (v @ ''/end-to-end.txt'')" by simp
    then show False by simp
  qed
  have "set (declared (subtree_assembly_paths a)) \<inter> set (declared (subtree_assembly_paths b)) = {}"
    using ne ends[of "CHR ''/'' # join ''/'' (map subtree_slug _)" "CHR ''/'' # join ''/'' (map subtree_slug _)"]
    by (auto simp: declared_def subtree_assembly_paths_def Let_def)
  moreover have "set (declared (subtree_assembly_paths a)) \<inter> set (declared ROOT_ASSEMBLY_PATHS) = {}"
  proof -
    have "CHR ''/'' # u @ v \<noteq> v" "CHR ''/'' # u @ ''/report.md'' \<noteq> ''/end-to-end.txt''"
        "CHR ''/'' # u @ ''/end-to-end.txt'' \<noteq> ''/report.md''" for u v :: string
      using ends[of "CHR ''/'' # u" "[]"] ends[of "[]" "CHR ''/'' # u"]
      by (auto dest: arg_cong[of _ _ length])
    then show ?thesis
      by (auto simp: declared_def subtree_assembly_paths_def ROOT_ASSEMBLY_PATHS_def Let_def)
  qed
  ultimately show ?thesis using a(1) b(1) by blast
qed

section \<open>Stakes\<close>

lemma stakes_index: "index_of s STAKES_ORDER < 4" "STAKES_ORDER ! index_of s STAKES_ORDER = s"
  by (cases s; simp add: STAKES_ORDER_def)+

text \<open>An assembly sits above everything it assembles, as far as the ladder goes.\<close>

lemma escalated_stakes_above:
  assumes "s \<in> set assembled"
  shows "s < escalated_stakes assembled \<or> s = STAKES_CRITICAL \<and> escalated_stakes assembled = STAKES_CRITICAL"
proof -
  let ?h = "Max (set (map (\<lambda>s. index_of s STAKES_ORDER) assembled))"
  have h: "index_of s STAKES_ORDER \<le> ?h" using assms by simp
  have "?h \<in> set (map (\<lambda>s. index_of s STAKES_ORDER) assembled)" using assms by (intro Max_in) auto
  then have "?h < 4" using stakes_index(1) by auto
  moreover have e: "escalated_stakes assembled = STAKES_ORDER ! min (?h + 1) 3"
  proof -
    have "length STAKES_ORDER - 1 = 3" by (simp add: STAKES_ORDER_def)
    moreover have "assembled \<noteq> []" using assms by auto
    ultimately show ?thesis by (simp only: escalated_stakes_def Let_def if_False)
  qed
  moreover have "index_of (STAKES_ORDER ! k) STAKES_ORDER = k" if "k < 4" for k
    using that by (auto simp: STAKES_ORDER_def less_Suc_eq numeral_eq_Suc)
  ultimately have i: "index_of (escalated_stakes assembled) STAKES_ORDER = min (?h + 1) 3" by simp
  show ?thesis
  proof (cases "?h = 3 \<and> index_of s STAKES_ORDER = 3")
    case True
    then have "s = STAKES_ORDER ! 3" "escalated_stakes assembled = STAKES_ORDER ! 3" using stakes_index(2)[of s] e by auto
    then show ?thesis by (simp add: STAKES_ORDER_def)
  next
    case False
    with h i \<open>?h < 4\<close> have "index_of s STAKES_ORDER < index_of (escalated_stakes assembled) STAKES_ORDER" by linarith
    then show ?thesis by (simp add: less_stakes_def less_eq_stakes_def compare_stakes_def)
  qed
qed

end
