(* ===== verification/Plan_Mapping.thy ===== *)
theory Plan_Mapping
  imports Plan_Entity Assembly
begin

text \<open>
  The projections between a decomposition and a durable plan
  (\<open>engine/decomposition/plan_mapping.py\<close>), and the task one plan item becomes
  (\<open>engine/decomposition/_item_tasks.py\<close>, \<open>_artifacts.py\<close>, \<open>_ids.py\<close>).

  A constructor that validates is a function into an error result. Rebuilding the tree
  recurses once per level and the interpreter bounds how deep it may go: the first
  argument of \<open>level_from_items\<close> is the number of levels it has room for, and
  \<open>Recursion_Limit\<close> the error of running out. \<open>Walk_Never_Ends\<close> stands for a call that
  does not return. The time of the write and the identity of a new plan are arguments.
\<close>

datatype mapping_error =
    Bad_Item plan_error
  | Bad_Unit unit_error
  | Bad_Task validation_error
  | Bad_Plan plan_error
  | Bad_Plan_Field
  | Bad_Fence fence_error
  | Not_Canonical ident
  | Unresolved_Task_Structure
  | Walk_Never_Ends
  | Recursion_Limit

section \<open>From a decomposition to a plan\<close>

definition make_item :: "plan_item \<Rightarrow> (mapping_error, plan_item) outcome" where
  "make_item i = (case validate_item i of Inl e \<Rightarrow> Inl (Bad_Item e) | Inr _ \<Rightarrow> Inr i)"

definition item_of :: "ident option \<Rightarrow> subtask_definition \<Rightarrow> plan_item" where
  "item_of parent s =
     \<lparr>pi_id = su_id s, pi_title = su_title s, pi_description = su_description s, pi_parent_id = parent,
      pi_dependencies = su_dependencies s, pi_owner = su_required_role s,
      pi_acceptance_criteria = su_acceptance_criteria s, pi_expected_artifacts = su_expected_artifacts s,
      pi_required_skills = su_required_skills s, pi_required_tags = su_required_tags s,
      pi_estimated_complexity = su_estimated_complexity s, pi_stakes = su_stakes s, pi_kind = su_kind s,
      pi_options = su_options s, pi_chosen_option_id = None, pi_satisfies = su_satisfies s,
      pi_unsplit_reason = su_unsplit_reason s\<rparr>"

definition item_from_subtask :: "ident option \<Rightarrow> subtask_definition \<Rightarrow> (mapping_error, plan_item) outcome" where
  "item_from_subtask parent s = make_item (item_of parent s)"

fun walk_levels :: "decomposition_result \<Rightarrow> ident option \<Rightarrow> (mapping_error, plan_item list) outcome" where
  "walk_levels (Decomposition_Result p ts es d cs) parent =
     and_then (map_outcome (item_from_subtask parent) (dp_subtasks p))
       (\<lambda>own. and_then (map_outcome (\<lambda>c. walk_levels c (Some (dr_parent c))) cs)
          (\<lambda>below. Inr (own @ concat below)))"

definition items_from_decomposition :: "decomposition_result \<Rightarrow> (mapping_error, plan_item list) outcome" where
  "items_from_decomposition r = walk_levels r None"

record plan_provenance =
  pv_project :: string
  pv_project_name :: string
  pv_objective_id :: string
  pv_objective_title :: string
  pv_parent_task_id :: ident
  pv_created_at :: py_datetime
  pv_status :: plan_status
  pv_forecast_id :: "ident option"
  pv_review :: "string option"
  pv_review_absent_reason :: "string option"
  pv_objective_criteria :: "string list"

definition make_plan_entity :: "plan \<Rightarrow> (mapping_error, plan) outcome" where
  "make_plan_entity p =
     (if \<not> plan_entity_fields_ok p then Inl Bad_Plan_Field
      else case first_error [validate_items p, validate_failure_reason p] of
             Inl e \<Rightarrow> Inl (Bad_Plan e)
           | Inr _ \<Rightarrow> Inr p)"

definition plan_shell :: "ident \<Rightarrow> plan_provenance \<Rightarrow> (mapping_error, plan) outcome" where
  "plan_shell new_id v = make_plan_entity
     \<lparr>p_id = new_id, p_project = pv_project v, p_project_name = pv_project_name v,
      p_objective_id = pv_objective_id v, p_objective_title = pv_objective_title v,
      p_parent_task_id = pv_parent_task_id v, p_items = [], p_task_structure = SEQUENTIAL,
      p_coordination_topology = TOPOLOGY_AUTO, p_status = pv_status v, p_failure_reason = None,
      p_forecast_id = pv_forecast_id v, p_review = None, p_open_questions = [], p_assumptions = [],
      p_planning_strategy = None, p_review_absent_reason = None, p_decomposition_progress = None,
      p_objective_criteria = pv_objective_criteria v, p_version_history = [], p_replan_generation = 0,
      p_version = 1, p_created_at = pv_created_at v, p_updated_at = pv_created_at v\<rparr>"

definition plan_from_decomposition ::
  "ident \<Rightarrow> decomposition_result \<Rightarrow> plan_provenance \<Rightarrow> (mapping_error, plan) outcome" where
  "plan_from_decomposition new_id r v =
     and_then (items_from_decomposition r) (\<lambda>items.
       if dp_task_structure (dr_plan r) = STRUCTURE_AUTO then Inl Unresolved_Task_Structure
       else make_plan_entity
         \<lparr>p_id = new_id, p_project = pv_project v, p_project_name = pv_project_name v,
          p_objective_id = pv_objective_id v, p_objective_title = pv_objective_title v,
          p_parent_task_id = pv_parent_task_id v, p_items = items,
          p_task_structure = dp_task_structure (dr_plan r),
          p_coordination_topology = dp_coordination_topology (dr_plan r), p_status = pv_status v,
          p_failure_reason = None, p_forecast_id = pv_forecast_id v, p_review = pv_review v,
          p_open_questions = dp_open_questions (dr_plan r), p_assumptions = dp_assumptions (dr_plan r),
          p_planning_strategy = dp_planning_strategy (dr_plan r),
          p_review_absent_reason = pv_review_absent_reason v, p_decomposition_progress = None,
          p_objective_criteria = pv_objective_criteria v, p_version_history = [], p_replan_generation = 0,
          p_version = 1, p_created_at = pv_created_at v, p_updated_at = pv_created_at v\<rparr>)"

section \<open>The task of an item\<close>

definition occurs_in :: "string \<Rightarrow> string \<Rightarrow> bool" where
  "occurs_in s t \<longleftrightarrow> list_ex (\<lambda>k. prefix s (drop k t)) [0..<Suc (length t)]"

definition expected_artifact_from_spec :: "string \<Rightarrow> expected_artifact" where
  "expected_artifact_from_spec spec =
     (let lowered = map lower_char spec
      in \<lparr>ea_type = (if occurs_in ''test'' lowered then ARTIFACT_TESTS
                     else if suffix ''.md'' lowered \<or> occurs_in ''doc'' lowered then ARTIFACT_DOCUMENTATION
                     else ARTIFACT_CODE),
          ea_path = spec\<rparr>)"

definition subtask_uuid :: "ident \<Rightarrow> (mapping_error, ident) outcome" where
  "subtask_uuid k = (if canonical_uuid k then Inr k else Inl (Not_Canonical k))"

definition assembly_of :: "plan_tree \<Rightarrow> plan_item \<Rightarrow> (mapping_error, assembly option) outcome" where
  "assembly_of tr i =
     (let cs = children tr (pi_id i)
      in if cs = [] then Inr None
         else case address tr (pi_id i) of
                None \<Rightarrow> Inl Walk_Never_Ends
              | Some addr \<Rightarrow>
                  (case build_assembly (pi_title i) (map pi_title cs) (pi_acceptance_criteria i) (map pi_stakes cs) addr of
                     Inl e \<Rightarrow> Inl (Bad_Fence e)
                   | Inr a \<Rightarrow> Inr (Some a)))"

definition task_from_item ::
  "(string \<Rightarrow> bool) \<Rightarrow> int \<Rightarrow> plan \<Rightarrow> task \<Rightarrow> ident \<Rightarrow> plan_tree \<Rightarrow> plan_item \<Rightarrow> (mapping_error, task) outcome" where
  "task_from_item is_iso now p objective parent_task_id tr i =
     and_then (assembly_of tr i) (\<lambda>a.
     and_then (subtask_uuid (pi_id i)) (\<lambda>k.
       (let body = (case a of None \<Rightarrow> pi_description i | Some a \<Rightarrow> as_brief a);
            artifacts = (case a of None \<Rightarrow> pi_expected_artifacts i
                         | Some a \<Rightarrow> pi_expected_artifacts i @ declared (as_paths a));
            t = (new_task k (pi_title i) (with_plan_context body (p_assumptions p) (p_open_questions p))
                   (t_type objective) (t_project objective) (t_created_by objective) now)
                \<lparr>t_priority := t_priority objective, t_plan_id := Some (p_id p), t_plan_item_id := Some k,
                 t_parent_task_id := Some parent_task_id, t_delegation_chain := t_delegation_chain objective,
                 t_dependencies := pi_dependencies i,
                 t_acceptance_criteria := map (\<lambda>c. \<lparr>ac_description = c, ac_met = False\<rparr>) (pi_acceptance_criteria i),
                 t_artifacts_expected := map expected_artifact_from_spec artifacts, t_status := CREATED,
                 t_estimated_complexity := pi_estimated_complexity i,
                 t_stakes := (case a of None \<Rightarrow> pi_stakes i | Some a \<Rightarrow> as_stakes a)\<rparr>
        in case model_validate is_iso (t, []) of Inl e \<Rightarrow> Inl (Bad_Task e) | Inr t \<Rightarrow> Inr t)))"

section \<open>From a plan to a decomposition\<close>

definition make_subtask :: "subtask_definition \<Rightarrow> (mapping_error, subtask_definition) outcome" where
  "make_subtask s = (case validate_subtask s of Inl e \<Rightarrow> Inl (Bad_Unit e) | Inr _ \<Rightarrow> Inr s)"

definition unit_of :: "stakes \<Rightarrow> plan_item \<Rightarrow> subtask_definition" where
  "unit_of st i =
     \<lparr>su_id = pi_id i, su_title = pi_title i, su_description = pi_description i,
      su_dependencies = pi_dependencies i, su_estimated_complexity = pi_estimated_complexity i, su_stakes = st,
      su_required_skills = pi_required_skills i, su_required_tags = pi_required_tags i,
      su_required_role = pi_owner i, su_expected_artifacts = pi_expected_artifacts i,
      su_acceptance_criteria = pi_acceptance_criteria i, su_satisfies = pi_satisfies i, su_kind = pi_kind i,
      su_options = pi_options i, su_unsplit_reason = pi_unsplit_reason i\<rparr>"

definition subtask_from_item :: "plan_tree \<Rightarrow> plan_item \<Rightarrow> (mapping_error, subtask_definition) outcome" where
  "subtask_from_item tr i =
     and_then (assembly_of tr i) (\<lambda>a.
       make_subtask (unit_of (case a of None \<Rightarrow> pi_stakes i | Some a \<Rightarrow> as_stakes a) i))"

definition make_level_plan :: "decomposition_plan \<Rightarrow> (mapping_error, decomposition_plan) outcome" where
  "make_level_plan p =
     (if \<not> plan_fields_ok p then Inl (Bad_Unit Blank_Unit_Field)
      else case validate_subtasks p of Inl e \<Rightarrow> Inl (Bad_Unit e) | Inr _ \<Rightarrow> Inr p)"

definition make_result :: "decomposition_result \<Rightarrow> (mapping_error, decomposition_result) outcome" where
  "make_result r =
     (if dr_depth r < 0 then Inl (Bad_Unit Blank_Unit_Field)
      else case validate_plan_task_consistency r of Inl e \<Rightarrow> Inl (Bad_Unit e) | Inr _ \<Rightarrow> Inr r)"

primrec level_from_items ::
  "nat \<Rightarrow> (string \<Rightarrow> bool) \<Rightarrow> int \<Rightarrow> plan \<Rightarrow> task \<Rightarrow> plan_tree \<Rightarrow> plan_item list \<Rightarrow> ident \<Rightarrow> int \<Rightarrow>
   (mapping_error, decomposition_result) outcome" where
  "level_from_items 0 is_iso now p objective tr items parent_task_id dep = Inl Recursion_Limit"
| "level_from_items (Suc n) is_iso now p objective tr items parent_task_id dep =
     and_then (map_outcome (subtask_from_item tr) items) (\<lambda>units.
     and_then (make_level_plan
         \<lparr>dp_parent_task_id = parent_task_id, dp_subtasks = units, dp_task_structure = p_task_structure p,
          dp_coordination_topology = p_coordination_topology p, dp_open_questions = [], dp_assumptions = [],
          dp_planning_strategy = None\<rparr>) (\<lambda>lp.
     and_then (map_outcome (task_from_item is_iso now p objective parent_task_id tr) items) (\<lambda>tasks.
     and_then (map_outcome (\<lambda>i. level_from_items n is_iso now p objective tr (children tr (pi_id i)) (pi_id i) (dep + 1))
         (filter (\<lambda>i. is_container tr (pi_id i)) items)) (\<lambda>below.
       make_result (Decomposition_Result lp tasks
         (concat (map (\<lambda>i. map (\<lambda>d. (d, pi_id i)) (pi_dependencies i)) items)) dep below)))))"

definition dispatchable :: "plan \<Rightarrow> plan_item list" where
  "dispatchable p =
     (let decision_ids = set (map pi_id (filter (\<lambda>i. pi_kind i = DECISION) (p_items p)))
      in map (\<lambda>i. i\<lparr>pi_dependencies := filter (\<lambda>d. d \<notin> decision_ids) (pi_dependencies i)\<rparr>)
           (filter (\<lambda>i. pi_kind i = WORK) (p_items p)))"

definition decomposition_from_plan ::
  "nat \<Rightarrow> (string \<Rightarrow> bool) \<Rightarrow> int \<Rightarrow> plan \<Rightarrow> task \<Rightarrow> (mapping_error, decomposition_result) outcome" where
  "decomposition_from_plan room is_iso now p parent_task =
     (let tr = tree_of (dispatchable p)
      in level_from_items room is_iso now p parent_task tr (workstreams tr) (t_id parent_task) 0)"

section \<open>A decomposition is a plan\<close>

text \<open>The items of a tree, were all of them accepted.\<close>

fun unit_items :: "decomposition_result \<Rightarrow> ident option \<Rightarrow> plan_item list" where
  "unit_items (Decomposition_Result p ts es d cs) parent =
     map (item_of parent) (dp_subtasks p) @ concat (map (\<lambda>c. unit_items c (Some (dr_parent c))) cs)"

lemma make_item_Inr: "make_item i = Inr j \<longleftrightarrow> j = i \<and> validate_item i = Inr ()"
  by (auto simp: make_item_def split: sum.splits)

lemma list_all2_graph: "list_all2 (\<lambda>x y. y = f x \<and> P y) xs ys \<longleftrightarrow> ys = map f xs \<and> (\<forall>y \<in> set ys. P y)"
  by (induction xs arbitrary: ys) (auto simp: list_all2_Cons1)

lemma item_of_simps [simp]:
  "pi_id (item_of q s) = su_id s" "pi_parent_id (item_of q s) = q" "pi_kind (item_of q s) = su_kind s"
  "pi_dependencies (item_of q s) = su_dependencies s"
  by (simp_all add: item_of_def)

lemma walk_levels_Inr:
  "walk_levels r parent = Inr items \<longleftrightarrow>
     items = unit_items r parent \<and> (\<forall>i \<in> set items. validate_item i = Inr ())"
proof (induction r arbitrary: parent items)
  case (Decomposition_Result p ts es d cs)
  have own: "map_outcome (item_from_subtask parent) (dp_subtasks p) = Inr own \<longleftrightarrow>
      own = map (item_of parent) (dp_subtasks p) \<and> (\<forall>i \<in> set own. validate_item i = Inr ())" for own
    using list_all2_graph[of "item_of parent" "\<lambda>i. validate_item i = Inr ()"]
    unfolding map_outcome_Inr item_from_subtask_def make_item_Inr by (simp cong: conj_cong)
  have below: "map_outcome (\<lambda>c. walk_levels c (Some (dr_parent c))) cs = Inr bs \<longleftrightarrow>
      bs = map (\<lambda>c. unit_items c (Some (dr_parent c))) cs \<and> (\<forall>b \<in> set bs. \<forall>i \<in> set b. validate_item i = Inr ())" for bs
  proof -
    have "list_all2 (\<lambda>c b. walk_levels c (Some (dr_parent c)) = Inr b) cs bs \<longleftrightarrow>
        list_all2 (\<lambda>c b. b = unit_items c (Some (dr_parent c)) \<and> (\<forall>i \<in> set b. validate_item i = Inr ())) cs bs"
      using Decomposition_Result by (intro list.rel_cong[OF refl refl]) auto
    then show ?thesis unfolding map_outcome_Inr list_all2_graph .
  qed
  show ?case by (auto simp: and_then_Inr own below)
qed

lemma unit_items_ids: "map pi_id (unit_items r q) = map su_id (all_subtasks r)"
  by (induction r arbitrary: q) (simp add: map_concat comp_def cong: map_cong)

fun splits_only_work :: "decomposition_result \<Rightarrow> bool" where
  "splits_only_work (Decomposition_Result p ts es d cs) \<longleftrightarrow>
     (\<forall>c \<in> set cs. (\<forall>s \<in> set (dp_subtasks p). su_id s = dr_parent c \<longrightarrow> su_kind s = WORK) \<and> splits_only_work c)"

lemma unit_parents:
  assumes "result_valid r" and "splits_only_work r" and "i \<in> set (unit_items r q)"
  shows "pi_parent_id i = q \<or> (\<exists>j \<in> set (unit_items r q). pi_parent_id i = Some (pi_id j) \<and> pi_kind j \<noteq> DECISION)"
  using assms
proof (induction r arbitrary: q)
  case (Decomposition_Result p ts es d cs)
  let ?r = "Decomposition_Result p ts es d cs"
  from Decomposition_Result.prems(3) consider s where "s \<in> set (dp_subtasks p)" "i = item_of q s"
    | c where "c \<in> set cs" "i \<in> set (unit_items c (Some (dr_parent c)))" by auto
  then show ?case
  proof cases
    case 1
    then show ?thesis by simp
  next
    case (2 c)
    note v = result_validD[OF Decomposition_Result.prems(1)]
    obtain s where s: "s \<in> set (dp_subtasks p)" "su_id s = dr_parent c" 
      using subsetD[OF v(3) imageI[OF 2(1)]] by (auto elim!: imageE)
    then have "item_of q s \<in> set (unit_items ?r q)" "pi_id (item_of q s) = dr_parent c" "pi_kind (item_of q s) \<noteq> DECISION"
      using Decomposition_Result.prems(2) 2(1) by auto
    moreover have "set (unit_items c (Some (dr_parent c))) \<subseteq> set (unit_items ?r q)" using 2(1) by auto
    moreover have "splits_only_work c" using Decomposition_Result.prems(2) 2(1) by simp
    ultimately show ?thesis
      using Decomposition_Result.IH[OF 2(1) v(5)[OF 2(1)] _ 2(2)] by (metis subsetD)
  qed
qed

lemma unit_levels:
  assumes "result_valid r" and "i \<in> set (unit_items r q)" and "d \<in> set (pi_dependencies i)"
  shows "\<exists>j \<in> set (unit_items r q). pi_id j = d \<and> pi_parent_id j = pi_parent_id i"
  using assms
proof (induction r arbitrary: q)
  case (Decomposition_Result p ts es e cs)
  note v = result_validD[OF Decomposition_Result.prems(1)]
  from Decomposition_Result.prems(2) consider s where "s \<in> set (dp_subtasks p)" "i = item_of q s"
    | c where "c \<in> set cs" "i \<in> set (unit_items c (Some (dr_parent c)))" by auto
  then show ?case
  proof cases
    case 1
    with v(6)[OF 1(1)] Decomposition_Result.prems(3) obtain s' where "s' \<in> set (dp_subtasks p)" "su_id s' = d"
      by auto
    with 1 show ?thesis by (intro bexI[of _ "item_of q s'"]) auto
  next
    case (2 c)
    with Decomposition_Result.IH[OF 2(1) v(5)[OF 2(1)] 2(2) Decomposition_Result.prems(3)] show ?thesis by auto
  qed
qed

fun topdown :: "ident set \<Rightarrow> plan_item list \<Rightarrow> bool" where
  "topdown A [] \<longleftrightarrow> True"
| "topdown A (i # is) \<longleftrightarrow> opt_all (\<lambda>p. p \<in> A) (pi_parent_id i) \<and> topdown (insert (pi_id i) A) is"

lemma topdown_append: "topdown A (xs @ ys) \<longleftrightarrow> topdown A xs \<and> topdown (A \<union> pi_id ` set xs) ys"
  by (induction xs arbitrary: A) simp_all

lemma topdown_below: "topdown A xs \<Longrightarrow> A \<subseteq> B \<Longrightarrow> topdown B xs"
proof (induction xs arbitrary: A B)
  case (Cons x xs)
  then have "topdown (insert (pi_id x) A) xs" by simp
  from Cons.IH[OF this] Cons.prems(2) have "topdown (insert (pi_id x) B) xs" by blast
  moreover have "opt_all (\<lambda>p. p \<in> B) (pi_parent_id x)" using Cons.prems by (cases "pi_parent_id x") auto
  ultimately show ?case by simp
qed simp

lemma topdown_concat: "(\<And>x. x \<in> set xss \<Longrightarrow> topdown A x) \<Longrightarrow> topdown A (concat xss)"
proof (induction xss)
  case (Cons x xss)
  have "topdown (A \<union> pi_id ` set x) (concat xss)" using Cons topdown_below[of A] by (metis Un_upper1 list.set_intros(2))
  with Cons show ?case by (simp add: topdown_append)
qed simp

lemma topdown_own: "opt_all (\<lambda>p. p \<in> A) q \<Longrightarrow> topdown A (map (item_of q) ss)"
proof (induction ss arbitrary: A)
  case (Cons s ss)
  then have "opt_all (\<lambda>p. p \<in> insert (su_id s) A) q" by (auto split: option.splits)
  with Cons.IH[OF this] Cons.prems show ?case by simp
qed simp

lemma unit_items_topdown: "result_valid r \<Longrightarrow> opt_all (\<lambda>p. p \<in> A) q \<Longrightarrow> topdown A (unit_items r q)"
proof (induction r arbitrary: q A)
  case (Decomposition_Result p ts es d cs)
  note v = result_validD[OF Decomposition_Result.prems(1)]
  let ?B = "A \<union> pi_id ` set (map (item_of q) (dp_subtasks p))"
  have ids: "pi_id ` set (map (item_of q) (dp_subtasks p)) = su_id ` set (dp_subtasks p)"
    by (auto simp: image_image)
  have "topdown ?B (unit_items c (Some (dr_parent c)))" if c: "c \<in> set cs" for c
    using Decomposition_Result.IH[OF c v(5)[OF c]] v(3) c ids by auto
  then have "topdown ?B (concat (map (\<lambda>c. unit_items c (Some (dr_parent c))) cs))"
    by (intro topdown_concat) auto
  with topdown_own[OF Decomposition_Result.prems(2)] show ?case by (simp add: topdown_append)
qed

lemma topdown_ordered:
  assumes "distinct (map pi_id items)" and "set ys \<subseteq> set items" and "topdown A ys"
  shows "ordered (contains items) A (map pi_id ys)"
  using assms(2,3)
proof (induction ys arbitrary: A)
  case (Cons y ys)
  have "d \<in> A" if "(d, pi_id y) \<in> contains items" for d
  proof -
    from that obtain i where i: "i \<in> set items" "pi_id i = pi_id y" "pi_parent_id i = Some d" by (auto simp: contains_def)
    have "i = y" using assms(1) i Cons.prems(1) by (auto simp: distinct_map dest: inj_onD)
    with Cons.prems(2) i(3) show ?thesis by simp
  qed
  with Cons show ?case by simp
qed simp

lemma units_containment:
  assumes "tree_ok r" and "splits_only_work r"
  shows "containment (unit_items r None)"
proof -
  let ?items = "unit_items r None"
  have v: "result_valid r" and d: "distinct (map pi_id ?items)" using assms(1) by (simp_all add: tree_ok_def unit_items_ids)
  have "ordered (contains ?items) {} (map pi_id ?items)"
    using unit_items_topdown[OF v, of "{}" None] by (intro topdown_ordered[OF d]) auto
  moreover have "Range (contains ?items) \<subseteq> set (map pi_id ?items)" by (auto simp: contains_def)
  ultimately have "acyclic (contains ?items)" by (rule ordered_acyclic)
  moreover have "pi_parent_id j = pi_parent_id i"
    if "i \<in> set ?items" "j \<in> set ?items" "pi_id j \<in> set (pi_dependencies i)" for i j
    using unit_levels[OF v that(1,3)] that(2) d by (auto simp: distinct_map dest: inj_onD)
  ultimately show ?thesis
    using unit_parents[OF v assms(2), where q = None] d by (fastforce simp: containment_def tree_wf_def)
qed

lemma waits_declared:
  assumes "tree_ok r"
  shows "waits (all_subtasks r) \<subseteq> waits (dispatch_after r i)"
  using assms
proof (induction r arbitrary: i)
  case (Decomposition_Result p ts es d cs)
  note v = result_validD[OF tree_okD(4)[OF Decomposition_Result.prems]]
  have "(x, y) \<in> waits (dispatch_after (Decomposition_Result p ts es d cs) i)" if "(x, y) \<in> waits (dp_subtasks p)" for x y
  proof -
    from that obtain s where s: "s \<in> set (dp_subtasks p)" "su_id s = y" "x \<in> set (su_dependencies s)" by (auto simp: waits_def)
    with get_waits_on[OF v(1) s(1), of i] show ?thesis by (auto simp: waits_dispatch)
  qed
  moreover have "(x, y) \<in> waits (dispatch_after (Decomposition_Result p ts es d cs) i)"
    if c: "c \<in> set cs" "(x, y) \<in> waits (all_subtasks c)" for x y c
    using Decomposition_Result.IH[OF c(1) tree_okD(1)[OF Decomposition_Result.prems c(1)]] c
    unfolding waits_dispatch by blast
  ultimately show ?case by (auto simp: waits_append waits_concat)
qed

lemma depends_units:
  assumes "distinct (map pi_id (unit_items r q))"
  shows "depends (item_graph (unit_items r q)) = waits (all_subtasks r)"
proof -
  have w: "waits ss = (\<Union>s \<in> set ss. (\<lambda>d. (d, su_id s)) ` set (su_dependencies s))" for ss
    by (auto simp: waits_def)
  have "(\<Union>i \<in> set (unit_items r q). (\<lambda>d. (d, pi_id i)) ` set (pi_dependencies i)) = waits (all_subtasks r)"
    by (induction r arbitrary: q) (simp add: w)
  moreover have "depends (item_graph (unit_items r q)) =
      (\<Union>i \<in> set (unit_items r q). (\<lambda>d. (d, pi_id i)) ` set (pi_dependencies i))"
    unfolding depends_item_graph[OF assms] by auto
  ultimately show ?thesis by simp
qed

lemma contains_Union:
  "contains items = (\<Union>i \<in> set items. case pi_parent_id i of None \<Rightarrow> {} | Some p \<Rightarrow> {(p, pi_id i)})"
  by (auto simp: contains_def split: option.splits)

lemma contains_append: "contains (xs @ ys) = contains xs \<union> contains ys"
  by (auto simp: contains_def)

lemma contains_units:
  "contains (unit_items r q) =
     (case q of None \<Rightarrow> {} | Some p \<Rightarrow> {p} \<times> su_id ` set (dr_subtasks r)) \<union>
     {(dr_parent c, su_id s) | b c s. b \<in> set (sub_results r) \<and> c \<in> set (dr_children b) \<and> s \<in> set (dr_subtasks c)}"
proof (induction r arbitrary: q)
  case (Decomposition_Result p ts es d cs)
  let ?D = "\<lambda>r. {(dr_parent c, su_id s) | b c s. b \<in> set (sub_results r) \<and> c \<in> set (dr_children b) \<and> s \<in> set (dr_subtasks c)}"
  have own: "contains (map (item_of q) (dp_subtasks p)) =
      (case q of None \<Rightarrow> {} | Some p' \<Rightarrow> {p'} \<times> su_id ` set (dp_subtasks p))"
    by (cases q) (auto simp: contains_Union)
  have "contains (concat xss) = (\<Union>xs \<in> set xss. contains xs)" for xss :: "plan_item list list"
    by (induction xss) (simp_all add: contains_append, simp add: contains_def)
  then have "contains (concat (map (\<lambda>c. unit_items c (Some (dr_parent c))) cs)) =
      (\<Union>c \<in> set cs. {dr_parent c} \<times> su_id ` set (dr_subtasks c) \<union> ?D c)"
    using Decomposition_Result.IH by simp
  also have "\<dots> = ?D (Decomposition_Result p ts es d cs)" by auto (metis decomposition_result.sel(5))
  finally show ?case using own by (cases q) (simp_all add: contains_append)
qed

definition provenance_ok :: "plan_provenance \<Rightarrow> bool" where
  "provenance_ok v \<longleftrightarrow>
     list_all not_blank ([pv_project v, pv_project_name v, pv_objective_id v, pv_objective_title v, pv_parent_task_id v] @
       pv_objective_criteria v) \<and>
     opt_all not_blank (pv_review_absent_reason v) \<and> length (pv_objective_criteria v) \<le> MAX_OBJECTIVE_CRITERIA \<and>
     is_aware (pv_created_at v) \<and> pv_status v \<noteq> PL_FAILED"

text \<open>
  C28. A finished decomposition is always a valid plan. Where no decision was split and
  every unit passes the rules of a single item, the projection succeeds and the plan it
  builds passes every rule of a plan: one item per unit of the tree in the order of the
  tree, and exactly the tree's own splits as its containment.
\<close>

theorem decomposition_becomes_plan:
  assumes "tree_ok r" and "splits_only_work r" and "provenance_ok v"
    and "items_from_decomposition r = Inr items"
  shows "\<exists>p. plan_from_decomposition k r v = Inr p \<and> plan_entity_valid p \<and> p_items p = items \<and>
    map pi_id items = map su_id (all_subtasks r) \<and>
    contains items =
      {(dr_parent c, su_id s) | q c s. q \<in> set (sub_results r) \<and> c \<in> set (dr_children q) \<and> s \<in> set (dr_subtasks c)}"
proof -
  have items: "items = unit_items r None" "\<And>i. i \<in> set items \<Longrightarrow> validate_item i = Inr ()"
    using assms(4) by (auto simp: items_from_decomposition_def walk_levels_Inr)
  have c: "containment items" using units_containment[OF assms(1,2)] items(1) by simp
  have "acyclic (waits (all_subtasks r))"
    using waits_declared[OF assms(1), of "[]"] dispatch_graph_ok(3)[OF assms(1)]
      depends_graph_of[OF distinct_dispatch[OF assms(1), of "[]"]]
    by (auto simp: dispatch_subtasks_def intro: acyclic_subset)
  then have "acyclic (depends (item_graph items))" using depends_units[of r None] unique[OF c] items(1) by simp
  moreover have "refs_ok (item_graph items)"
    using unit_levels[of r _ None] assms(1) items(1) by (fastforce simp: refs_ok_item_graph tree_ok_def)
  ultimately have g: "validate_graph (item_graph items) = Inr ()" by (simp add: validate_graph_iff)
  obtain p ts es d cs where r: "r = Decomposition_Result p ts es d cs" by (cases r)
  have v: "result_valid (Decomposition_Result p ts es d cs)" using assms(1) r by (simp add: tree_ok_def)
  then have s: "dp_subtasks p \<noteq> []" "plan_fields_ok p" "dp_task_structure p \<noteq> STRUCTURE_AUTO"
    by (auto simp: plan_valid_def validate_subtasks_def validate_plan_task_consistency_def Let_def split: if_splits)
  then have "items \<noteq> []" using items(1) r by simp
  with c g have "validate_items x = Inr ()" if "p_items x = items" for x
    using that by (simp add: validate_items_iff containment_def)
  then have "\<exists>p. plan_from_decomposition k r v = Inr p \<and> plan_entity_valid p \<and> p_items p = items"
    using assms(3,4) s items(2) r
    by (auto simp: plan_from_decomposition_def make_plan_entity_def plan_entity_valid_def plan_entity_fields_ok_def
        provenance_ok_def plan_fields_ok_def validate_failure_reason_def list_all_iff)
  then show ?thesis using contains_units[of r None] unit_items_ids[of r None] items(1) by auto
qed

definition demo_provenance :: plan_provenance where
  "demo_provenance =
     \<lparr>pv_project = ''p'', pv_project_name = ''P'', pv_objective_id = ''o'', pv_objective_title = ''O'',
      pv_parent_task_id = ''goal'', pv_created_at = Aware 0, pv_status = PL_PENDING_REVIEW, pv_forecast_id = None,
      pv_review = None, pv_review_absent_reason = None, pv_objective_criteria = []\<rparr>"

definition demo_work :: "ident \<Rightarrow> ident list \<Rightarrow> subtask_definition" where
  "demo_work k ds = demo_unit k ds\<lparr>su_acceptance_criteria := [''works'']\<rparr>"

definition demo_split :: decomposition_result where
  "demo_split = demo_level ''goal'' 0 [demo_work demo_a []]
     [demo_level demo_a 1 [demo_work demo_b [], demo_work demo_c [demo_b]] []]"

theorem decomposition_becomes_plan_witness:
  "\<exists>p. plan_from_decomposition demo_a demo_split demo_provenance = Inr p \<and> plan_entity_valid p \<and>
     map pi_id (p_items p) = [demo_a, demo_b, demo_c]"
proof -
  have "tree_ok demo_split" "splits_only_work demo_split" "provenance_ok demo_provenance"
      "isl (items_from_decomposition demo_split) = False"
    by code_simp+
  then obtain items where "items_from_decomposition demo_split = Inr items"
    by (cases "items_from_decomposition demo_split") auto
  from decomposition_becomes_plan[OF \<open>tree_ok demo_split\<close> \<open>splits_only_work demo_split\<close>
    \<open>provenance_ok demo_provenance\<close> this, of demo_a]
  obtain p where p: "plan_from_decomposition demo_a demo_split demo_provenance = Inr p" "plan_entity_valid p"
      "map pi_id (p_items p) = map su_id (all_subtasks demo_split)" by blast
  have "map su_id (all_subtasks demo_split) = [demo_a, demo_b, demo_c]" by code_simp
  with p show ?thesis by simp
qed

end
