(* ===== verification/Plan_Dispatch.thy ===== *)
theory Plan_Dispatch
  imports Plan_Mapping
begin

text \<open>
  What comes back from a durable plan: every valid plan with work in it dispatches, as a
  tree that passes every check of a decomposition, and the tree holds the plan's own
  items.
\<close>

section \<open>Single items\<close>

definition dispatch_stakes :: "plan_tree \<Rightarrow> plan_item \<Rightarrow> stakes" where
  "dispatch_stakes tr i =
     (if children tr (pi_id i) = [] then pi_stakes i
      else escalated_stakes (map pi_stakes (children tr (pi_id i))))"

definition raised :: "plan_tree \<Rightarrow> plan_item \<Rightarrow> plan_item" where
  "raised tr i = i\<lparr>pi_stakes := dispatch_stakes tr i\<rparr>"

text \<open>The items that are dispatched: work, each valid, waiting only on its own level.\<close>

definition work_tree :: "plan_item list \<Rightarrow> bool" where
  "work_tree ds \<longleftrightarrow> containment ds \<and> (\<forall>i \<in> set ds. validate_item i = Inr () \<and> pi_kind i = WORK) \<and>
     (\<forall>i \<in> set ds. \<forall>d \<in> set (pi_dependencies i). \<exists>j \<in> set ds. pi_id j = d \<and> pi_parent_id j = pi_parent_id i) \<and>
     acyclic (depends (item_graph ds))"

lemma work_treeD:
  assumes "work_tree ds"
  shows "containment ds" and "\<And>i. i \<in> set ds \<Longrightarrow> validate_item i = Inr ()" and "\<And>i. i \<in> set ds \<Longrightarrow> pi_kind i = WORK"
    and "\<And>i d. i \<in> set ds \<Longrightarrow> d \<in> set (pi_dependencies i) \<Longrightarrow> \<exists>j \<in> set ds. pi_id j = d \<and> pi_parent_id j = pi_parent_id i"
    and "acyclic (depends (item_graph ds))"
  using assms by (auto simp: work_tree_def)

lemma validate_itemD:
  assumes "validate_item i = Inr ()"
  shows "item_fields_ok i" and "canonical_uuid (pi_id i)" and "pi_parent_id i \<noteq> Some (pi_id i)"
    and "pi_id i \<notin> set (pi_dependencies i)" and "distinct (pi_dependencies i)"
    and "validate_decision_options (pi_id i) (pi_kind i) (pi_options i) (pi_chosen_option_id i) = Inr ()"
    and "validate_expected_artifacts (pi_id i) (pi_kind i) (pi_expected_artifacts i) = Inr ()"
  using assms length_remdups_iff[of "pi_dependencies i"]
  by (auto simp: validate_item_def split: if_splits sum.splits)

lemma validate_itemI:
  assumes "item_fields_ok i" and "canonical_uuid (pi_id i)" and "pi_parent_id i \<noteq> Some (pi_id i)"
    and "pi_id i \<notin> set (pi_dependencies i)" and "distinct (pi_dependencies i)"
    and "validate_decision_options (pi_id i) (pi_kind i) (pi_options i) (pi_chosen_option_id i) = Inr ()"
    and "validate_expected_artifacts (pi_id i) (pi_kind i) (pi_expected_artifacts i) = Inr ()"
  shows "validate_item i = Inr ()"
  using assms length_remdups_iff[of "pi_dependencies i"] by (auto simp: validate_item_def)

lemma work_item:
  assumes "validate_item i = Inr ()" and "pi_kind i = WORK"
  shows "pi_options i = []" and "pi_chosen_option_id i = None" and "pi_expected_artifacts i \<noteq> []"
  using validate_itemD(6,7)[OF assms(1)] assms(2)
  by (auto simp: validate_decision_options_def validate_expected_artifacts_def split: if_splits)

lemma not_blank_append: "not_blank s \<Longrightarrow> not_blank (s @ t)" "not_blank t \<Longrightarrow> not_blank (s @ t)"
  by (auto simp: not_blank_def blank_def)

lemma with_plan_context_not_blank: "not_blank body \<Longrightarrow> not_blank (with_plan_context body as qs)"
  by (simp add: with_plan_context_def Let_def not_blank_append)

lemma build_assembly_Inr:
  "\<exists>brief. build_assembly title pieces criteria assembled addr =
     Inr \<lparr>as_brief = brief, as_paths = subtree_assembly_paths addr, as_stakes = escalated_stakes assembled\<rparr> \<and>
     not_blank brief"
proof -
  have "valid_tag TAG_TASK_DATA" using fence_tags_valid by (simp add: ALL_FENCE_TAGS_def)
  then obtain s where s: "wrap_untrusted TAG_TASK_DATA c = Inr (s c)" for c
    by (simp add: wrap_untrusted_def validate_tag_def)
  have head: "not_blank ''Every piece''" by code_simp
  have split: "''Every piece of this has been built and has passed its own review. None of that shows '' =
      ''Every piece'' @ '' of this has been built and has passed its own review. None of that shows ''" by simp
  have "\<exists>b. build_assembly_brief title pieces criteria ps = Inr b \<and> not_blank b" for ps
    unfolding build_assembly_brief_def Let_def s sum.case join_Cons split
    by (simp only: append_assoc list.distinct if_False sum.inject ex_simps simp_thms not_blank_append(1)[OF head])
  then show ?thesis by (metis (no_types, lifting) build_assembly_def sum.case(2))
qed

lemma assembly_of_item:
  assumes "containment ds" and "i \<in> set ds"
  shows "\<exists>a. assembly_of (tree_of ds) i = Inr a \<and>
    (case a of None \<Rightarrow> pi_stakes i | Some a \<Rightarrow> as_stakes a) = dispatch_stakes (tree_of ds) i \<and>
    (case a of None \<Rightarrow> True | Some a \<Rightarrow> not_blank (as_brief a) \<and> list_all not_blank (declared (as_paths a)))"
proof (cases "children (tree_of ds) (pi_id i) = []")
  case True
  then show ?thesis by (simp add: assembly_of_def dispatch_stakes_def)
next
  case False
  obtain addr where addr: "address (tree_of ds) (pi_id i) = Some addr" using address_item[OF assms] by blast
  obtain brief where b: "build_assembly (pi_title i) (map pi_title (children (tree_of ds) (pi_id i)))
      (pi_acceptance_criteria i) (map pi_stakes (children (tree_of ds) (pi_id i))) addr =
      Inr \<lparr>as_brief = brief, as_paths = subtree_assembly_paths addr,
           as_stakes = escalated_stakes (map pi_stakes (children (tree_of ds) (pi_id i)))\<rparr>" "not_blank brief"
    using build_assembly_Inr by blast
  have "not_blank ASSEMBLY_ROOT" by code_simp
  then have "list_all not_blank (declared (subtree_assembly_paths addr))"
    by (simp add: declared_def subtree_assembly_paths_def Let_def not_blank_append)
  with False addr b show ?thesis by (simp add: assembly_of_def dispatch_stakes_def Let_def)
qed

lemma unit_of_simps [simp]:
  "su_id (unit_of st i) = pi_id i" "su_dependencies (unit_of st i) = pi_dependencies i"
  "su_kind (unit_of st i) = pi_kind i" "su_expected_artifacts (unit_of st i) = pi_expected_artifacts i"
  by (simp_all add: unit_of_def)

lemma validate_unit_of:
  assumes "validate_item i = Inr ()" and "pi_kind i = WORK"
  shows "validate_subtask (unit_of st i) = Inr ()"
  using validate_itemD(1,4)[OF assms(1)] work_item[OF assms] assms(2)
  by (auto simp: validate_subtask_def unit_of_def item_fields_ok_def subtask_fields_ok_def validate_decision_options_def)

lemma subtask_from_item_Inr:
  assumes "work_tree ds" and "i \<in> set ds"
  shows "subtask_from_item (tree_of ds) i = Inr (unit_of (dispatch_stakes (tree_of ds) i) i)"
proof -
  obtain a where a: "assembly_of (tree_of ds) i = Inr a"
      "(case a of None \<Rightarrow> pi_stakes i | Some a \<Rightarrow> as_stakes a) = dispatch_stakes (tree_of ds) i"
    using assembly_of_item[OF work_treeD(1)[OF assms(1)] assms(2)] by blast
  show ?thesis
    using validate_unit_of[OF work_treeD(2,3)[OF assms]] a by (simp add: subtask_from_item_def make_subtask_def)
qed

lemma item_of_unit_of:
  assumes "validate_item i = Inr ()" and "pi_kind i = WORK" and "pi_parent_id i = q"
  shows "item_of q (unit_of st i) = i\<lparr>pi_stakes := st\<rparr>"
  using work_item[OF assms(1,2)] assms(3) by (cases i) (simp add: item_of_def unit_of_def)

lemma task_from_item_Inr:
  assumes "work_tree ds" and "i \<in> set ds" and "task_valid is_iso objective" and "not_blank pid" and "pi_id i \<noteq> pid"
  shows "\<exists>t. task_from_item is_iso now p objective pid (tree_of ds) i = Inr t \<and> t_id t = pi_id i \<and>
    t_parent_task_id t = Some pid \<and> t_plan_item_id t = Some (pi_id i) \<and> t_dependencies t = pi_dependencies i \<and>
    task_valid is_iso t"
proof -
  note v = validate_itemD[OF work_treeD(2)[OF assms(1,2)]]
  obtain a where a: "assembly_of (tree_of ds) i = Inr a"
      "case a of None \<Rightarrow> True | Some a \<Rightarrow> not_blank (as_brief a) \<and> list_all not_blank (declared (as_paths a))"
    using assembly_of_item[OF work_treeD(1)[OF assms(1)] assms(2)] by blast
  let ?body = "case a of None \<Rightarrow> pi_description i | Some a \<Rightarrow> as_brief a"
  let ?arts = "case a of None \<Rightarrow> pi_expected_artifacts i | Some a \<Rightarrow> pi_expected_artifacts i @ declared (as_paths a)"
  define t where "t = (new_task (pi_id i) (pi_title i) (with_plan_context ?body (p_assumptions p) (p_open_questions p))
      (t_type objective) (t_project objective) (t_created_by objective) now)
    \<lparr>t_priority := t_priority objective, t_plan_id := Some (p_id p), t_plan_item_id := Some (pi_id i),
     t_parent_task_id := Some pid, t_delegation_chain := t_delegation_chain objective,
     t_dependencies := pi_dependencies i,
     t_acceptance_criteria := map (\<lambda>c. \<lparr>ac_description = c, ac_met = False\<rparr>) (pi_acceptance_criteria i),
     t_artifacts_expected := map expected_artifact_from_spec ?arts, t_status := CREATED,
     t_estimated_complexity := pi_estimated_complexity i,
     t_stakes := (case a of None \<Rightarrow> pi_stakes i | Some a \<Rightarrow> as_stakes a)\<rparr>"
  have f: "t_id t = pi_id i" "t_title t = pi_title i" "t_project t = t_project objective"
      "t_created_by t = t_created_by objective" "t_description t = with_plan_context ?body (p_assumptions p) (p_open_questions p)"
      "t_parent_task_id t = Some pid" "t_plan_item_id t = Some (pi_id i)" "t_plan_id t = Some (p_id p)"
      "t_dependencies t = pi_dependencies i" "t_delegation_chain t = t_delegation_chain objective"
      "t_artifacts_expected t = map expected_artifact_from_spec ?arts" "t_status t = CREATED" "t_assigned_to t = None"
      "t_acceptance_criteria t = map (\<lambda>c. \<lparr>ac_description = c, ac_met = False\<rparr>) (pi_acceptance_criteria i)"
      "t_requested_by_user_id t = None" "t_reviewers t = []" "t_budget_limit t = 0" "t_deadline t = None"
      "t_max_retries t = 1" "t_middleware_override t = None" "t_hard_ceiling t = None" "t_hard_token_ceiling t = None"
      "t_blocked_reason t = None"
    by (simp_all add: t_def new_task_def)
  have fields: "not_blank (pi_title i)" "not_blank (pi_description i)" "list_all not_blank (pi_dependencies i)"
      "list_all not_blank (pi_acceptance_criteria i)" "list_all not_blank (pi_expected_artifacts i)"
    using v(1) by (auto simp: item_fields_ok_def)
  have path: "ea_path (expected_artifact_from_spec x) = x" for x by (simp add: expected_artifact_from_spec_def Let_def)
  have "not_blank ?body" using fields(2) a(2) by (cases a) auto
  then have body: "not_blank (t_description t)" unfolding f by (rule with_plan_context_not_blank)
  have arts: "list_all (\<lambda>a. not_blank (ea_path a)) (t_artifacts_expected t)"
    unfolding f using fields(5) a(2) by (cases a) (simp_all add: path list.pred_map comp_def)
  have obj: "not_blank (t_project objective)" "not_blank (t_created_by objective)"
      "list_all not_blank (t_delegation_chain objective)" "distinct (t_delegation_chain objective)"
    using assms(3) task_coherent(5)[OF assms(3)] by (simp_all add: task_valid_iff task_field_checks_def)
  have crit: "list_all (\<lambda>c. not_blank (ac_description c)) (t_acceptance_criteria t)"
    unfolding f using fields(4) by (simp add: list.pred_map comp_def)
  have "list_all snd (task_field_checks t)"
    using body arts crit obj fields assms(4) by (simp add: task_field_checks_def f)
  then have valid: "task_valid is_iso t"
    using v(4,5) obj(4) assms(5)
    by (auto simp: task_valid_iff f validate_iso8601_deadline_def check_collections_def check_delegation_def
        check_assignment_consistency_def check_blocked_reason_pairing_def check_plan_linkage_def REQUIRES_ASSIGNEE_def)
  have "task_from_item is_iso now p objective pid (tree_of ds) i = Inr t"
    using a(1) v(2) valid unfolding task_from_item_def task_valid_def
    by (simp add: subtask_uuid_def Let_def flip: t_def)
  with valid f show ?thesis by blast
qed

section \<open>Levels\<close>

lemma validate_childrenI:
  "dr_parent ` set cs \<subseteq> set ids \<Longrightarrow> distinct (map dr_parent cs) \<Longrightarrow> dr_parent ` set cs \<inter> set seen = {} \<Longrightarrow>
     (\<And>c. c \<in> set cs \<Longrightarrow> dr_depth c = dep + 1) \<Longrightarrow> validate_children ids dep seen cs = Inr ()"
proof (induction cs arbitrary: seen)
  case (Cons c cs)
  have "validate_children ids dep (dr_parent c # seen) cs = Inr ()" using Cons.prems by (intro Cons.IH) auto
  with Cons.prems show ?case by (simp add: Let_def)
qed simp

abbreviation level_of :: "plan_item list \<Rightarrow> ident option \<Rightarrow> plan_item list" where
  "level_of ds q \<equiv> filter (\<lambda>i. pi_parent_id i = q) ds"

abbreviation level_units :: "plan_item list \<Rightarrow> ident option \<Rightarrow> subtask_definition list" where
  "level_units ds q \<equiv> map (\<lambda>i. unit_of (dispatch_stakes (tree_of ds) i) i) (level_of ds q)"

lemma level_unit_ids: "map su_id (level_units ds q) = map pi_id (level_of ds q)"
  by (simp add: comp_def)

lemma level_closed:
  assumes "work_tree ds" and "i \<in> set (level_of ds q)" and "d \<in> set (pi_dependencies i)"
  shows "d \<in> pi_id ` set (level_of ds q)"
  using work_treeD(4)[OF assms(1), of i d] assms(2,3) by auto

lemma check_unitsI:
  "(\<And>s. s \<in> set ss \<Longrightarrow> set (su_dependencies s) \<subseteq> set ids \<and>
      validate_expected_artifacts (su_id s) (su_kind s) (su_expected_artifacts s) = Inr ()) \<Longrightarrow>
   check_units ids ss = Inr ()"
  by (induction ss) (auto simp: Let_def filter_empty_conv)

lemma level_plan_valid:
  assumes "work_tree ds" and "level_of ds q \<noteq> []" and "plan_fields_ok lp" and "dp_subtasks lp = level_units ds q"
  shows "plan_valid lp"
proof -
  have ids: "map su_id (dp_subtasks lp) = map pi_id (level_of ds q)" unfolding assms(4) by (rule level_unit_ids)
  have d: "distinct (map pi_id (level_of ds q))"
    using distinct_map_filter[OF unique[OF work_treeD(1)[OF assms(1)]]] .
  have "check_units (map su_id (dp_subtasks lp)) (dp_subtasks lp) = Inr ()"
  proof (rule check_unitsI)
    fix s assume "s \<in> set (dp_subtasks lp)"
    then obtain i where i: "i \<in> set (level_of ds q)" "s = unit_of (dispatch_stakes (tree_of ds) i) i" using assms(4) by auto
    have "set (su_dependencies s) \<subseteq> set (map su_id (dp_subtasks lp))"
      unfolding ids i(2) unit_of_simps set_map using level_closed[OF assms(1) i(1)] by blast
    moreover have "validate_item i = Inr ()" using i(1) work_treeD(2)[OF assms(1)] by simp
    ultimately show "set (su_dependencies s) \<subseteq> set (map su_id (dp_subtasks lp)) \<and>
        validate_expected_artifacts (su_id s) (su_kind s) (su_expected_artifacts s) = Inr ()"
      using validate_itemD(7) i(2) by simp
  qed
  moreover have "dp_subtasks lp \<noteq> []" using assms(2,4) by auto
  moreover have "length (map su_id (dp_subtasks lp)) = length (remdups (map su_id (dp_subtasks lp)))"
    unfolding ids length_remdups_iff by (rule d)
  ultimately have "validate_subtasks lp = Inr ()" by (simp add: validate_subtasks_def Let_def del: length_map)
  moreover have "list_all (\<lambda>s. validate_subtask s = Inr ()) (dp_subtasks lp)"
    using validate_unit_of work_treeD(2,3)[OF assms(1)] by (auto simp: assms(4) list_all_iff)
  ultimately show ?thesis using assms(3) by (simp add: plan_valid_def)
qed

lemma level_graph_valid:
  assumes "work_tree ds"
  shows "validate_graph (graph_of (level_units ds q)) = Inr ()"
proof -
  have d: "distinct (map su_id (level_units ds q))"
    unfolding level_unit_ids using distinct_map_filter[OF unique[OF work_treeD(1)[OF assms]]] .
  have "waits (level_units ds q) \<subseteq> depends (item_graph ds)"
    unfolding depends_item_graph[OF unique[OF work_treeD(1)[OF assms]]] by (auto simp: waits_def)
  then have "acyclic (depends (graph_of (level_units ds q)))"
    unfolding depends_graph_of[OF d] using work_treeD(5)[OF assms] acyclic_subset by blast
  moreover have "refs_ok (graph_of (level_units ds q))"
  proof -
    have "set (su_dependencies s) \<subseteq> set (map su_id (level_units ds q))" if "s \<in> set (level_units ds q)" for s
      using that level_closed[OF assms, of _ q] unfolding level_unit_ids by auto
    note closed = this
    show ?thesis unfolding refs_ok_def subtask_ids_graph_of
    proof
      fix g assume "g \<in> set (graph_of (level_units ds q))"
      then obtain s where "s \<in> set (level_units ds q)" "sd_dependencies g = su_dependencies s" unfolding graph_of_def by force
      with closed[of s] show "set (sd_dependencies g) \<subseteq> set (map su_id (level_units ds q))" by (simp only:)
    qed
  qed
  ultimately show ?thesis by (simp add: validate_graph_iff)
qed

text \<open>The items below a level, counted.\<close>

lemma mset_set_siblings:
  assumes "containment ds" and "distinct cs" and "set cs \<subseteq> {c \<in> set ds. pi_parent_id c = q}"
  shows "mset_set (\<Union>c \<in> set cs. descendants ds c) = (\<Sum>c \<leftarrow> cs. mset_set (descendants ds c))"
  using assms(2,3)
proof (induction cs)
  case (Cons c cs)
  have fin: "finite (descendants ds x)" for x by (simp add: descendants_def)
  have "descendants ds c \<inter> (\<Union>x \<in> set cs. descendants ds x) = {}"
    using siblings_disjoint[OF assms(1)] Cons.prems by fastforce
  then have "mset_set (descendants ds c \<union> (\<Union>x \<in> set cs. descendants ds x)) =
      mset_set (descendants ds c) + mset_set (\<Union>x \<in> set cs. descendants ds x)"
    using fin by (intro mset_set_Union) auto
  with Cons show ?case by simp
qed simp

lemma descendants_self_notin:
  assumes "containment ds" and "i \<in> set ds"
  shows "i \<notin> (\<Union>c \<in> set (children (tree_of ds) (pi_id i)). descendants ds c)"
proof
  assume "i \<in> (\<Union>c \<in> set (children (tree_of ds) (pi_id i)). descendants ds c)"
  then obtain c where c: "c \<in> set ds" "pi_parent_id c = Some (pi_id i)" "(pi_id c, pi_id i) \<in> (contains ds)\<^sup>*"
    by (auto simp: descendants_def children_tree)
  then have "(pi_id i, pi_id c) \<in> contains ds" by (auto simp: contains_def)
  from this c(3) have "(pi_id i, pi_id i) \<in> (contains ds)\<^sup>+" by (rule rtrancl_into_trancl2)
  with assms(1) show False by (auto simp: containment_def tree_wf_def acyclic_def)
qed

lemma mset_set_descendants:
  assumes "containment ds" and "i \<in> set ds"
  shows "mset_set (descendants ds i) =
    add_mset i (mset_set (\<Union>c \<in> set (children (tree_of ds) (pi_id i)). descendants ds c))"
proof -
  have "finite (\<Union>c \<in> set (children (tree_of ds) (pi_id i)). descendants ds c)" by (simp add: descendants_def)
  then show ?thesis
    using descendants_step[OF assms] mset_set.insert[OF _ descendants_self_notin[OF assms]] by simp
qed

lemma level_descendants:
  assumes "containment ds"
  shows "mset_set (\<Union>c \<in> set (level_of ds q). descendants ds c) = mset (level_of ds q) +
    (\<Sum>i \<leftarrow> filter (\<lambda>i. is_container (tree_of ds) (pi_id i)) (level_of ds q).
       mset_set (\<Union>c \<in> set (level_of ds (Some (pi_id i))). descendants ds c))"
proof -
  let ?B = "\<lambda>i. mset_set (\<Union>c \<in> set (level_of ds (Some (pi_id i))). descendants ds c)"
  have "distinct (level_of ds q)" using unique[OF assms] by (simp add: distinct_map)
  then have "mset_set (\<Union>c \<in> set (level_of ds q). descendants ds c) = (\<Sum>c \<leftarrow> level_of ds q. mset_set (descendants ds c))"
    by (intro mset_set_siblings[OF assms, where q = q]) auto
  also have "\<dots> = (\<Sum>c \<leftarrow> level_of ds q. add_mset c (?B c))"
    using mset_set_descendants[OF assms] by (intro arg_cong[where f = sum_list] map_cong) (auto simp: children_tree)
  also have "\<dots> = mset (level_of ds q) + (\<Sum>c \<leftarrow> level_of ds q. ?B c)"
  proof -
    have "(\<Sum>c \<leftarrow> xs. add_mset c (?B c)) = mset xs + (\<Sum>c \<leftarrow> xs. ?B c)" for xs by (induction xs) simp_all
    then show ?thesis .
  qed
  also have "(\<Sum>c \<leftarrow> level_of ds q. ?B c) =
      (\<Sum>i \<leftarrow> filter (\<lambda>i. is_container (tree_of ds) (pi_id i)) (level_of ds q). ?B i)"
    by (rule sum_list_map_filter[symmetric]) (simp add: is_container_def children_tree)
  finally show ?thesis .
qed

lemma below_smaller:
  assumes "containment ds" and "i \<in> set (level_of ds q)"
  shows "card (\<Union>c \<in> set (level_of ds (Some (pi_id i))). descendants ds c) < card (\<Union>c \<in> set (level_of ds q). descendants ds c)"
proof -
  have i: "i \<in> set ds" using assms(2) by simp
  have "(\<Union>c \<in> set (level_of ds (Some (pi_id i))). descendants ds c) \<subset> descendants ds i"
    using descendants_step[OF assms(1) i] descendants_self_notin[OF assms(1) i] by (auto simp: children_tree)
  moreover have "descendants ds i \<subseteq> (\<Union>c \<in> set (level_of ds q). descendants ds c)" using assms(2) by blast
  moreover have "finite (\<Union>c \<in> set (level_of ds q). descendants ds c)" by (simp add: descendants_def)
  ultimately show ?thesis by (meson psubset_card_mono psubset_subset_trans)
qed

text \<open>A level with room for what is below it is rebuilt, and holds what is below it.\<close>

lemma level_from_items_Inr:
  assumes "work_tree ds" and "task_valid is_iso objective" and "p_task_structure p \<noteq> STRUCTURE_AUTO"
    and "level_of ds q \<noteq> []" and "not_blank pid" and "\<And>i. i \<in> set (level_of ds q) \<Longrightarrow> pi_id i \<noteq> pid"
    and "0 \<le> dep" and "card (\<Union>c \<in> set (level_of ds q). descendants ds c) < n"
  shows "\<exists>r. level_from_items n is_iso now p objective (tree_of ds) (level_of ds q) pid dep = Inr r \<and>
    dr_parent r = pid \<and> dr_depth r = dep \<and> result_valid r \<and> levels_checked r \<and>
    mset (unit_items r q) =
      image_mset (raised (tree_of ds)) (mset_set (\<Union>c \<in> set (level_of ds q). descendants ds c))"
  using assms(4-)
proof (induction n arbitrary: q pid dep)
  case (Suc n)
  let ?tr = "tree_of ds" and ?L = "level_of ds q"
  let ?K = "filter (\<lambda>i. is_container ?tr (pi_id i)) ?L"
  let ?f = "\<lambda>i. level_from_items n is_iso now p objective ?tr (children ?tr (pi_id i)) (pi_id i) (dep + 1)"
  let ?lp = "\<lparr>dp_parent_task_id = pid, dp_subtasks = level_units ds q, dp_task_structure = p_task_structure p,
      dp_coordination_topology = p_coordination_topology p, dp_open_questions = [], dp_assumptions = [],
      dp_planning_strategy = None\<rparr>"
  note w = assms(1) and c = work_treeD(1)[OF assms(1)]
  have units: "map_outcome (subtask_from_item ?tr) ?L = Inr (level_units ds q)"
    using subtask_from_item_Inr[OF w] by (intro map_outcome_total) simp
  have "plan_fields_ok ?lp" using Suc.prems(2) by (simp add: plan_fields_ok_def)
  then have lp: "plan_valid ?lp" using level_plan_valid[OF w Suc.prems(1)] by simp
  have "\<forall>i \<in> set ?L. \<exists>t. task_from_item is_iso now p objective pid ?tr i = Inr t \<and> t_id t = pi_id i"
    using task_from_item_Inr[OF w _ assms(2) Suc.prems(2)] Suc.prems(3) by fastforce
  then obtain tf where tf: "\<And>i. i \<in> set ?L \<Longrightarrow> task_from_item is_iso now p objective pid ?tr i = Inr (tf i) \<and> t_id (tf i) = pi_id i"
    by metis
  have tasks: "map_outcome (task_from_item is_iso now p objective pid ?tr) ?L = Inr (map tf ?L)"
    using tf by (intro map_outcome_total) simp
  have "\<exists>r. ?f i = Inr r \<and> dr_parent r = pi_id i \<and> dr_depth r = dep + 1 \<and> result_valid r \<and> levels_checked r \<and>
      mset (unit_items r (Some (pi_id i))) =
        image_mset (raised ?tr) (mset_set (\<Union>c \<in> set (level_of ds (Some (pi_id i))). descendants ds c))"
    if i: "i \<in> set ?K" for i
  proof -
    have ids: "i \<in> set ds" "level_of ds (Some (pi_id i)) \<noteq> []" using i by (auto simp: is_container_def children_tree)
    have blank: "not_blank (pi_id i)" using validate_itemD(1)[OF work_treeD(2)[OF w ids(1)]] by (simp add: item_fields_ok_def)
    have own: "pi_id j \<noteq> pi_id i" if j: "j \<in> set (level_of ds (Some (pi_id i)))" for j
      using validate_itemD(3)[OF work_treeD(2)[OF w, of j]] j by auto
    have "card (\<Union>c \<in> set (level_of ds (Some (pi_id i))). descendants ds c) < n"
      using below_smaller[OF c, of i q] i Suc.prems(5) by simp
    from Suc.IH[OF ids(2) blank own _ this, of "dep + 1"] Suc.prems(4) show ?thesis by (simp add: children_tree)
  qed
  then obtain rf where rf: "\<And>i. i \<in> set ?K \<Longrightarrow> ?f i = Inr (rf i) \<and> dr_parent (rf i) = pi_id i \<and> dr_depth (rf i) = dep + 1 \<and>
      result_valid (rf i) \<and> levels_checked (rf i) \<and>
      mset (unit_items (rf i) (Some (pi_id i))) =
        image_mset (raised ?tr) (mset_set (\<Union>c \<in> set (level_of ds (Some (pi_id i))). descendants ds c))"
    by metis
  have below: "map_outcome ?f ?K = Inr (map rf ?K)" using rf by (intro map_outcome_total) simp
  let ?es = "concat (map (\<lambda>i. map (\<lambda>d. (d, pi_id i)) (pi_dependencies i)) ?L)"
  let ?r = "Decomposition_Result ?lp (map tf ?L) ?es dep (map rf ?K)"
  have tids: "map t_id (map tf ?L) = map pi_id ?L" using tf by simp
  have parents: "map dr_parent (map rf ?K) = map pi_id ?K" using rf by simp
  have kids: "validate_children (map t_id (map tf ?L)) dep [] (map rf ?K) = Inr ()"
    unfolding tids
  proof (rule validate_childrenI)
    show "dr_parent ` set (map rf ?K) \<subseteq> set (map pi_id ?L)" using rf by auto
    show "distinct (map dr_parent (map rf ?K))"
      unfolding parents using unique[OF c] by (intro distinct_map_filter)
  qed (use rf in auto)
  have edges: "filter (\<lambda>i. i \<notin> set (map t_id (map tf ?L))) (concat (map (\<lambda>(a, b). [a, b]) ?es)) = []"
    using level_closed[OF w, of _ q] unfolding tids by (auto simp: filter_empty_conv)
  have "validate_plan_task_consistency ?r = Inr ()"
    using kids edges tids level_unit_ids[of ds q] assms(3)
    by (simp add: validate_plan_task_consistency_def Let_def del: map_map)
  then have valid: "result_valid ?r" "make_result ?r = Inr ?r"
    using lp Suc.prems(4) rf by (auto simp: make_result_def)
  have "make_level_plan ?lp = Inr ?lp" using lp by (simp add: plan_valid_def make_level_plan_def)
  then have "level_from_items (Suc n) is_iso now p objective ?tr ?L pid dep = Inr ?r"
    using units tasks below valid(2) by simp
  moreover have "levels_checked ?r" using level_graph_valid[OF w, of q] rf by auto
  moreover have "mset (unit_items ?r q) = image_mset (raised ?tr) (mset_set (\<Union>c \<in> set ?L. descendants ds c))"
  proof -
    have own: "map (item_of q) (level_units ds q) = map (raised ?tr) ?L"
      using item_of_unit_of work_treeD(2,3)[OF w] by (simp add: raised_def)
    have "mset (concat (map (\<lambda>b. unit_items b (Some (dr_parent b))) (map rf ?K))) =
        (\<Sum>i \<leftarrow> ?K. image_mset (raised ?tr) (mset_set (\<Union>c \<in> set (level_of ds (Some (pi_id i))). descendants ds c)))"
      unfolding mset_concat map_map comp_def using rf by (intro arg_cong[where f = sum_list] map_cong) auto
    also have "\<dots> = image_mset (raised ?tr) (\<Sum>i \<leftarrow> ?K. mset_set (\<Union>c \<in> set (level_of ds (Some (pi_id i))). descendants ds c))"
    proof -
      have "(\<Sum>i \<leftarrow> xs. image_mset g (h i)) = image_mset g (\<Sum>i \<leftarrow> xs. h i)" for xs :: "plan_item list" and g :: "plan_item \<Rightarrow> plan_item" and h
        by (induction xs) simp_all
      then show ?thesis .
    qed
    finally have rest: "mset (concat (map (\<lambda>b. unit_items b (Some (dr_parent b))) (map rf ?K))) = \<dots>" .
    have "unit_items ?r q = map (raised ?tr) ?L @ concat (map (\<lambda>b. unit_items b (Some (dr_parent b))) (map rf ?K))"
      unfolding unit_items.simps decomposition_plan.select_convs own ..
    then show ?thesis unfolding level_descendants[OF c, of q] by (simp only: mset_append rest image_mset_union mset_map)
  qed
  ultimately show ?case using valid(1) by auto
qed simp

section \<open>What is dispatched\<close>

lemma set_dispatchable:
  "set (dispatchable p) =
     (\<lambda>i. i\<lparr>pi_dependencies := filter (\<lambda>d. d \<notin> pi_id ` {i \<in> set (p_items p). pi_kind i = DECISION}) (pi_dependencies i)\<rparr>) `
       {i \<in> set (p_items p). pi_kind i = WORK}"
  by (simp add: dispatchable_def Let_def)

lemma dispatchable_ids: "map pi_id (dispatchable p) = map pi_id (filter (\<lambda>i. pi_kind i = WORK) (p_items p))"
  by (simp add: dispatchable_def Let_def comp_def)

lemma dispatchable_item:
  assumes "x \<in> set (dispatchable p)"
  obtains i where "i \<in> set (p_items p)" "pi_kind i = WORK" "pi_id x = pi_id i" "pi_parent_id x = pi_parent_id i"
    "set (pi_dependencies x) = {d \<in> set (pi_dependencies i). d \<notin> pi_id ` {i \<in> set (p_items p). pi_kind i = DECISION}}"
    "pi_kind x = WORK" "validate_item i = Inr () \<Longrightarrow> validate_item x = Inr ()"
proof -
  let ?P = "\<lambda>d. d \<notin> pi_id ` {i \<in> set (p_items p). pi_kind i = DECISION}"
  from assms obtain i where i: "i \<in> set (p_items p)" "pi_kind i = WORK"
      "x = i\<lparr>pi_dependencies := filter ?P (pi_dependencies i)\<rparr>"
    unfolding set_dispatchable by auto
  have "validate_item x = Inr ()" if v: "validate_item i = Inr ()"
  proof (rule validate_itemI)
    show "item_fields_ok x" using validate_itemD(1)[OF v] i(3) by (auto simp: item_fields_ok_def list_all_iff)
  qed (use validate_itemD[OF v] i(3) in auto)
  with i that[of i] show ?thesis by auto
qed

lemma dispatchable_work_tree:
  assumes "plan_entity_valid p"
  shows "work_tree (dispatchable p)"
proof (cases "p_items p = []")
  case True
  then have "dispatchable p = []" by (simp add: dispatchable_def)
  moreover have "depends (item_graph []) = {}" using depends_source[of _ _ "item_graph []"] by auto
  ultimately show ?thesis
    by (simp add: work_tree_def containment_def tree_wf_def contains_def acyclic_def)
next
  case False
  let ?items = "p_items p" and ?ds = "dispatchable p"
  have v: "distinct (map pi_id ?items)" "validate_graph (item_graph ?items) = Inr ()" "tree_wf ?items"
      "\<And>i. i \<in> set ?items \<Longrightarrow> validate_item i = Inr ()"
    using assms False by (auto simp: plan_entity_valid_def validate_items_iff list_all_iff)
  have kept: "\<exists>y \<in> set ?ds. pi_id y = pi_id j \<and> pi_parent_id y = pi_parent_id j" if "j \<in> set ?items" "pi_kind j = WORK" for j
    unfolding set_dispatchable using that by force
  have d: "distinct (map pi_id ?ds)" unfolding dispatchable_ids by (rule distinct_map_filter[OF v(1)])
  have parents: "\<exists>y \<in> set ?ds. pi_id y = q" if x: "x \<in> set ?ds" "pi_parent_id x = Some q" for x q
  proof -
    from x(1) obtain i where "i \<in> set ?items" "pi_parent_id x = pi_parent_id i" by (rule dispatchable_item)
    with v(3) x(2) obtain j where "j \<in> set ?items" "pi_id j = q" "pi_kind j \<noteq> DECISION" by (auto simp: tree_wf_def)
    moreover from this have "pi_kind j = WORK" by (cases "pi_kind j") auto
    ultimately show ?thesis using kept by fastforce
  qed
  have closed: "\<exists>y \<in> set ?ds. pi_id y = e \<and> pi_parent_id y = pi_parent_id x" if x: "x \<in> set ?ds" "e \<in> set (pi_dependencies x)" for x e
  proof -
    from x(1) obtain i where i: "i \<in> set ?items" "pi_parent_id x = pi_parent_id i"
        "set (pi_dependencies x) = {d \<in> set (pi_dependencies i). d \<notin> pi_id ` {i \<in> set ?items. pi_kind i = DECISION}}"
      by (rule dispatchable_item)
    then have e: "e \<in> set (pi_dependencies i)" "e \<notin> pi_id ` {i \<in> set ?items. pi_kind i = DECISION}" using x(2) by auto
    have "set (pi_dependencies i) \<subseteq> pi_id ` set ?items" using v(2) i(1) by (simp add: validate_graph_iff refs_ok_item_graph)
    with e(1) obtain j where j: "j \<in> set ?items" "pi_id j = e" by auto
    with e(2) have "pi_kind j = WORK" by (cases "pi_kind j") auto
    moreover have "pi_parent_id j = pi_parent_id i" using v(3) i(1) j e(1) by (auto simp: tree_wf_def)
    ultimately show ?thesis using kept[OF j(1)] j(2) i(2) by auto
  qed
  have "contains ?ds \<subseteq> contains ?items" unfolding contains_def by (fastforce elim: dispatchable_item)
  then have "acyclic (contains ?ds)" using v(3) by (auto simp: tree_wf_def intro: acyclic_subset)
  moreover have "pi_kind x = WORK \<and> validate_item x = Inr ()" if "x \<in> set ?ds" for x
    using that v(4) by (metis dispatchable_item)
  moreover have "pi_parent_id y = pi_parent_id x" if "x \<in> set ?ds" "y \<in> set ?ds" "pi_id y \<in> set (pi_dependencies x)" for x y
    using closed[OF that(1,3)] that(2) d by (auto simp: distinct_map dest: inj_onD)
  ultimately have "containment ?ds" using d parents unfolding containment_def tree_wf_def by fastforce
  moreover have "depends (item_graph ?ds) \<subseteq> depends (item_graph ?items)"
    unfolding depends_item_graph[OF d] depends_item_graph[OF v(1)] by (fastforce elim: dispatchable_item)
  then have "acyclic (depends (item_graph ?ds))" using v(2) by (auto simp: validate_graph_iff intro: acyclic_subset)
  ultimately show ?thesis
    using closed \<open>\<And>x. x \<in> set ?ds \<Longrightarrow> pi_kind x = WORK \<and> validate_item x = Inr ()\<close> by (simp add: work_tree_def)
qed

lemma validate_raised [simp]: "validate_item (raised tr i) = validate_item i"
  by (simp add: raised_def validate_item_def item_fields_ok_def split: sum.split)

lemma work_reaches_workstream:
  assumes "work_tree ds" and "ds \<noteq> []"
  shows "level_of ds None \<noteq> []"
proof -
  obtain i where "i \<in> set ds" using assms(2) by (cases ds) auto
  then have "(\<Union>c \<in> set (workstreams (tree_of ds)). descendants ds c) \<noteq> {}"
    unfolding workstreams_cover[OF work_treeD(1)[OF assms(1)]] by auto
  then have "workstreams (tree_of ds) \<noteq> []" by (metis SUP_empty empty_set)
  then show ?thesis unfolding workstreams_tree[OF unique[OF work_treeD(1)[OF assms(1)]]] .
qed

lemma rebuilt_spec:
  assumes "plan_entity_valid p" and "p_task_structure p \<noteq> STRUCTURE_AUTO" and "task_valid is_iso objective"
    and "not_blank (t_id objective)" and "t_id objective \<notin> pi_id ` set (p_items p)" and "length (p_items p) < room"
    and "\<exists>i \<in> set (p_items p). pi_kind i = WORK"
  shows "\<exists>r items. decomposition_from_plan room is_iso now p objective = Inr r \<and> tree_ok r \<and>
    dr_parent r = t_id objective \<and> items_from_decomposition r = Inr items \<and>
    mset items = image_mset (raised (tree_of (dispatchable p))) (mset (dispatchable p))"
proof -
  let ?ds = "dispatchable p"
  have w: "work_tree ?ds" by (rule dispatchable_work_tree[OF assms(1)])
  note c = work_treeD(1)[OF w]
  have "?ds \<noteq> []" using assms(7) by (auto simp: dispatchable_def Let_def filter_empty_conv)
  from work_reaches_workstream[OF w this] have ne: "level_of ?ds None \<noteq> []" .
  have all: "(\<Union>c \<in> set (level_of ?ds None). descendants ?ds c) = set ?ds"
    using workstreams_cover[OF c] workstreams_tree[OF unique[OF c]] by simp
  have ids: "pi_id i \<noteq> t_id objective" if "i \<in> set (level_of ?ds None)" for i
  proof -
    from that have "i \<in> set ?ds" by simp
    then obtain j where "j \<in> set (p_items p)" "pi_id i = pi_id j" by (rule dispatchable_item)
    with assms(5) show ?thesis by (metis image_eqI)
  qed
  have "card (set ?ds) \<le> length ?ds" by (rule card_length)
  also have "\<dots> \<le> length (p_items p)" by (simp add: dispatchable_def Let_def)
  finally have "card (\<Union>c \<in> set (level_of ?ds None). descendants ?ds c) < room" unfolding all using assms(6) by simp
  from level_from_items_Inr[OF w assms(3,2) ne assms(4) ids _ this, of 0]
  obtain r where r: "level_from_items room is_iso now p objective (tree_of ?ds) (level_of ?ds None) (t_id objective) 0 = Inr r"
      "dr_parent r = t_id objective" "result_valid r" "levels_checked r"
      "mset (unit_items r None) = image_mset (raised (tree_of ?ds)) (mset_set (set ?ds))"
    unfolding all by auto
  have "distinct ?ds" using unique[OF c] by (simp add: distinct_map)
  then have m: "mset (unit_items r None) = image_mset (raised (tree_of ?ds)) (mset ?ds)" using r(5) by (simp add: mset_set_set)
  have "mset (map su_id (all_subtasks r)) = image_mset pi_id (mset (unit_items r None))"
    using unit_items_ids[of r None] by (metis mset_map)
  also have "\<dots> = mset (map pi_id ?ds)" by (simp add: m image_mset.compositionality comp_def raised_def)
  finally have "distinct (map su_id (all_subtasks r))" using unique[OF c] mset_eq_imp_distinct_iff by blast
  with r(3,4) have "tree_ok r" by (simp add: tree_ok_def)
  moreover have "validate_item i = Inr ()" if "i \<in> set (unit_items r None)" for i
  proof -
    have "set (unit_items r None) = raised (tree_of ?ds) ` set ?ds" using arg_cong[OF m, of set_mset] by simp
    with that work_treeD(2)[OF w] show ?thesis by auto
  qed
  then have "items_from_decomposition r = Inr (unit_items r None)" by (simp add: items_from_decomposition_def walk_levels_Inr)
  moreover have "decomposition_from_plan room is_iso now p objective = Inr r"
    using r(1) workstreams_tree[OF unique[OF c]] by (simp add: decomposition_from_plan_def Let_def)
  ultimately show ?thesis using r(2) m by blast
qed

text \<open>What the dispatched graph keeps of a plan: its dependencies, and children before their container.\<close>

lemma waits_contained:
  assumes "tree_ok r" and "b \<in> set (sub_results r)" and "c \<in> set (dr_children b)" and "s \<in> set (dr_subtasks c)"
  shows "(su_id s, dr_parent c) \<in> waits (dispatch_subtasks r)"
proof -
  obtain j where okb: "tree_ok b" and sub: "waits (dispatch_after b j) \<subseteq> waits (dispatch_subtasks r)"
    using waits_sub_result[OF assms(1,2), of "[]"] by (auto simp: dispatch_subtasks_def)
  obtain p ts es d cs where b: "b = Decomposition_Result p ts es d cs" by (cases b)
  note v = result_validD[OF tree_okD(4)[OF okb[unfolded b]]]
  have c: "c \<in> set cs" using assms(3) b by simp
  have "su_id s \<in> set (get_or_empty (contained_by cs) (dr_parent c))" using get_contained_by[OF v(4) c] assms(4) by simp
  moreover have "dr_parent c \<in> su_id ` set (dp_subtasks p)" using v(3) c by blast
  ultimately have "(su_id s, dr_parent c) \<in> waits (dispatch_after b j)" unfolding b waits_dispatch by blast
  with sub show ?thesis by blast
qed

lemma plan_links:
  assumes "tree_ok r" and "items_from_decomposition r = Inr items"
    and "mset items = image_mset (raised tr) (mset ds)" and "i \<in> set ds"
  shows "d \<in> set (pi_dependencies i) \<Longrightarrow> (d, pi_id i) \<in> depends (graph_of (dispatch_subtasks r))"
    and "pi_parent_id i = Some q \<Longrightarrow> (pi_id i, q) \<in> depends (graph_of (dispatch_subtasks r))"
proof -
  have items: "items = unit_items r None" using assms(2) by (simp add: items_from_decomposition_def walk_levels_Inr)
  have m: "raised tr i \<in> set items" using arg_cong[OF assms(3), of set_mset] assms(4) by simp
  have dep: "depends (graph_of (dispatch_subtasks r)) = waits (dispatch_subtasks r)"
    using distinct_dispatch[OF assms(1)] by (simp add: depends_graph_of dispatch_subtasks_def)
  have dist: "distinct (map pi_id items)" using assms(1) by (simp add: items unit_items_ids tree_ok_def)
  show "(d, pi_id i) \<in> depends (graph_of (dispatch_subtasks r))" if "d \<in> set (pi_dependencies i)"
  proof -
    have "(d, pi_id i) \<in> depends (item_graph items)"
      unfolding depends_item_graph[OF dist] using m that by (auto simp: raised_def intro!: exI[of _ "raised tr i"])
    then show ?thesis
      using waits_declared[OF assms(1), of "[]"] depends_units[of r None] dist
      unfolding dep unfolding dispatch_subtasks_def items by auto
  qed
  show "(pi_id i, q) \<in> depends (graph_of (dispatch_subtasks r))" if "pi_parent_id i = Some q"
  proof -
    have "(q, pi_id i) \<in> contains items"
      unfolding contains_def using m that by (auto simp: raised_def intro!: exI[of _ "raised tr i"])
    then obtain b c s where "b \<in> set (sub_results r)" "c \<in> set (dr_children b)" "s \<in> set (dr_subtasks c)"
        "q = dr_parent c" "pi_id i = su_id s"
      using contains_units[of r None] unfolding items by auto
    then show ?thesis unfolding dep using waits_contained[OF assms(1)] by metis
  qed
qed

lemma decisions_only:
  assumes "\<not> (\<exists>i \<in> set (p_items p). pi_kind i = WORK)" and "not_blank (t_id objective)" and "0 < room"
  shows "decomposition_from_plan room is_iso now p objective = Inl (Bad_Unit No_Subtasks)"
proof -
  have "dispatchable p = []" using assms(1) by (auto simp: dispatchable_def Let_def filter_empty_conv)
  moreover obtain n where "room = Suc n" using assms(3) by (cases room) auto
  ultimately show ?thesis
    using assms(2)
    by (simp add: decomposition_from_plan_def Let_def workstreams_def tree_of_def make_level_plan_def
        plan_fields_ok_def validate_subtasks_def)
qed

text \<open>
  C23. A plan survives the trip through a decomposition. What is rebuilt from a valid plan
  and projected back onto items is the plan's own work items, each once and with every
  field it had, but for the decisions it no longer waits on and the stakes of a
  container, which are one above the highest of its children as far as the scale goes.
\<close>

theorem plan_round_trip:
  assumes "plan_entity_valid p" and "p_task_structure p \<noteq> STRUCTURE_AUTO" and "task_valid is_iso objective"
    and "not_blank (t_id objective)" and "t_id objective \<notin> pi_id ` set (p_items p)" and "length (p_items p) < room"
    and "i \<in> set (p_items p)" and "pi_kind i = WORK"
  shows "\<exists>r items. decomposition_from_plan room is_iso now p objective = Inr r \<and>
    items_from_decomposition r = Inr items \<and>
    mset items = mset (map (\<lambda>i. i\<lparr>pi_stakes :=
      (if children (tree_of (dispatchable p)) (pi_id i) = [] then pi_stakes i
       else escalated_stakes (map pi_stakes (children (tree_of (dispatchable p)) (pi_id i))))\<rparr>) (dispatchable p))"
proof -
  have "\<exists>i \<in> set (p_items p). pi_kind i = WORK" using assms(7,8) by blast
  from rebuilt_spec[OF assms(1-6) this] show ?thesis
    unfolding mset_map raised_def[abs_def] dispatch_stakes_def by blast
qed

section \<open>A plan there and back\<close>

definition demo_objective :: task where
  "demo_objective = new_task ''goal'' ''ship it'' ''all of it'' DEVELOPMENT ''p'' ''pm'' 0"

lemma demo_objective_ok:
  "p_task_structure demo_plan \<noteq> STRUCTURE_AUTO" "task_valid (\<lambda>_. True) demo_objective"
  "not_blank (t_id demo_objective)" "t_id demo_objective \<notin> pi_id ` set (p_items demo_plan)"
  "length (p_items demo_plan) < 4"
  by code_simp+

theorem plan_round_trip_witness:
  "\<exists>r items. decomposition_from_plan 4 (\<lambda>_. True) 0 demo_plan demo_objective = Inr r \<and>
     items_from_decomposition r = Inr items \<and>
     mset items = {# demo_item demo_a None []\<lparr>pi_stakes := STAKES_HIGH\<rparr>, demo_item demo_b (Some demo_a) [],
       demo_item demo_c (Some demo_a) [demo_b] #}"
proof -
  have i: "demo_item demo_a None [] \<in> set (p_items demo_plan)" "pi_kind (demo_item demo_a None []) = WORK"
    by (simp_all add: demo_plan_def demo_items_def demo_item_def)
  have "map (\<lambda>i. i\<lparr>pi_stakes :=
      (if children (tree_of (dispatchable demo_plan)) (pi_id i) = [] then pi_stakes i
       else escalated_stakes (map pi_stakes (children (tree_of (dispatchable demo_plan)) (pi_id i))))\<rparr>) (dispatchable demo_plan)
    = [demo_item demo_a None []\<lparr>pi_stakes := STAKES_HIGH\<rparr>, demo_item demo_b (Some demo_a) [],
       demo_item demo_c (Some demo_a) [demo_b]]" by code_simp
  with plan_round_trip[OF demo_plan_valid demo_objective_ok i, of 0] show ?thesis by (simp add: add.commute)
qed

end
