(* ===== verification/Initiative_Progress.thy ===== *)
theory Initiative_Progress
  imports Plan_Mapping
begin

text \<open>
  How far an initiative has got: the pure derivations of
  \<open>engine/initiative/completion.py\<close> and \<open>extension_state.py\<close> over the items of a plan, the
  read of those items off the task table (\<open>item_progress.py\<close>), and the evidence a
  confirmed stall carries (\<open>confirmed_stall.py\<close>).

  The pages of one read of the task table are taken from one state of it; what other
  writers do between two reads is the business of \<open>Initiative_Rollup\<close>.
\<close>

section \<open>The progress of an item\<close>

record item_progress =
  ip_item_id :: ident
  ip_kind :: plan_item_kind
  ip_task_id :: "ident option"
  ip_task_status :: "task_status option"
  ip_blocked_reason :: "blocked_reason option"
  ip_chosen_option_id :: "ident option"
  ip_has_options :: bool

datatype progress_error =
    Blank_Chosen_Option
  | Decision_Carries_Task "string list"
  | Work_Records_Decision "string list"
  | Bad_Item_Id mapping_error

text \<open>The names whose value is set; the code joins them with commas.\<close>

definition set_field_names :: "(string \<times> bool) list \<Rightarrow> string list" where
  "set_field_names named = map fst (filter snd named)"

definition validate_kind_fields :: "item_progress \<Rightarrow> (progress_error, item_progress) outcome" where
  "validate_kind_fields i =
     (let task_fields = set_field_names [(''task_id'', ip_task_id i \<noteq> None), (''task_status'', ip_task_status i \<noteq> None)];
          decision_fields = set_field_names
            [(''chosen_option_id'', ip_chosen_option_id i \<noteq> None), (''has_options'', ip_has_options i)]
      in if \<not> opt_all not_blank (ip_chosen_option_id i) then Inl Blank_Chosen_Option
         else if ip_kind i = DECISION \<and> task_fields \<noteq> [] then Inl (Decision_Carries_Task task_fields)
         else if ip_kind i = WORK \<and> decision_fields \<noteq> [] then Inl (Work_Records_Decision decision_fields)
         else Inr i)"

definition FAILED_STATUSES :: "task_status set" where
  "FAILED_STATUSES = {FAILED, REJECTED}"

definition BLOCKED_STATUSES :: "task_status set" where
  "BLOCKED_STATUSES = {BLOCKED, AWAITING_INPUT, AUTH_REQUIRED, SUSPENDED, INTERRUPTED}"

definition DEAD_STATUSES :: "task_status set" where
  "DEAD_STATUSES = {FAILED, REJECTED, CANCELLED, BLOCKED, SUSPENDED, INTERRUPTED}"

definition DEAD_BY_FAILURE :: "task_status set" where
  "DEAD_BY_FAILURE = {FAILED, REJECTED, CANCELLED}"

lemmas progress_status_sets = FAILED_STATUSES_def BLOCKED_STATUSES_def DEAD_STATUSES_def DEAD_BY_FAILURE_def

text \<open>\<open>status in statuses\<close> for a status that may be missing.\<close>

definition status_in :: "task_status option \<Rightarrow> task_status set \<Rightarrow> bool" where
  "status_in s S \<longleftrightarrow> (case s of None \<Rightarrow> False | Some t \<Rightarrow> t \<in> S)"

record progress_summary =
  su_total :: nat
  su_done :: nat
  su_failed :: nat
  su_blocked :: nat

definition item_is_done :: "item_progress \<Rightarrow> bool" where
  "item_is_done i \<longleftrightarrow>
     (if ip_kind i = DECISION then ip_chosen_option_id i \<noteq> None else ip_task_status i = Some COMPLETED)"

definition summarise_progress :: "item_progress list \<Rightarrow> progress_summary" where
  "summarise_progress items =
     \<lparr>su_total = length items,
      su_done = length (filter item_is_done items),
      su_failed = length (filter (\<lambda>i. status_in (ip_task_status i) FAILED_STATUSES) items),
      su_blocked = length (filter (\<lambda>i. status_in (ip_task_status i) BLOCKED_STATUSES) items)\<rparr>"

section \<open>Stalls\<close>

datatype stall_kind =
    ALL_FAILED | STALL_BLOCKED | MIXED_DEAD | SKELETON_FAILED | INTEGRATION_FAILED | EVALUATION_UNMET

fun stall_kind_value :: "stall_kind \<Rightarrow> string" where
  "stall_kind_value ALL_FAILED = ''all_failed''"
| "stall_kind_value STALL_BLOCKED = ''blocked''"
| "stall_kind_value MIXED_DEAD = ''mixed_dead''"
| "stall_kind_value SKELETON_FAILED = ''skeleton_failed''"
| "stall_kind_value INTEGRATION_FAILED = ''integration_failed''"
| "stall_kind_value EVALUATION_UNMET = ''evaluation_unmet''"

definition ITEM_DERIVED_STALLS :: "stall_kind set" where
  "ITEM_DERIVED_STALLS = {ALL_FAILED, STALL_BLOCKED, MIXED_DEAD}"

fun STAGE_OF_STALL_REASON :: "stall_kind \<Rightarrow> plan_status option" where
  "STAGE_OF_STALL_REASON SKELETON_FAILED = Some PL_SKELETON"
| "STAGE_OF_STALL_REASON INTEGRATION_FAILED = Some PL_INTEGRATING"
| "STAGE_OF_STALL_REASON EVALUATION_UNMET = Some PL_EVALUATING"
| "STAGE_OF_STALL_REASON _ = None"

datatype replan_disposition = SCHEDULED | ALREADY_RUNNING | UNAVAILABLE | DISABLED | BUDGET_EXHAUSTED

definition REPLAN_IN_PROGRESS_DISPOSITIONS :: "replan_disposition set" where
  "REPLAN_IN_PROGRESS_DISPOSITIONS = {SCHEDULED, ALREADY_RUNNING, UNAVAILABLE}"

definition work_item_is_dead :: "item_progress \<Rightarrow> bool" where
  "work_item_is_dead i \<longleftrightarrow>
     (if (case ip_blocked_reason i of None \<Rightarrow> False | Some r \<Rightarrow> r \<in> set ATTENDED_BLOCKED_REASONS) then False
      else status_in (ip_task_status i) DEAD_STATUSES)"

definition decision_item_is_dead :: "item_progress \<Rightarrow> bool" where
  "decision_item_is_dead i \<longleftrightarrow> \<not> ip_has_options i"

definition outstanding_is_dead :: "item_progress \<Rightarrow> bool" where
  "outstanding_is_dead i \<longleftrightarrow> (if ip_kind i = DECISION then decision_item_is_dead i else work_item_is_dead i)"

definition is_failure_dead :: "item_progress \<Rightarrow> bool" where
  "is_failure_dead i \<longleftrightarrow> (if ip_kind i = DECISION then False else status_in (ip_task_status i) DEAD_BY_FAILURE)"

definition stall_reason :: "item_progress list \<Rightarrow> stall_kind option" where
  "stall_reason items =
     (let outstanding = filter (\<lambda>i. \<not> item_is_done i) items
      in if outstanding = [] then None
         else if \<not> list_all outstanding_is_dead outstanding then None
         else if list_all is_failure_dead outstanding then Some ALL_FAILED
         else if \<not> list_ex is_failure_dead outstanding then Some STALL_BLOCKED
         else Some MIXED_DEAD)"

section \<open>The status a plan and its project should have\<close>

definition derive_plan_status :: "item_progress list \<Rightarrow> plan_status \<Rightarrow> plan_status" where
  "derive_plan_status items current =
     (let all_done = items \<noteq> [] \<and> list_all item_is_done items
      in if current \<in> TERMINAL_STATUSES \<or> current \<in> HEAD_STATUSES then current
         else if current \<in> TAIL_STATUSES then (if all_done then current else PL_EXECUTING)
         else if all_done then PL_INTEGRATING
         else current)"

fun PLAN_TO_PROJECT_STATUS :: "plan_status \<Rightarrow> project_status option" where
  "PLAN_TO_PROJECT_STATUS PL_SKELETON = Some PJ_ACTIVE"
| "PLAN_TO_PROJECT_STATUS PL_EXECUTING = Some PJ_ACTIVE"
| "PLAN_TO_PROJECT_STATUS PL_INTEGRATING = Some PJ_INTEGRATING"
| "PLAN_TO_PROJECT_STATUS PL_EVALUATING = Some PJ_EVALUATING"
| "PLAN_TO_PROJECT_STATUS PL_COMPLETED = Some PJ_COMPLETED"
| "PLAN_TO_PROJECT_STATUS PL_FAILED = Some PJ_FAILED"
| "PLAN_TO_PROJECT_STATUS _ = None"

definition ROLLUP_IMMUTABLE_PROJECT_STATUSES :: "project_status set" where
  "ROLLUP_IMMUTABLE_PROJECT_STATUSES = {PJ_COMPLETED, PJ_CANCELLED, PJ_ON_HOLD}"

definition derive_project_status :: "plan_status \<Rightarrow> project_status \<Rightarrow> project_status" where
  "derive_project_status plan_status current =
     (if current \<in> ROLLUP_IMMUTABLE_PROJECT_STATUSES then current
      else case PLAN_TO_PROJECT_STATUS plan_status of None \<Rightarrow> current | Some mirrored \<Rightarrow> mirrored)"

text \<open>The check the module runs at import.\<close>

lemma stages_are_mirrored: "s \<in> STAGE_STATUSES \<Longrightarrow> PLAN_TO_PROJECT_STATUS s \<noteq> None"
  by (auto simp: plan_status_sets)

section \<open>Reading the items off the task table\<close>

definition TASK_PAGE_SIZE :: nat where
  "TASK_PAGE_SIZE = 200"

definition query_page :: "task list \<Rightarrow> ident \<Rightarrow> nat \<Rightarrow> nat \<Rightarrow> task list" where
  "query_page rows plan_id limit offset =
     take limit (drop offset (filter (\<lambda>t. t_plan_id t = Some plan_id) rows))"

definition index_page :: "task list \<Rightarrow> (ident \<rightharpoonup> task) \<Rightarrow> (ident \<rightharpoonup> task)" where
  "index_page page indexed =
     fold (\<lambda>t m. case t_plan_item_id t of None \<Rightarrow> m | Some k \<Rightarrow> m(k \<mapsto> t)) page indexed"

function tasks_by_item_loop :: "task list \<Rightarrow> ident \<Rightarrow> nat \<Rightarrow> (ident \<rightharpoonup> task) \<Rightarrow> (ident \<rightharpoonup> task)" where
  "tasks_by_item_loop rows plan_id offset indexed =
     (let page = query_page rows plan_id TASK_PAGE_SIZE offset; indexed' = index_page page indexed
      in if length page < TASK_PAGE_SIZE then indexed'
         else tasks_by_item_loop rows plan_id (offset + TASK_PAGE_SIZE) indexed')"
  by pat_completeness auto
termination
  by (relation "measure (\<lambda>(rows, plan_id, offset, _). length (filter (\<lambda>t. t_plan_id t = Some plan_id) rows) - offset)")
    (auto simp: query_page_def TASK_PAGE_SIZE_def)

declare tasks_by_item_loop.simps [simp del]

definition tasks_by_item :: "task list \<Rightarrow> ident \<Rightarrow> (ident \<rightharpoonup> task)" where
  "tasks_by_item rows plan_id = tasks_by_item_loop rows plan_id 0 Map.empty"

definition progress_of :: "(ident \<rightharpoonup> task) \<Rightarrow> plan_item \<Rightarrow> (progress_error, item_progress) outcome" where
  "progress_of by_item i =
     (case subtask_uuid (pi_id i) of
        Inl e \<Rightarrow> Inl (Bad_Item_Id e)
      | Inr k \<Rightarrow>
          (let t = by_item k; is_decision = pi_kind i = DECISION
           in validate_kind_fields
                \<lparr>ip_item_id = k, ip_kind = pi_kind i, ip_task_id = map_option t_id t,
                 ip_task_status = map_option t_status t,
                 ip_blocked_reason = (case t of None \<Rightarrow> None | Some t \<Rightarrow> t_blocked_reason t),
                 ip_chosen_option_id = (if is_decision then pi_chosen_option_id i else None),
                 ip_has_options = (if is_decision then pi_options i \<noteq> [] else False)\<rparr>))"

definition collect_item_progress :: "task list \<Rightarrow> plan \<Rightarrow> (progress_error, item_progress list) outcome" where
  "collect_item_progress rows p = map_outcome (progress_of (tasks_by_item rows (p_id p))) (p_items p)"

section \<open>Confirmed stalls\<close>

record confirmed_stall =
  cs_plan :: plan
  cs_reason :: stall_kind
  cs_items :: "item_progress list"
  cs_detail :: "string option"
  cs_granted_by :: "string option"

datatype stall_error = Blank_Stall_Field | Not_The_Live_Shape | Not_The_Tail_Stage

definition validate_reason_matches_evidence :: "confirmed_stall \<Rightarrow> (stall_error, confirmed_stall) outcome" where
  "validate_reason_matches_evidence c =
     (if \<not> opt_all not_blank (cs_detail c) \<or> \<not> opt_all not_blank (cs_granted_by c) then Inl Blank_Stall_Field
      else if cs_reason c \<in> ITEM_DERIVED_STALLS then
        (if stall_reason (cs_items c) \<noteq> Some (cs_reason c) then Inl Not_The_Live_Shape else Inr c)
      else if STAGE_OF_STALL_REASON (cs_reason c) \<noteq> Some (p_status (cs_plan c)) then Inl Not_The_Tail_Stage
      else Inr c)"

section \<open>Extensions of a workstream\<close>

datatype extension_disposition =
    GRAFTED | EXTENSION_RUNNING | EXTENSION_UNAVAILABLE | ASKED | EXTENSION_DISABLED | EXTENSIONS_EXHAUSTED

definition EXTENSION_IN_PROGRESS_DISPOSITIONS :: "extension_disposition set" where
  "EXTENSION_IN_PROGRESS_DISPOSITIONS = {GRAFTED, EXTENSION_RUNNING, EXTENSION_UNAVAILABLE}"

definition EXTENSION_REFUSED_DISPOSITIONS :: "extension_disposition set" where
  "EXTENSION_REFUSED_DISPOSITIONS = {EXTENSION_DISABLED, EXTENSIONS_EXHAUSTED}"

definition leaf_needs_extension :: "plan_item \<Rightarrow> item_progress \<Rightarrow> bool" where
  "leaf_needs_extension i progress \<longleftrightarrow> pi_unsplit_reason i \<noteq> None \<and> item_is_done progress"

definition workstream_needs_extension ::
  "plan_item list \<Rightarrow> plan_tree \<Rightarrow> plan_item \<Rightarrow> (ident \<rightharpoonup> item_progress) \<Rightarrow> plan_item list" where
  "workstream_needs_extension plan_items tr w progress_by_id =
     (let subtree = subtree_ids tr (pi_id w);
          subtree_items = filter (\<lambda>i. pi_id i \<in> subtree) plan_items;
          subtree_progress = List.map_filter (\<lambda>i. progress_by_id (pi_id i)) subtree_items
      in if length subtree_progress \<noteq> length subtree_items \<or> \<not> list_all item_is_done subtree_progress then []
         else filter (\<lambda>i. \<not> is_container tr (pi_id i) \<and>
                (case progress_by_id (pi_id i) of None \<Rightarrow> False | Some pr \<Rightarrow> leaf_needs_extension i pr)) subtree_items)"

definition workstream_extension_generation :: "plan_item list \<Rightarrow> plan_tree \<Rightarrow> plan_item \<Rightarrow> nat" where
  "workstream_extension_generation plan_items tr w =
     (let subtree = subtree_ids tr (pi_id w)
      in length (filter (\<lambda>i. pi_id i \<in> subtree \<and> pi_unsplit_reason i \<noteq> None \<and> is_container tr (pi_id i)) plan_items))"

section \<open>The derived status can be walked to\<close>

lemma derived_walks_check:
  "list_all (\<lambda>(s, t). case plan_transition_path s t of
       Inr (Some p) \<Rightarrow> drive plan_machine s p = Inr t \<and> set p \<inter> TERMINAL_STATUSES = {} \<and>
         (s \<in> {PL_EXECUTING, PL_INTEGRATING, PL_EVALUATING} \<longrightarrow> length p = 1 \<or> t = s) \<and>
         (PL_APPROVED \<in> set p \<longleftrightarrow> s \<in> {PL_PLANNING, PL_DRAFT, PL_PENDING_REVIEW} \<and> t \<noteq> s)
     | _ \<Rightarrow> False)
     ([(s, s). s \<leftarrow> filter (\<lambda>s. s \<notin> TERMINAL_STATUSES) all_plan_statuses] @
      [(s, PL_INTEGRATING). s \<leftarrow> [PL_PLANNING, PL_DRAFT, PL_PENDING_REVIEW, PL_APPROVED, PL_EXECUTING]] @
      [(PL_INTEGRATING, PL_EXECUTING), (PL_EVALUATING, PL_EXECUTING)])"
  by code_simp

lemma derived_cases:
  "derive_plan_status items s = s \<or>
   (s \<in> {PL_PLANNING, PL_DRAFT, PL_PENDING_REVIEW, PL_APPROVED, PL_EXECUTING} \<and> derive_plan_status items s = PL_INTEGRATING) \<or>
   (s \<in> TAIL_STATUSES \<and> derive_plan_status items s = PL_EXECUTING)"
  by (cases s) (auto simp: derive_plan_status_def plan_status_sets)

text \<open>
  Whatever the items say, the status derived for a live plan is one the plan machine
  walks to by validated hops that end no plan; from EXECUTING on it is at most one hop. The
  derivation is stable, moves neither a terminal plan nor one in the contract stage, and
  opens the tail exactly when there are items and all are done. The walk passes through
  APPROVED exactly when the plan had not been through review.
\<close>

theorem derived_plan_status_walkable:
  assumes "s \<notin> TERMINAL_STATUSES"
  shows "let t = derive_plan_status items s; all_done = (items \<noteq> [] \<and> (\<forall>i \<in> set items. item_is_done i)) in
     (\<exists>p. plan_transition_path s t = Inr (Some p) \<and> drive plan_machine s p = Inr t \<and> set p \<inter> TERMINAL_STATUSES = {} \<and>
        (s \<in> {PL_EXECUTING, PL_INTEGRATING, PL_EVALUATING} \<longrightarrow> length p \<le> 1) \<and>
        (PL_APPROVED \<in> set p \<longleftrightarrow> s \<in> {PL_PLANNING, PL_DRAFT, PL_PENDING_REVIEW} \<and> all_done)) \<and>
     derive_plan_status items t = t \<and> (s = PL_SKELETON \<longrightarrow> t = s) \<and>
     (s \<noteq> PL_SKELETON \<longrightarrow> (t \<in> TAIL_STATUSES \<longleftrightarrow> all_done))"
proof -
  let ?t = "derive_plan_status items s"
  let ?done = "items \<noteq> [] \<and> (\<forall>i \<in> set items. item_is_done i)"
  have "(s, ?t) \<in> set ([(s, s). s \<leftarrow> filter (\<lambda>s. s \<notin> TERMINAL_STATUSES) all_plan_statuses] @
      [(s, PL_INTEGRATING). s \<leftarrow> [PL_PLANNING, PL_DRAFT, PL_PENDING_REVIEW, PL_APPROVED, PL_EXECUTING]] @
      [(PL_INTEGRATING, PL_EXECUTING), (PL_EVALUATING, PL_EXECUTING)])"
    using derived_cases[of items s] assms by (auto simp: all_plan_statuses_UNIV TAIL_STATUSES_def)
  with derived_walks_check obtain p where p: "plan_transition_path s ?t = Inr (Some p)" "drive plan_machine s p = Inr ?t"
      "set p \<inter> TERMINAL_STATUSES = {}"
      "s \<in> {PL_EXECUTING, PL_INTEGRATING, PL_EVALUATING} \<longrightarrow> length p = 1 \<or> ?t = s"
      "PL_APPROVED \<in> set p \<longleftrightarrow> s \<in> {PL_PLANNING, PL_DRAFT, PL_PENDING_REVIEW} \<and> ?t \<noteq> s"
    unfolding list_all_iff by (fastforce split: sum.splits option.splits)
  have "p = []" if "?t = s" using p(1) unfolding that by (simp add: plan_transition_path_def path_to_def split: if_splits)
  with p(4) have "s \<in> {PL_EXECUTING, PL_INTEGRATING, PL_EVALUATING} \<longrightarrow> length p \<le> 1" by auto
  moreover have "?t \<noteq> s \<longleftrightarrow> ?done" if "s \<in> {PL_PLANNING, PL_DRAFT, PL_PENDING_REVIEW}"
    using that by (auto simp: derive_plan_status_def list_all_iff plan_status_sets split: if_splits)
  with p(5) have "PL_APPROVED \<in> set p \<longleftrightarrow> s \<in> {PL_PLANNING, PL_DRAFT, PL_PENDING_REVIEW} \<and> ?done" by blast
  moreover have "derive_plan_status items ?t = ?t \<and> (s = PL_SKELETON \<longrightarrow> ?t = s) \<and>
      (s \<noteq> PL_SKELETON \<longrightarrow> (?t \<in> TAIL_STATUSES \<longleftrightarrow> ?done))"
    using assms by (cases s) (auto simp: derive_plan_status_def list_all_iff plan_status_sets)
  ultimately show ?thesis using p(1-3) unfolding Let_def by blast
qed

definition demo_progress :: "plan_item_kind \<Rightarrow> task_status option \<Rightarrow> ident option \<Rightarrow> item_progress" where
  "demo_progress kind status chosen =
     \<lparr>ip_item_id = ''i'', ip_kind = kind, ip_task_id = map_option (\<lambda>_. ''t'') status, ip_task_status = status,
      ip_blocked_reason = None, ip_chosen_option_id = chosen, ip_has_options = (kind = DECISION)\<rparr>"

section \<open>A stall discards nobody's question\<close>

text \<open>
  A plan reads as stalled only when nothing in the organisation will move it: no item
  that is not done has a task that is in flight or waits for an answer, one parked on a
  reason somebody attends to, one that has not been filed yet, or a decision with options to
  choose from. The shape reported is one derived from items, and it is ALL_FAILED exactly
  when each of them is a task that was attempted and did not survive.
\<close>

theorem stall_discards_no_question:
  assumes "stall_reason items = Some reason"
  shows "reason \<in> ITEM_DERIVED_STALLS \<and> (\<exists>i \<in> set items. \<not> item_is_done i) \<and>
     (\<forall>i \<in> set items. \<not> item_is_done i \<longrightarrow>
        (case ip_kind i of
           DECISION \<Rightarrow> \<not> ip_has_options i
         | WORK \<Rightarrow> (\<forall>r. ip_blocked_reason i = Some r \<longrightarrow> PARK_EXIT r = REPLAN) \<and>
             (\<exists>s. ip_task_status i = Some s \<and> s \<notin> {CREATED, ASSIGNED, IN_PROGRESS, IN_REVIEW, AWAITING_INPUT, AUTH_REQUIRED}))) \<and>
     (reason = ALL_FAILED \<longleftrightarrow>
        (\<forall>i \<in> set items. \<not> item_is_done i \<longrightarrow>
           ip_kind i = WORK \<and> (\<exists>s \<in> {FAILED, REJECTED, CANCELLED}. ip_task_status i = Some s)))"
proof -
  let ?out = "filter (\<lambda>i. \<not> item_is_done i) items"
  have out: "?out \<noteq> []" "list_all outstanding_is_dead ?out"
    and reason: "reason = (if list_all is_failure_dead ?out then ALL_FAILED
      else if \<not> list_ex is_failure_dead ?out then STALL_BLOCKED else MIXED_DEAD)"
    using assms by (auto simp: stall_reason_def Let_def split: if_splits)
  have attended: "r \<in> set ATTENDED_BLOCKED_REASONS \<longleftrightarrow> PARK_EXIT r \<noteq> REPLAN" for r
    by (cases r) (simp_all add: ATTENDED_BLOCKED_REASONS_def all_blocked_reasons_def)
  have dead: "case ip_kind i of
           DECISION \<Rightarrow> \<not> ip_has_options i
         | WORK \<Rightarrow> (\<forall>r. ip_blocked_reason i = Some r \<longrightarrow> PARK_EXIT r = REPLAN) \<and>
             (\<exists>s. ip_task_status i = Some s \<and> s \<notin> {CREATED, ASSIGNED, IN_PROGRESS, IN_REVIEW, AWAITING_INPUT, AUTH_REQUIRED})"
    if "i \<in> set items" "\<not> item_is_done i" for i
  proof -
    have "outstanding_is_dead i" using out(2) that by (simp add: list_all_iff)
    then show ?thesis
      by (cases "ip_kind i"; cases "ip_blocked_reason i"; cases "ip_task_status i")
        (auto simp: outstanding_is_dead_def decision_item_is_dead_def work_item_is_dead_def attended status_in_def
          DEAD_STATUSES_def split: if_splits)
  qed
  have failure: "is_failure_dead i \<longleftrightarrow>
      ip_kind i = WORK \<and> (\<exists>s \<in> {FAILED, REJECTED, CANCELLED}. ip_task_status i = Some s)" for i
    by (cases "ip_kind i") (auto simp: is_failure_dead_def status_in_def DEAD_BY_FAILURE_def split: option.splits)
  have "reason = ALL_FAILED \<longleftrightarrow> list_all is_failure_dead ?out" using reason by simp
  moreover have "\<exists>i \<in> set items. \<not> item_is_done i" using out(1) by (auto simp: filter_empty_conv)
  ultimately show ?thesis
    using reason dead by (auto simp: list_all_iff failure ITEM_DERIVED_STALLS_def)
qed

section \<open>What is read off the task table\<close>

lemma index_page_append: "index_page (xs @ ys) m = index_page ys (index_page xs m)"
  by (simp add: index_page_def)

lemma tasks_by_item_loop_spec:
  "tasks_by_item_loop rows plan_id offset m =
     index_page (drop offset (filter (\<lambda>t. t_plan_id t = Some plan_id) rows)) m"
proof (induction rows plan_id offset m rule: tasks_by_item_loop.induct)
  case (1 rows plan_id offset m)
  let ?all = "drop offset (filter (\<lambda>t. t_plan_id t = Some plan_id) rows)"
  have page: "query_page rows plan_id TASK_PAGE_SIZE offset = take TASK_PAGE_SIZE ?all"
    by (simp add: query_page_def)
  show ?case
  proof (cases "length (take TASK_PAGE_SIZE ?all) < TASK_PAGE_SIZE")
    case True
    then have "take TASK_PAGE_SIZE ?all = ?all" by simp
    with True show ?thesis by (subst tasks_by_item_loop.simps) (simp only: page Let_def if_True)
  next
    case False
    then have "tasks_by_item_loop rows plan_id offset m =
        tasks_by_item_loop rows plan_id (offset + TASK_PAGE_SIZE) (index_page (take TASK_PAGE_SIZE ?all) m)"
      by (subst tasks_by_item_loop.simps) (simp only: page Let_def if_False)
    also have "\<dots> = index_page (drop TASK_PAGE_SIZE ?all) (index_page (take TASK_PAGE_SIZE ?all) m)"
      using False "1.IH"[OF refl refl] unfolding page by (simp add: add.commute)
    also have "\<dots> = index_page ?all m" by (metis append_take_drop_id index_page_append)
    finally show ?thesis .
  qed
qed

lemma index_page_lookup:
  "index_page rows m k = (case find (\<lambda>t. t_plan_item_id t = Some k) (rev rows) of None \<Rightarrow> m k | Some t \<Rightarrow> Some t)"
proof (induction rows rule: rev_induct)
  case (snoc t ts)
  then show ?case unfolding index_page_append by (cases "t_plan_item_id t") (auto simp: index_page_def[of "[t]"])
qed (simp add: index_page_def)

text \<open>The task of an item: the last row of the plan that names it.\<close>

definition task_of_item :: "task list \<Rightarrow> ident \<Rightarrow> ident \<Rightarrow> task option" where
  "task_of_item rows plan_id k = find (\<lambda>t. t_plan_id t = Some plan_id \<and> t_plan_item_id t = Some k) (rev rows)"

lemma find_filter: "find Q (filter P xs) = find (\<lambda>x. P x \<and> Q x) xs"
  by (induction xs) auto

lemma tasks_by_item_spec: "tasks_by_item rows plan_id k = task_of_item rows plan_id k"
  by (simp add: tasks_by_item_def tasks_by_item_loop_spec index_page_lookup task_of_item_def rev_filter find_filter
      split: option.splits)

lemma map_outcome_Inl: "map_outcome f xs = Inl e \<Longrightarrow> \<exists>x \<in> set xs. f x = Inl e"
proof (induction xs)
  case (Cons x xs)
  then show ?case by (cases "f x"; cases "map_outcome f xs") auto
qed simp

text \<open>What one item reads as.\<close>

definition read_item :: "task option \<Rightarrow> plan_item \<Rightarrow> item_progress" where
  "read_item t i =
     \<lparr>ip_item_id = pi_id i, ip_kind = pi_kind i, ip_task_id = map_option t_id t,
      ip_task_status = map_option t_status t,
      ip_blocked_reason = (case t of None \<Rightarrow> None | Some t \<Rightarrow> t_blocked_reason t),
      ip_chosen_option_id = (if pi_kind i = DECISION then pi_chosen_option_id i else None),
      ip_has_options = (if pi_kind i = DECISION then pi_options i \<noteq> [] else False)\<rparr>"

lemma progress_of_valid:
  assumes "validate_item i = Inr ()"
  shows "progress_of m i =
     (if pi_kind i = DECISION \<and> m (pi_id i) \<noteq> None
      then Inl (Decision_Carries_Task [''task_id'', ''task_status'']) else Inr (read_item (m (pi_id i)) i))"
proof -
  have "canonical_uuid (pi_id i)" "opt_all not_blank (pi_chosen_option_id i)"
    using assms by (auto simp: validate_item_def item_fields_ok_def split: if_splits)
  then show ?thesis
    by (cases "pi_kind i")
      (auto simp: progress_of_def subtask_uuid_def Let_def validate_kind_fields_def set_field_names_def read_item_def)
qed

lemma summary_bounds:
  "list_all (\<lambda>i. ip_kind i = DECISION \<longrightarrow> ip_task_status i = None) ps \<Longrightarrow>
   su_done (summarise_progress ps) + su_failed (summarise_progress ps) + su_blocked (summarise_progress ps) \<le> length ps"
proof (induction ps)
  case (Cons i ps)
  then show ?case
    by (cases "ip_kind i"; cases "ip_task_status i")
      (auto simp: summarise_progress_def item_is_done_def status_in_def progress_status_sets)
qed (simp add: summarise_progress_def)

text \<open>
  However many pages the task table is read in, a plan's items are paired with the rows
  that implement them, in plan order: the read of a valid plan fails exactly when a decision
  has a row, and otherwise an item is done exactly when its decision was taken or its row
  is COMPLETED, a row that names no item counts for none, and the items done, failed and
  blocked never add up to more than there are.
\<close>

theorem collected_items_exact:
  assumes "plan_entity_valid p"
  shows "case collect_item_progress rows p of
     Inl e \<Rightarrow> \<exists>i \<in> set (p_items p). pi_kind i = DECISION \<and> task_of_item rows (p_id p) (pi_id i) \<noteq> None
   | Inr ps \<Rightarrow>
       list_all2 (\<lambda>i pr. ip_item_id pr = pi_id i \<and> ip_kind pr = pi_kind i \<and> validate_kind_fields pr = Inr pr \<and>
         ip_task_status pr = map_option t_status (task_of_item rows (p_id p) (pi_id i)) \<and>
         (item_is_done pr \<longleftrightarrow> (case pi_kind i of
            DECISION \<Rightarrow> pi_chosen_option_id i \<noteq> None
          | WORK \<Rightarrow> (\<exists>t. task_of_item rows (p_id p) (pi_id i) = Some t \<and> t_status t = COMPLETED)))) (p_items p) ps \<and>
       su_total (summarise_progress ps) = length (p_items p) \<and>
       su_done (summarise_progress ps) + su_failed (summarise_progress ps) + su_blocked (summarise_progress ps)
         \<le> length (p_items p)"
proof -
  let ?t = "\<lambda>i. task_of_item rows (p_id p) (pi_id i)"
  have valid: "validate_item i = Inr ()" if "i \<in> set (p_items p)" for i
    using assms that by (simp add: plan_entity_valid_def list_all_iff)
  have one: "progress_of (tasks_by_item rows (p_id p)) i =
      (if pi_kind i = DECISION \<and> ?t i \<noteq> None then Inl (Decision_Carries_Task [''task_id'', ''task_status''])
       else Inr (read_item (?t i) i))" if "i \<in> set (p_items p)" for i
    using progress_of_valid[OF valid[OF that]] by (simp add: tasks_by_item_spec)
  have chosen: "opt_all not_blank (pi_chosen_option_id i)" if "i \<in> set (p_items p)" for i
    using valid[OF that] by (auto simp: validate_item_def item_fields_ok_def split: if_splits)
  show ?thesis
  proof (cases "collect_item_progress rows p")
    case (Inl e)
    then obtain i where "i \<in> set (p_items p)" "progress_of (tasks_by_item rows (p_id p)) i = Inl e"
      unfolding collect_item_progress_def by (blast dest: map_outcome_Inl)
    with one[of i] Inl show ?thesis by (auto split: if_splits)
  next
    case (Inr ps)
    let ?good = "\<lambda>i pr. pr = read_item (?t i) i \<and> \<not> (pi_kind i = DECISION \<and> ?t i \<noteq> None) \<and>
        opt_all not_blank (pi_chosen_option_id i)"
    have "list_all2 (\<lambda>i pr. progress_of (tasks_by_item rows (p_id p)) i = Inr pr) (p_items p) ps"
      using Inr by (simp add: collect_item_progress_def map_outcome_Inr)
    then have ps: "list_all2 ?good (p_items p) ps"
      by (rule list.rel_mono_strong) (simp add: one chosen split: if_splits)
    have "list_all (\<lambda>i. ip_kind i = DECISION \<longrightarrow> ip_task_status i = None) ps"
      using ps by (auto simp: list_all2_conv_all_nth list_all_length read_item_def)
    note summary_bounds[OF this]
    moreover have "list_all2 (\<lambda>i pr. ip_item_id pr = pi_id i \<and> ip_kind pr = pi_kind i \<and> validate_kind_fields pr = Inr pr \<and>
         ip_task_status pr = map_option t_status (?t i) \<and>
         (item_is_done pr \<longleftrightarrow> (case pi_kind i of
            DECISION \<Rightarrow> pi_chosen_option_id i \<noteq> None
          | WORK \<Rightarrow> (\<exists>t. ?t i = Some t \<and> t_status t = COMPLETED)))) (p_items p) ps"
      using ps
      by (rule list_all2_mono)
        (auto simp: read_item_def item_is_done_def validate_kind_fields_def set_field_names_def Let_def
          split: plan_item_kind.splits)
    ultimately show ?thesis
      using Inr list_all2_lengthD[OF ps] by (simp add: summarise_progress_def)
  qed
qed

end
