(* ===== verification/Initiative_Store.thy ===== *)
theory Initiative_Store
  imports Initiative_Progress Execution_Waves Task_Engine
begin

text \<open>
  The writes an initiative makes to the rows it shares with others: the audited plan
  writer (\<open>api/services/plan_service.py\<close>, \<open>plan_service_writes.py\<close>), walking a plan to a
  status under contention (\<open>engine/initiative/rollup_plan_advance.py\<close>), the guarded project
  writes (\<open>project_writes.py\<close>), and reading where a staged job has got to
  (\<open>stage_state.py\<close>, \<open>head_stages.py\<close>, \<open>tail_stages.py\<close>).

  A coroutine is a program: it runs on the shared rows and on the turns of the others. Before
  every access to a store the others take a turn, which is any change of the shared rows,
  and the access may raise. What the program itself did is its list of events, in order.
\<close>

section \<open>Shared rows\<close>

record project =
  pj_id :: ident
  pj_name :: string
  pj_description :: string
  pj_lead :: "string option"
  pj_plan_id :: "ident option"
  pj_deadline :: "string option"
  pj_budget :: rat
  pj_status :: project_status
  pj_autonomy_mode :: "string option"
  pj_version :: int
  pj_created_at :: int
  pj_updated_at :: int

datatype approval_status = APPROVAL_PENDING | APPROVAL_APPROVED | APPROVAL_REJECTED | APPROVAL_EXPIRED

text \<open>An approval with the metadata entries the initiative reads back.\<close>

record approval_item =
  ai_action_type :: string
  ai_requested_by :: string
  ai_plan_id :: "string option"
  ai_workstream_id :: "string option"
  ai_leaf_id :: "string option"
  ai_reason :: "string option"
  ai_disposition :: "string option"
  ai_status :: approval_status
  ai_created_at :: int

record world =
  w_plans :: "ident \<rightharpoonup> plan"
  w_projects :: "ident \<rightharpoonup> project"
  w_engine :: engine
  w_task_order :: "ident list"
  w_approvals :: "approval_item list"

definition task_rows :: "world \<Rightarrow> task list" where
  "task_rows w = List.map_filter (tasks (w_engine w)) (w_task_order w)"

section \<open>Programs\<close>

datatype rollup_event =
    Plan_Hop ident plan_status plan_status int
  | Project_Hop ident project_status project_status int
  | Project_Linked ident ident
  | Objective_Hop ident task_status
  | Skeleton_Scheduled ident nat
  | Integration_Scheduled ident nat
  | Evaluation_Scheduled ident
  | Units_Driven ident plan_status
  | Replan_Considered ident stall_kind
  | Extension_Considered ident ident ident
  | Extension_Granted ident ident ident
  | Decision_Raised approval_item
  | Retro_Captured ident ident

datatype rollup_exn =
    Version_Conflict
  | Illegal_Transition
  | Reason_Mismatch
  | Plan_Rule plan_error
  | Record_Missing
  | Store_Error
  | Unknown_Disposition
  | Progress_Refused progress_error
  | Rollup_Refused rollup_error
  | Walk_Failed walk_error

type_synonym turn = "(world \<Rightarrow> world) \<times> bool"

record run =
  r_world :: world
  r_turns :: "turn list"
  r_events :: "rollup_event list"

type_synonym 'a program = "run \<Rightarrow> (rollup_exn, 'a) outcome \<times> run"

definition ret :: "'a \<Rightarrow> 'a program" where
  "ret x = (\<lambda>s. (Inr x, s))"

definition raise :: "rollup_exn \<Rightarrow> 'a program" where
  "raise e = (\<lambda>s. (Inl e, s))"

definition attempt :: "'a program \<Rightarrow> ('a \<Rightarrow> 'b program) \<Rightarrow> (rollup_exn \<Rightarrow> 'b program) \<Rightarrow> 'b program" where
  "attempt m ok handler = (\<lambda>s. case m s of (Inl e, s') \<Rightarrow> handler e s' | (Inr x, s') \<Rightarrow> ok x s')"

definition seq :: "'a program \<Rightarrow> ('a \<Rightarrow> 'b program) \<Rightarrow> 'b program" where
  "seq m f = attempt m f raise"

definition lift :: "('e \<Rightarrow> rollup_exn) \<Rightarrow> ('e, 'a) outcome \<Rightarrow> 'a program" where
  "lift wrap r = (case r of Inl e \<Rightarrow> raise (wrap e) | Inr x \<Rightarrow> ret x)"

definition reading :: "(world \<Rightarrow> 'a) \<Rightarrow> 'a program" where
  "reading f = (\<lambda>s. (Inr (f (r_world s)), s))"

definition writing :: "(world \<Rightarrow> world) \<Rightarrow> unit program" where
  "writing f = (\<lambda>s. (Inr (), s\<lparr>r_world := f (r_world s)\<rparr>))"

definition emit :: "rollup_event \<Rightarrow> unit program" where
  "emit e = (\<lambda>s. (Inr (), s\<lparr>r_events := r_events s @ [e]\<rparr>))"

definition next_turn :: "run \<Rightarrow> bool \<times> run" where
  "next_turn s =
     (case r_turns s of
        [] \<Rightarrow> (False, s)
      | (f, fails) # ts \<Rightarrow> (fails, s\<lparr>r_world := f (r_world s), r_turns := ts\<rparr>))"

text \<open>Awaiting something that does not raise, and awaiting a store.\<close>

definition interleave :: "unit program" where
  "interleave = (\<lambda>s. (Inr (), snd (next_turn s)))"

definition store_access :: "unit program" where
  "store_access = (\<lambda>s. case next_turn s of (fails, s') \<Rightarrow> (if fails then Inl Store_Error else Inr (), s'))"

text \<open>A loop that remembers whether any element held.\<close>

fun any_holds :: "('a \<Rightarrow> bool program) \<Rightarrow> 'a list \<Rightarrow> bool program" where
  "any_holds f [] = ret False"
| "any_holds f (x # xs) = seq (f x) (\<lambda>b. seq (any_holds f xs) (\<lambda>c. ret (b \<or> c)))"

lemmas program_defs = ret_def raise_def attempt_def seq_def lift_def reading_def writing_def emit_def
  next_turn_def interleave_def store_access_def

section \<open>What a program does\<close>

text \<open>
  \<open>runs R m Q\<close>: a run of \<open>m\<close> is a step of \<open>R\<close>, whatever the others do, and a value it
  returns satisfies \<open>Q\<close>. When \<open>R\<close> is reflexive, transitive and includes the turns of the
  others, this is proved along the text of a program.
\<close>

definition runs :: "(run \<Rightarrow> run \<Rightarrow> bool) \<Rightarrow> 'a program \<Rightarrow> ('a \<Rightarrow> bool) \<Rightarrow> bool" where
  "runs R m Q \<longleftrightarrow> (\<forall>s. R s (snd (m s)) \<and> (\<forall>x. fst (m s) = Inr x \<longrightarrow> Q x))"

lemma runs_weaken: "runs R m P \<Longrightarrow> (\<And>x. P x \<Longrightarrow> Q x) \<Longrightarrow> runs R m Q"
  by (simp add: runs_def)

lemma runs_if: "runs R m Q \<Longrightarrow> runs R n Q \<Longrightarrow> runs R (if b then m else n) Q"
  by simp

locale program_logic =
  fixes R :: "run \<Rightarrow> run \<Rightarrow> bool"
  assumes step_refl: "R s s"
    and step_trans: "R s t \<Longrightarrow> R t u \<Longrightarrow> R s u"
    and step_turn: "R s (snd (next_turn s))"
begin

lemma ret: "Q x \<Longrightarrow> runs R (ret x) Q"
  by (simp add: runs_def ret_def step_refl)

lemma raise: "runs R (raise e) Q"
  by (simp add: runs_def raise_def step_refl)

lemma attempt:
  assumes "runs R m P" and "\<And>x. P x \<Longrightarrow> runs R (ok x) Q" and "\<And>e. runs R (handler e) Q"
  shows "runs R (attempt m ok handler) Q"
  unfolding runs_def
proof (intro allI conjI)
  fix s
  obtain r s' where m: "m s = (r, s')" by (cases "m s")
  from assms(1) m have "R s s'" and P: "\<And>x. r = Inr x \<Longrightarrow> P x"
    unfolding runs_def by (metis fst_conv snd_conv)+
  have rest: "runs R (case r of Inl e \<Rightarrow> handler e | Inr x \<Rightarrow> ok x) Q"
    using assms(2,3) P by (cases r) simp_all
  have eq: "attempt m ok handler s = (case r of Inl e \<Rightarrow> handler e | Inr x \<Rightarrow> ok x) s'"
    by (simp add: attempt_def m split: sum.splits)
  show "R s (snd (attempt m ok handler s))"
    using \<open>R s s'\<close> rest step_trans unfolding eq runs_def by blast
  show "\<And>x. fst (attempt m ok handler s) = Inr x \<longrightarrow> Q x"
    using rest unfolding eq runs_def by blast
qed

lemma seq: "runs R m P \<Longrightarrow> (\<And>x. P x \<Longrightarrow> runs R (f x) Q) \<Longrightarrow> runs R (seq m f) Q"
  unfolding seq_def by (rule attempt[where P = P]) (auto intro: raise)

lemmas after = seq[where P = "\<lambda>_. True"]

lemma lift: "(\<And>x. r = Inr x \<Longrightarrow> Q x) \<Longrightarrow> runs R (lift wrap r) Q"
  unfolding lift_def by (cases r) (auto intro: ret raise)

lemma reading: "(\<And>w. Q (f w)) \<Longrightarrow> runs R (reading f) Q"
  by (simp add: runs_def reading_def step_refl)

lemma writing: "(\<And>s. R s (s\<lparr>r_world := f (r_world s)\<rparr>)) \<Longrightarrow> Q () \<Longrightarrow> runs R (writing f) Q"
  by (simp add: runs_def writing_def)

lemma emit: "(\<And>s. R s (s\<lparr>r_events := r_events s @ [e]\<rparr>)) \<Longrightarrow> Q () \<Longrightarrow> runs R (emit e) Q"
  by (simp add: runs_def emit_def)

lemma interleave: "Q () \<Longrightarrow> runs R interleave Q"
  by (simp add: runs_def interleave_def step_turn)

lemma store_access: "Q () \<Longrightarrow> runs R store_access Q"
  using step_turn by (simp add: runs_def store_access_def case_prod_beta)

lemma any_holds: "(\<And>x. x \<in> set xs \<Longrightarrow> runs R (f x) (\<lambda>_. True)) \<Longrightarrow> runs R (any_holds f xs) (\<lambda>_. True)"
  by (induction xs) (auto intro!: ret after)

end

text \<open>Events are only added, and those that are satisfy \<open>G\<close>.\<close>

definition adds_only :: "(rollup_event \<Rightarrow> bool) \<Rightarrow> run \<Rightarrow> run \<Rightarrow> bool" where
  "adds_only G s t \<longleftrightarrow> (\<exists>es. r_events t = r_events s @ es \<and> list_all G es)"

lemma next_turn_events [simp]: "r_events (snd (next_turn s)) = r_events s"
  by (simp add: next_turn_def split: list.splits)

interpretation events: program_logic "adds_only G" for G
proof
  show "adds_only G s s" for s by (simp add: adds_only_def)
  show "adds_only G s t \<Longrightarrow> adds_only G t u \<Longrightarrow> adds_only G s u" for s t u
    unfolding adds_only_def by (elim exE) (rule exI, auto)
  show "adds_only G s (snd (next_turn s))" for s by (simp add: adds_only_def)
qed

abbreviation does :: "(rollup_event \<Rightarrow> bool) \<Rightarrow> 'a program \<Rightarrow> ('a \<Rightarrow> bool) \<Rightarrow> bool" where
  "does G \<equiv> runs (adds_only G)"

lemma does_writing: "Q () \<Longrightarrow> does G (writing f) Q"
  by (intro events.writing) (simp_all add: adds_only_def)

lemma does_emit: "G e \<Longrightarrow> Q () \<Longrightarrow> does G (emit e) Q"
  by (intro events.emit) (simp_all add: adds_only_def)

lemmas does_ret = events.ret
lemmas does_attempt = events.attempt
lemmas does_seq = events.seq
lemmas does_then = events.after
lemmas does_lift = events.lift
lemmas does_interleave = events.interleave
lemmas does_any_holds = events.any_holds
lemmas does_if = runs_if[where R = "adds_only G" for G]
lemmas does_weaken = runs_weaken[where R = "adds_only G" for G]
lemmas does_intros = events.ret events.raise events.lift events.reading does_writing does_emit events.interleave
  events.store_access

text \<open>While nobody else moves, the plans and the approvals stay.\<close>

definition keeps_rows :: "run \<Rightarrow> run \<Rightarrow> bool" where
  "keeps_rows s t \<longleftrightarrow>
     (r_turns s = [] \<longrightarrow> r_turns t = [] \<and> w_plans (r_world t) = w_plans (r_world s) \<and>
       w_approvals (r_world t) = w_approvals (r_world s))"

interpretation rows: program_logic keeps_rows
  by unfold_locales (auto simp: keeps_rows_def next_turn_def)

section \<open>The service and its ports\<close>

datatype drive_outcome = DRIVING | HELD | DRIVE_REFUSED

text \<open>A port answers from the rows as they are when it is asked.\<close>

record trigger_port =
  tg_consider :: "world \<Rightarrow> plan \<Rightarrow> stall_kind \<Rightarrow> replan_disposition"
  tg_consider_extension :: "world \<Rightarrow> plan \<Rightarrow> plan_item \<Rightarrow> plan_item \<Rightarrow> extension_disposition"

record rollup_service =
  rs_is_iso :: "string \<Rightarrow> bool"
  rs_now :: int
  rs_call_env :: call_env
  rs_request_id :: string
  rs_uuid5 :: "ident \<Rightarrow> string \<Rightarrow> ident"
  rs_task_engine :: bool
  rs_retro :: bool
  rs_skeleton :: bool
  rs_integration :: bool
  rs_evaluation :: bool
  rs_trigger :: "trigger_port option"
  rs_stall_escalation :: "bool option"
  rs_extension_escalation :: bool
  rs_driver :: "(world \<Rightarrow> plan \<Rightarrow> drive_outcome) option"
  rs_jit_enabled :: "(unit, bool) outcome option"

section \<open>The plan writer\<close>

definition plans_get :: "ident \<Rightarrow> plan option program" where
  "plans_get k = seq store_access (\<lambda>_. reading (\<lambda>w. w_plans w k))"

definition plans_update :: "plan \<Rightarrow> int \<Rightarrow> unit program" where
  "plans_update p expected =
     seq store_access (\<lambda>_. seq (reading (\<lambda>w. w_plans w (p_id p))) (\<lambda>row.
       case row of
         None \<Rightarrow> raise Record_Missing
       | Some q \<Rightarrow> if p_version q \<noteq> expected then raise Version_Conflict
                   else writing (\<lambda>w. w\<lparr>w_plans := (w_plans w)(p_id p \<mapsto> p)\<rparr>)))"

definition log_transition :: "plan_status \<Rightarrow> plan \<Rightarrow> unit program" where
  "log_transition from_status p =
     (if from_status = p_status p then ret ()
      else seq interleave (\<lambda>_. emit (Plan_Hop (p_id p) from_status (p_status p) (p_version p))))"

definition require_legal_transition :: "plan \<Rightarrow> plan_status \<Rightarrow> unit program" where
  "require_legal_transition p target =
     (if p_status p = target then ret ()
      else case plan_validate_transition (p_status p) target of Inl _ \<Rightarrow> raise Illegal_Transition | Inr _ \<Rightarrow> ret ())"

definition sync_status :: "rollup_service \<Rightarrow> plan \<Rightarrow> plan_status \<Rightarrow> string option \<Rightarrow> plan program" where
  "sync_status sv existing status failure_reason =
     seq (require_legal_transition existing status) (\<lambda>_.
       (let failing = (status = PL_FAILED)
        in if failing \<and> failure_reason = None then raise Reason_Mismatch
           else if failure_reason \<noteq> None \<and> \<not> failing then raise Reason_Mismatch
           else seq (case failure_reason of
                       Some reason \<Rightarrow> lift Plan_Rule (fail reason (Aware (rs_now sv)) existing)
                     | None \<Rightarrow> ret (existing\<lparr>p_status := status, p_version := p_version existing + 1,
                                     p_updated_at := Aware (rs_now sv)\<rparr>)) (\<lambda>decided.
                seq (plans_update decided (p_version existing)) (\<lambda>_.
                seq (log_transition (p_status existing) decided) (\<lambda>_.
                ret decided)))))"

section \<open>Walking a plan to a status\<close>

definition collect_items :: "plan \<Rightarrow> item_progress list program" where
  "collect_items p =
     seq store_access (\<lambda>_. seq (reading task_rows) (\<lambda>rows. lift Progress_Refused (collect_item_progress rows p)))"

fun walk_plan_hops :: "rollup_service \<Rightarrow> string option \<Rightarrow> plan \<Rightarrow> plan_status list \<Rightarrow> plan program" where
  "walk_plan_hops sv failure_reason current [] = ret current"
| "walk_plan_hops sv failure_reason current (hop # hops) =
     seq (sync_status sv current hop (if hop = PL_FAILED then failure_reason else None))
       (\<lambda>next. walk_plan_hops sv failure_reason next hops)"

definition walk_plan_to :: "rollup_service \<Rightarrow> plan \<Rightarrow> plan_status \<Rightarrow> string option \<Rightarrow> plan program" where
  "walk_plan_to sv p target failure_reason =
     seq (lift Walk_Failed (plan_transition_path (p_status p) target)) (\<lambda>path.
       case path of None \<Rightarrow> raise Illegal_Transition | Some hops \<Rightarrow> walk_plan_hops sv failure_reason p hops)"

record conflict_outcome =
  co_plan :: "plan option"
  co_retry_target :: "plan_status option"
  co_retry_reason :: "string option"

definition resolve_conflict :: "plan \<Rightarrow> plan_status \<Rightarrow> string option \<Rightarrow> conflict_outcome program" where
  "resolve_conflict current explicit_target explicit_reason =
     seq (plans_get (p_id current)) (\<lambda>row.
       case row of
         None \<Rightarrow> ret \<lparr>co_plan = None, co_retry_target = None, co_retry_reason = None\<rparr>
       | Some refreshed \<Rightarrow>
           if p_status refreshed \<in> TERMINAL_STATUSES
           then ret \<lparr>co_plan = Some refreshed, co_retry_target = None, co_retry_reason = None\<rparr>
           else seq (if explicit_target = PL_EVALUATING \<and> p_status refreshed = PL_INTEGRATING
                     then ret (PL_EVALUATING, explicit_reason)
                     else seq (collect_items refreshed)
                            (\<lambda>items. ret (derive_plan_status items (p_status refreshed), None)))
                (\<lambda>(target, reason).
                   if target = p_status refreshed
                   then ret \<lparr>co_plan = Some refreshed, co_retry_target = None, co_retry_reason = None\<rparr>
                   else ret \<lparr>co_plan = Some refreshed, co_retry_target = Some target, co_retry_reason = reason\<rparr>))"

definition MAX_WRITE_ATTEMPTS :: nat where
  "MAX_WRITE_ATTEMPTS = 3"

text \<open>The loop of \<open>advance_plan\<close>, over the attempts that are left.\<close>

fun advance_attempts ::
  "rollup_service \<Rightarrow> plan_status \<Rightarrow> nat \<Rightarrow> plan \<Rightarrow> plan_status \<Rightarrow> string option \<Rightarrow> plan option program" where
  "advance_attempts sv explicit_target 0 current target reason = ret None"
| "advance_attempts sv explicit_target (Suc n) current target reason =
     attempt (walk_plan_to sv current target reason) (\<lambda>p. ret (Some p)) (\<lambda>e.
       if e = Version_Conflict then
         seq (resolve_conflict current explicit_target reason) (\<lambda>out.
           case (co_plan out, co_retry_target out) of
             (Some p, Some t) \<Rightarrow> advance_attempts sv explicit_target n p t (co_retry_reason out)
           | _ \<Rightarrow> ret (co_plan out))
       else if e = Illegal_Transition then ret None
       else raise e)"

definition advance_plan :: "rollup_service \<Rightarrow> plan \<Rightarrow> plan_status \<Rightarrow> string option \<Rightarrow> plan option program" where
  "advance_plan sv p target failure_reason =
     advance_attempts sv target MAX_WRITE_ATTEMPTS p target failure_reason"

section \<open>Project writes\<close>

definition projects_get :: "ident \<Rightarrow> project option program" where
  "projects_get k = seq store_access (\<lambda>_. reading (\<lambda>w. w_projects w k))"

definition projects_update :: "project \<Rightarrow> int \<Rightarrow> unit program" where
  "projects_update p expected =
     seq store_access (\<lambda>_. seq (reading (\<lambda>w. w_projects w (pj_id p))) (\<lambda>row.
       case row of
         None \<Rightarrow> raise Record_Missing
       | Some q \<Rightarrow> if pj_version q \<noteq> expected then raise Version_Conflict
                   else writing (\<lambda>w. w\<lparr>w_projects := (w_projects w)(pj_id p \<mapsto> p)\<rparr>)))"

record project_advance =
  pa_project :: "project option"
  pa_before :: "project_status option"

text \<open>\<open>None\<close>: a concurrent write won and the walk must be restarted.\<close>

fun walk_project_hops :: "project \<Rightarrow> project_status list \<Rightarrow> project option program" where
  "walk_project_hops current [] = ret (Some current)"
| "walk_project_hops current (hop # hops) =
     (let updated = current\<lparr>pj_status := hop, pj_version := pj_version current + 1\<rparr>
      in attempt (projects_update updated (pj_version current))
           (\<lambda>_. seq interleave (\<lambda>_. seq (emit (Project_Hop (pj_id current) (pj_status current) hop (pj_version updated)))
              (\<lambda>_. walk_project_hops updated hops)))
           (\<lambda>e. if e = Version_Conflict then ret None else raise e))"

fun advance_project_attempts :: "nat \<Rightarrow> ident \<Rightarrow> project_status \<Rightarrow> project_advance program" where
  "advance_project_attempts 0 k target = ret \<lparr>pa_project = None, pa_before = None\<rparr>"
| "advance_project_attempts (Suc n) k target =
     seq (projects_get k) (\<lambda>row.
       case row of
         None \<Rightarrow> ret \<lparr>pa_project = None, pa_before = None\<rparr>
       | Some p \<Rightarrow>
           if pj_status p = target then ret \<lparr>pa_project = Some p, pa_before = Some (pj_status p)\<rparr>
           else seq (lift Walk_Failed (project_transition_path (pj_status p) target)) (\<lambda>path.
             case path of
               None \<Rightarrow> ret \<lparr>pa_project = Some p, pa_before = Some (pj_status p)\<rparr>
             | Some hops \<Rightarrow>
                 seq (walk_project_hops p hops) (\<lambda>walked.
                   case walked of
                     Some q \<Rightarrow> ret \<lparr>pa_project = Some q, pa_before = Some (pj_status p)\<rparr>
                   | None \<Rightarrow> advance_project_attempts n k target)))"

definition advance_project_status :: "ident \<Rightarrow> project_status \<Rightarrow> project_advance program" where
  "advance_project_status k target = advance_project_attempts MAX_WRITE_ATTEMPTS k target"

definition activation_target :: "project_status \<Rightarrow> project_status" where
  "activation_target current = (if current = PJ_PLANNING then PJ_ACTIVE else current)"

fun link_attempts :: "nat \<Rightarrow> ident \<Rightarrow> ident \<Rightarrow> project option program" where
  "link_attempts 0 k plan_id = ret None"
| "link_attempts (Suc n) k plan_id =
     seq (projects_get k) (\<lambda>row.
       case row of
         None \<Rightarrow> ret None
       | Some p \<Rightarrow>
           (let target = activation_target (pj_status p);
                updated = p\<lparr>pj_plan_id := Some plan_id, pj_status := target, pj_version := pj_version p + 1\<rparr>
            in attempt (projects_update updated (pj_version p))
                 (\<lambda>_. seq (emit (Project_Linked (pj_id p) plan_id)) (\<lambda>_.
                    if target = pj_status p then ret (Some updated)
                    else seq interleave (\<lambda>_.
                      seq (emit (Project_Hop (pj_id p) (pj_status p) target (pj_version updated))) (\<lambda>_.
                      ret (Some updated)))))
                 (\<lambda>e. if e = Version_Conflict then link_attempts n k plan_id else raise e)))"

definition link_project_to_plan :: "ident \<Rightarrow> ident \<Rightarrow> project option program" where
  "link_project_to_plan k plan_id = link_attempts MAX_WRITE_ATTEMPTS k plan_id"

section \<open>Where a staged job has got to\<close>

datatype stage_outcome = STAGE_ABSENT | STAGE_PENDING | STAGE_RUNNING | STAGE_PASSED | STAGE_FAILED

definition REDISPATCHABLE_STATUSES :: "task_status set" where
  "REDISPATCHABLE_STATUSES = {CREATED, INTERRUPTED}"

definition STAGE_FAILED_STATUSES :: "task_status set" where
  "STAGE_FAILED_STATUSES = {FAILED, REJECTED, CANCELLED}"

record stage_binding =
  sb_namespace :: string
  sb_actor :: string
  sb_max_attempts :: nat

record stage_state =
  st_attempt :: nat
  st_outcome :: stage_outcome
  st_task_id :: ident

definition NAMESPACE_OID :: ident where
  "NAMESPACE_OID = ''6ba7b812-9dad-11d1-80b4-00c04fd430c8''"

text \<open>The namespace of a binding is derived from its seed.\<close>

definition SKELETON_BINDING :: stage_binding where
  "SKELETON_BINDING = \<lparr>sb_namespace = ''synthorg.initiative.skeleton'', sb_actor = ''initiative-skeleton'',
     sb_max_attempts = 1\<rparr>"

definition INTEGRATION_BINDING :: stage_binding where
  "INTEGRATION_BINDING = \<lparr>sb_namespace = ''synthorg.initiative.integrate'', sb_actor = ''initiative-integrate'',
     sb_max_attempts = 3\<rparr>"

definition stage_task_uuid :: "rollup_service \<Rightarrow> stage_binding \<Rightarrow> plan \<Rightarrow> nat \<Rightarrow> ident" where
  "stage_task_uuid sv b p k = rs_uuid5 sv (rs_uuid5 sv NAMESPACE_OID (sb_namespace b)) (p_id p @ '':'' @ show_nat k)"

definition is_stage_task :: "stage_binding \<Rightarrow> plan \<Rightarrow> task \<Rightarrow> bool" where
  "is_stage_task b p t \<longleftrightarrow> t_plan_id t = Some (p_id p) \<and> t_plan_item_id t = None \<and> t_created_by t = sb_actor b"

definition tasks_get :: "ident \<Rightarrow> task option program" where
  "tasks_get k = seq store_access (\<lambda>_. reading (\<lambda>w. tasks (w_engine w) k))"

fun read_attempts :: "rollup_service \<Rightarrow> plan \<Rightarrow> stage_binding \<Rightarrow> bool \<Rightarrow> nat list \<Rightarrow> stage_state program" where
  "read_attempts sv p b allow_new_attempt [] =
     (let last_attempt = sb_max_attempts b - 1
      in ret \<lparr>st_attempt = last_attempt, st_outcome = STAGE_FAILED, st_task_id = stage_task_uuid sv b p last_attempt\<rparr>)"
| "read_attempts sv p b allow_new_attempt (k # ks) =
     (let i = stage_task_uuid sv b p k; state = (\<lambda>out. ret \<lparr>st_attempt = k, st_outcome = out, st_task_id = i\<rparr>)
      in seq (tasks_get i) (\<lambda>row.
           case row of
             None \<Rightarrow> state STAGE_ABSENT
           | Some t \<Rightarrow>
               if \<not> is_stage_task b p t then state STAGE_FAILED
               else if t_status t = COMPLETED then state STAGE_PASSED
               else if t_status t \<in> STAGE_FAILED_STATUSES
               then (if allow_new_attempt then read_attempts sv p b allow_new_attempt ks else state STAGE_FAILED)
               else if t_status t \<in> REDISPATCHABLE_STATUSES then state STAGE_PENDING
               else state STAGE_RUNNING))"

definition read_stage_state :: "rollup_service \<Rightarrow> plan \<Rightarrow> stage_binding \<Rightarrow> bool \<Rightarrow> stage_state program" where
  "read_stage_state sv p b allow_new_attempt = read_attempts sv p b allow_new_attempt [0..<sb_max_attempts b]"

section \<open>Only legal moves\<close>

text \<open>
  A plan hop is one the plan machine validates and never delivers, rejects or supersedes
  the plan; a project hop is one the project machine validates.
\<close>

fun legal_event :: "rollup_event \<Rightarrow> bool" where
  "legal_event (Plan_Hop k from target v) \<longleftrightarrow>
     plan_validate_transition from target = Inr () \<and> target \<notin> {PL_COMPLETED, PL_REJECTED, PL_SUPERSEDED}"
| "legal_event (Project_Hop k from target v) \<longleftrightarrow> project_validate_transition from target = Inr ()"
| "legal_event _ \<longleftrightarrow> True"

lemma plan_walks_check:
  "list_all (\<lambda>(s, t). case plan_transition_path s t of
       Inl _ \<Rightarrow> True | Inr None \<Rightarrow> True
     | Inr (Some p) \<Rightarrow> list_all (\<lambda>h. h \<notin> {PL_COMPLETED, PL_REJECTED, PL_SUPERSEDED}) p)
     (List.product all_plan_statuses [PL_EXECUTING, PL_INTEGRATING, PL_EVALUATING, PL_FAILED])"
  by code_simp

lemma plan_walk_never_delivers:
  assumes "t \<in> {PL_EXECUTING, PL_INTEGRATING, PL_EVALUATING, PL_FAILED}" and "plan_transition_path s t = Inr (Some p)"
    and "h \<in> set p"
  shows "h \<notin> {PL_COMPLETED, PL_REJECTED, PL_SUPERSEDED}"
proof -
  have "(s, t) \<in> set (List.product all_plan_statuses [PL_EXECUTING, PL_INTEGRATING, PL_EVALUATING, PL_FAILED])"
    using assms(1) by (auto simp: all_plan_statuses_UNIV)
  then show ?thesis using plan_walks_check assms(2,3) unfolding list_all_iff by fastforce
qed

lemma does_plans_get: "does G (plans_get k) (\<lambda>_. True)"
  unfolding plans_get_def by (intro does_then does_intros TrueI)

lemma does_plans_update: "does G (plans_update p v) (\<lambda>_. True)"
  unfolding plans_update_def
  by (intro does_then does_intros TrueI) (auto split: option.splits intro: does_intros)

lemma does_collect_items: "does G (collect_items p) (\<lambda>_. True)"
  unfolding collect_items_def by (intro does_then does_intros TrueI)

lemma does_sync_status:
  assumes "status \<notin> {PL_COMPLETED, PL_REJECTED, PL_SUPERSEDED}"
  shows "does legal_event (sync_status sv existing status reason) (\<lambda>q. p_status q = status \<and> p_id q = p_id existing)"
proof -
  let ?legal = "\<lambda>_ :: unit. p_status existing = status \<or> plan_validate_transition (p_status existing) status = Inr ()"
  have guard: "does legal_event (require_legal_transition existing status) ?legal"
    unfolding require_legal_transition_def by (auto split: sum.splits intro!: does_intros)
  let ?decided = "\<lambda>q. p_status q = status \<and> p_id q = p_id existing"
  have decide: "does legal_event (case r of Some reason \<Rightarrow> lift Plan_Rule (fail reason (Aware (rs_now sv)) existing)
      | None \<Rightarrow> ret (existing\<lparr>p_status := status, p_version := p_version existing + 1,
                      p_updated_at := Aware (rs_now sv)\<rparr>)) ?decided"
    if "r \<noteq> None \<longrightarrow> status = PL_FAILED" for r
    using that by (auto simp: fail_def split: option.splits intro!: does_intros)
  have log: "does legal_event (log_transition (p_status existing) q) (\<lambda>_. True)" if "?decided q" "?legal ()" for q
    using that assms unfolding log_transition_def by (auto intro!: does_intros does_then)
  let ?tail = "\<lambda>q. seq (plans_update q (p_version existing)) (\<lambda>_.
      seq (log_transition (p_status existing) q) (\<lambda>_. ret q))"
  have tail: "does legal_event (?tail q) ?decided" if "?decided q" "?legal ()" for q
    using that by (intro does_then[OF does_plans_update] does_then[OF log] does_ret) auto
  have body: "does legal_event (seq (case reason of
          Some reason \<Rightarrow> lift Plan_Rule (fail reason (Aware (rs_now sv)) existing)
        | None \<Rightarrow> ret (existing\<lparr>p_status := status, p_version := p_version existing + 1,
                        p_updated_at := Aware (rs_now sv)\<rparr>)) ?tail) ?decided"
    if "reason \<noteq> None \<longrightarrow> status = PL_FAILED" "?legal ()"
    by (rule does_seq[OF decide[OF that(1)] tail]) (use that(2) in auto)
  show ?thesis unfolding sync_status_def Let_def
    by (rule does_seq[OF guard]) (use body in \<open>cases reason; auto intro: events.raise\<close>)
qed

lemma does_walk_plan_hops:
  "(\<And>h. h \<in> set hops \<Longrightarrow> h \<notin> {PL_COMPLETED, PL_REJECTED, PL_SUPERSEDED}) \<Longrightarrow>
   does legal_event (walk_plan_hops sv reason current hops)
     (\<lambda>q. p_status q = last (p_status current # hops) \<and> p_id q = p_id current)"
proof (induction hops arbitrary: current)
  case (Cons hop hops)
  have "does legal_event (sync_status sv current hop (if hop = PL_FAILED then reason else None))
      (\<lambda>q. p_status q = hop \<and> p_id q = p_id current)"
    by (rule does_sync_status) (use Cons.prems[of hop] in simp)
  then show ?case unfolding walk_plan_hops.simps
    by (rule does_seq) (rule does_weaken[OF Cons.IH], use Cons.prems in auto)
qed (auto intro: does_intros)

abbreviation walk_target :: "plan_status \<Rightarrow> bool" where
  "walk_target t \<equiv> t \<in> {PL_EXECUTING, PL_INTEGRATING, PL_EVALUATING, PL_FAILED}"

lemma does_walk_plan_to:
  assumes "walk_target t"
  shows "does legal_event (walk_plan_to sv p t reason) (\<lambda>q. p_status q = t \<and> p_id q = p_id p)"
proof -
  have path: "does legal_event (lift Walk_Failed (plan_transition_path (p_status p) t))
      (\<lambda>path. plan_transition_path (p_status p) t = Inr path)"
    by (rule does_lift)
  have hops: "does legal_event (walk_plan_hops sv reason p hops) (\<lambda>q. p_status q = t \<and> p_id q = p_id p)"
    if "plan_transition_path (p_status p) t = Inr (Some hops)" for hops
  proof -
    have "last (p_status p # hops) = t"
      using that path_to_correct[where m = plan_machine and c = "p_status p" and t = t]
      by (auto simp: plan_transition_path_def legal_route_def split: if_splits)
    then show ?thesis
      using does_walk_plan_hops[of hops sv reason p] plan_walk_never_delivers[OF assms that] by simp
  qed
  show ?thesis unfolding walk_plan_to_def
    by (rule does_seq[OF path]) (auto split: option.splits intro: does_intros hops)
qed

lemma derived_is_walk_target: "derive_plan_status items s \<noteq> s \<Longrightarrow> walk_target (derive_plan_status items s)"
  by (auto simp: derive_plan_status_def Let_def split: if_splits)

lemma does_resolve_conflict:
  "does legal_event (resolve_conflict p t reason) (\<lambda>out. \<forall>r. co_retry_target out = Some r \<longrightarrow> walk_target r)"
proof -
  let ?good = "\<lambda>q. \<lambda>(target, reason :: string option). target = p_status q \<or> walk_target target"
  have choice: "does legal_event (if t = PL_EVALUATING \<and> p_status q = PL_INTEGRATING then ret (PL_EVALUATING, reason)
      else seq (collect_items q) (\<lambda>items. ret (derive_plan_status items (p_status q), None))) (?good q)" for q
    using derived_is_walk_target by (auto intro!: does_intros does_then[OF does_collect_items])
  have retry: "does legal_event (seq (if t = PL_EVALUATING \<and> p_status q = PL_INTEGRATING then ret (PL_EVALUATING, reason)
      else seq (collect_items q) (\<lambda>items. ret (derive_plan_status items (p_status q), None)))
      (\<lambda>(target, reason). if target = p_status q
        then ret \<lparr>co_plan = Some q, co_retry_target = None, co_retry_reason = None\<rparr>
        else ret \<lparr>co_plan = Some q, co_retry_target = Some target, co_retry_reason = reason\<rparr>))
      (\<lambda>out. \<forall>r. co_retry_target out = Some r \<longrightarrow> walk_target r)" for q
    by (rule does_seq[OF choice]) (auto intro!: does_ret)
  show ?thesis unfolding resolve_conflict_def
  proof (rule does_then[OF does_plans_get], goal_cases)
    case (1 row)
    show ?case
    proof (cases row)
      case (Some q)
      show ?thesis unfolding Some option.case by (rule does_if[OF does_ret retry]) simp
    qed (simp add: does_ret)
  qed
qed

lemma does_advance_attempts:
  "walk_target target \<Longrightarrow> does legal_event (advance_attempts sv t n p target reason) (\<lambda>_. True)"
proof (induction n arbitrary: p target reason)
  case (Suc n)
  show ?case unfolding advance_attempts.simps
    by (rule does_attempt[OF does_walk_plan_to[OF Suc.prems]])
      (auto intro!: does_intros does_seq[OF does_resolve_conflict] Suc.IH split: option.splits)
qed (simp add: does_intros)

lemma does_advance_plan: "walk_target t \<Longrightarrow> does legal_event (advance_plan sv p t reason) (\<lambda>_. True)"
  unfolding advance_plan_def by (rule does_advance_attempts)

lemma does_projects_get: "does G (projects_get k) (\<lambda>_. True)"
  unfolding projects_get_def by (intro does_then does_intros TrueI)

lemma does_projects_update: "does G (projects_update p v) (\<lambda>_. True)"
  unfolding projects_update_def
  by (intro does_then does_intros TrueI) (auto split: option.splits intro: does_intros)

lemma does_walk_project_hops:
  "route project_machine (pj_status p) hops \<Longrightarrow> does legal_event (walk_project_hops p hops) (\<lambda>_. True)"
proof (induction hops arbitrary: p)
  case (Cons hop hops)
  then show ?case
    by (auto simp: Let_def project_validate_transition_def validate_iff
        intro!: does_attempt[OF does_projects_update] does_intros does_then Cons.IH)
qed (simp add: does_intros)

lemma project_path_route: "project_transition_path s t = Inr (Some p) \<Longrightarrow> route project_machine s p"
  using path_to_correct[where m = project_machine and c = s and t = t]
  by (simp add: project_transition_path_def legal_route_def)

lemma does_advance_project: "does legal_event (advance_project_attempts n k t) (\<lambda>_. True)"
proof (induction n)
  case (Suc n)
  have path: "does legal_event (lift Walk_Failed (project_transition_path s t)) (\<lambda>r. project_transition_path s t = Inr r)" for s
    by (rule does_lift)
  show ?case
    by (auto intro!: does_then[OF does_projects_get] does_intros does_seq[OF path]
        does_then[OF does_walk_project_hops[OF project_path_route]] Suc.IH split: option.splits)
qed (simp add: does_intros)

lemma does_tasks_get: "does G (tasks_get k) (\<lambda>_. True)"
  unfolding tasks_get_def by (intro does_then does_intros TrueI)

lemma does_read_attempts: "does G (read_attempts sv p b allow ks) (\<lambda>_. True)"
  by (induction ks) (auto simp: Let_def intro!: does_intros does_then[OF does_tasks_get] split: option.splits)

section \<open>A write lands on the row it was computed from\<close>

definition after_turn :: "run \<Rightarrow> world" where
  "after_turn s = r_world (snd (next_turn s))"

lemma store_access_run: "seq store_access f s =
    (if fst (next_turn s) then (Inl Store_Error, snd (next_turn s)) else f () (snd (next_turn s)))"
  by (simp add: seq_def attempt_def store_access_def raise_def case_prod_beta)

lemma seq_reading [simp]: "seq (reading g) f s = f (g (r_world s)) s"
  by (simp add: seq_def attempt_def reading_def)

text \<open>
  A table of versioned rows: an update that returns has found the version it expected and
  replaced that row alone, one that raises has changed no row.
\<close>

locale versioned_table =
  fixes look :: "world \<Rightarrow> ident \<rightharpoonup> 'r"
    and key :: "'r \<Rightarrow> ident"
    and version :: "'r \<Rightarrow> int"
    and update :: "'r \<Rightarrow> int \<Rightarrow> unit program"
  assumes lands: "update r v s = (Inr (), s') \<Longrightarrow>
      (\<exists>q. look (after_turn s) (key r) = Some q \<and> version q = v) \<and> look (r_world s') = (look (after_turn s))(key r \<mapsto> r)"
    and refused: "update r v s = (Inl e, s') \<Longrightarrow> look (r_world s') = look (after_turn s)"
begin

text \<open>Others may change a row only by moving its version on.\<close>

definition moves_on :: "world \<Rightarrow> world \<Rightarrow> ident \<Rightarrow> bool" where
  "moves_on w w' k \<longleftrightarrow>
     (\<forall>p. look w k = Some p \<longrightarrow> look w' k = Some p \<or> (\<forall>q. look w' k = Some q \<longrightarrow> version p < version q))"

lemma no_lost_update:
  assumes "look (r_world s) (key r) = Some p" and "moves_on (r_world s) (after_turn s) (key r)"
    and "update r (version p) s = (Inr (), s')"
  shows "look (after_turn s) (key r) = Some p \<and> look (r_world s') = (look (after_turn s))(key r \<mapsto> r)"
  using lands[OF assms(3)] assms(1,2) by (auto simp: moves_on_def)

end

interpretation plan_table: versioned_table w_plans p_id p_version plans_update
  by unfold_locales
    (auto simp: plans_update_def store_access_run after_turn_def raise_def writing_def
      split: if_splits option.splits)

interpretation project_table: versioned_table w_projects pj_id pj_version projects_update
  by unfold_locales
    (auto simp: projects_update_def store_access_run after_turn_def raise_def writing_def
      split: if_splits option.splits)


section \<open>A small organisation\<close>

definition demo_project :: project where
  "demo_project =
     \<lparr>pj_id = ''p'', pj_name = ''P'', pj_description = [], pj_lead = None, pj_plan_id = Some demo_a, pj_deadline = None,
      pj_budget = 0, pj_status = PJ_ACTIVE, pj_autonomy_mode = None, pj_version = 1, pj_created_at = 0, pj_updated_at = 0\<rparr>"

definition demo_engine :: engine where
  "demo_engine = empty_engine\<lparr>tasks := [''goal'' \<mapsto> new_task ''goal'' ''O'' ''O'' DEVELOPMENT ''p'' ''ceo'' 0]\<rparr>"

definition demo_world :: "plan \<Rightarrow> world" where
  "demo_world p =
     \<lparr>w_plans = [p_id p \<mapsto> p], w_projects = [''p'' \<mapsto> demo_project], w_engine = demo_engine, w_task_order = [],
      w_approvals = []\<rparr>"

definition demo_service :: rollup_service where
  "demo_service =
     \<lparr>rs_is_iso = (\<lambda>_. True), rs_now = 7, rs_call_env = demo_env, rs_request_id = ''r'', rs_uuid5 = (\<lambda>ns name. ns @ name),
      rs_task_engine = True, rs_retro = True, rs_skeleton = True, rs_integration = True, rs_evaluation = True,
      rs_trigger = None, rs_stall_escalation = Some True, rs_extension_escalation = True, rs_driver = None,
      rs_jit_enabled = None\<rparr>"

definition demo_run :: "world \<Rightarrow> turn list \<Rightarrow> run" where
  "demo_run w ts = \<lparr>r_world = w, r_turns = ts, r_events = []\<rparr>"


end
