(* ===== verification/Initiative_Rollup.thy ===== *)
theory Initiative_Rollup
  imports Initiative_Store
begin

text \<open>
  The initiative rollup: every status of a plan, of its project and of its objective task is
  derived again from the persisted rows whenever a task of the plan changes
  (\<open>engine/initiative/rollup.py\<close>), the stage a plan sits in is driven (\<open>rollup_stages.py\<close>,
  \<open>extension_escalation.py\<close>), a stall is routed to a replan or to a person
  (\<open>stall_route.py\<close>, \<open>stall_escalation.py\<close>), and the objective task is walked along
  (\<open>rollup_parent_task.py\<close>, \<open>engine/coordination/parent_rollup.py\<close>).

  The collaborators the service is handed are ports: the replan trigger, the driver of
  waves and the staged jobs start detached work, whose effects are turns of the others.
  Notifications are not modelled.
\<close>

section \<open>Stalls\<close>

definition INITIATIVE_STALL_ACTION_TYPE :: string where
  "INITIATIVE_STALL_ACTION_TYPE = ''initiative:stalled''"

definition ESCALATION_ACTOR :: string where
  "ESCALATION_ACTOR = ''initiative-rollup''"

fun replan_disposition_value :: "replan_disposition \<Rightarrow> string" where
  "replan_disposition_value SCHEDULED = ''scheduled''"
| "replan_disposition_value ALREADY_RUNNING = ''already_running''"
| "replan_disposition_value UNAVAILABLE = ''unavailable''"
| "replan_disposition_value DISABLED = ''disabled''"
| "replan_disposition_value BUDGET_EXHAUSTED = ''budget_exhausted''"

text \<open>The dispositions \<open>_WHY\<close> has words for; looking up another raises.\<close>

definition WHY :: "replan_disposition option set" where
  "WHY = {None, Some DISABLED, Some BUDGET_EXHAUSTED}"

definition humanise :: "stall_kind \<Rightarrow> string" where
  "humanise reason = replace_underscores (stall_kind_value reason)"

definition stall_decision_open :: "plan \<Rightarrow> approval_item list \<Rightarrow> bool" where
  "stall_decision_open p items \<longleftrightarrow>
     list_ex (\<lambda>i. ai_status i = APPROVAL_PENDING \<and> ai_action_type i = INITIATIVE_STALL_ACTION_TYPE \<and>
       ai_requested_by i = ESCALATION_ACTOR \<and> ai_plan_id i = Some (p_id p)) items"

definition approvals_list :: "approval_item list program" where
  "approvals_list = seq store_access (\<lambda>_. reading w_approvals)"

definition approvals_add :: "approval_item \<Rightarrow> unit program" where
  "approvals_add i =
     seq store_access (\<lambda>_. seq (writing (\<lambda>w. w\<lparr>w_approvals := w_approvals w @ [i]\<rparr>)) (\<lambda>_. emit (Decision_Raised i)))"

definition stall_is_open :: "bool \<Rightarrow> plan \<Rightarrow> bool program" where
  "stall_is_open approvals p =
     (if \<not> approvals then ret False else seq approvals_list (\<lambda>items. ret (stall_decision_open p items)))"

definition build_stall_decision ::
  "rollup_service \<Rightarrow> plan \<Rightarrow> stall_kind \<Rightarrow> replan_disposition option \<Rightarrow> approval_item program" where
  "build_stall_decision sv p reason disposition =
     (if disposition \<notin> WHY then raise Unknown_Disposition
      else ret \<lparr>ai_action_type = INITIATIVE_STALL_ACTION_TYPE, ai_requested_by = ESCALATION_ACTOR,
             ai_plan_id = Some (p_id p), ai_workstream_id = None, ai_leaf_id = None,
             ai_reason = Some (stall_kind_value reason),
             ai_disposition = Some (case disposition of None \<Rightarrow> ''no_trigger'' | Some d \<Rightarrow> replan_disposition_value d),
             ai_status = APPROVAL_PENDING, ai_created_at = rs_now sv\<rparr>)"

definition stalled_text :: "string \<Rightarrow> string" where
  "stalled_text text = ''initiative stalled: '' @ text"

definition or_else :: "'a option program \<Rightarrow> 'a \<Rightarrow> 'a program" where
  "or_else m x = seq m (\<lambda>r. ret (case r of None \<Rightarrow> x | Some y \<Rightarrow> y))"

definition service_escalate ::
  "rollup_service \<Rightarrow> bool \<Rightarrow> plan \<Rightarrow> stall_kind \<Rightarrow> replan_disposition option \<Rightarrow> plan program" where
  "service_escalate sv approvals p reason disposition =
     (if \<not> approvals then or_else (advance_plan sv p PL_FAILED (Some (stalled_text (humanise reason)))) p
      else seq (stall_is_open approvals p) (\<lambda>open.
             if open then ret p
             else seq (build_stall_decision sv p reason disposition) (\<lambda>item.
                  seq (approvals_add item) (\<lambda>_. ret p))))"

definition escalate_stall ::
  "rollup_service \<Rightarrow> plan \<Rightarrow> stall_kind \<Rightarrow> replan_disposition option \<Rightarrow> plan program" where
  "escalate_stall sv p reason disposition =
     (case rs_stall_escalation sv of
        None \<Rightarrow> or_else (advance_plan sv p PL_FAILED (Some (stalled_text (stall_kind_value reason)))) p
      | Some approvals \<Rightarrow> attempt (service_escalate sv approvals p reason disposition) ret (\<lambda>_. ret p))"

definition decision_open :: "rollup_service \<Rightarrow> plan \<Rightarrow> bool program" where
  "decision_open sv p =
     (case rs_stall_escalation sv of
        None \<Rightarrow> ret False
      | Some approvals \<Rightarrow> attempt (stall_is_open approvals p) ret (\<lambda>_. ret False))"

definition consider_replan :: "trigger_port \<Rightarrow> plan \<Rightarrow> stall_kind \<Rightarrow> replan_disposition program" where
  "consider_replan tg p reason =
     seq interleave (\<lambda>_. seq (emit (Replan_Considered (p_id p) reason)) (\<lambda>_. reading (\<lambda>w. tg_consider tg w p reason)))"

definition route_stall :: "rollup_service \<Rightarrow> plan \<Rightarrow> stall_kind \<Rightarrow> plan program" where
  "route_stall sv p reason =
     seq (decision_open sv p) (\<lambda>open.
       if open then ret p
       else case rs_trigger sv of
              None \<Rightarrow> escalate_stall sv p reason None
            | Some tg \<Rightarrow> seq (consider_replan tg p reason) (\<lambda>d.
                if d \<in> REPLAN_IN_PROGRESS_DISPOSITIONS then ret p else escalate_stall sv p reason (Some d)))"

section \<open>Staged jobs\<close>

definition hand_to_driver :: "(world \<Rightarrow> plan \<Rightarrow> drive_outcome) \<Rightarrow> plan \<Rightarrow> drive_outcome program" where
  "hand_to_driver driver p =
     seq interleave (\<lambda>_. seq (emit (Units_Driven (p_id p) (p_status p))) (\<lambda>_. reading (\<lambda>w. driver w p)))"

definition dispatch_units :: "rollup_service \<Rightarrow> plan \<Rightarrow> plan program" where
  "dispatch_units sv p =
     (case rs_driver sv of
        None \<Rightarrow> ret p
      | Some driver \<Rightarrow> seq (hand_to_driver driver p) (\<lambda>out.
          if out = DRIVE_REFUSED then route_stall sv p SKELETON_FAILED else ret p))"

definition drive_skeleton :: "rollup_service \<Rightarrow> plan \<Rightarrow> bool \<Rightarrow> plan program" where
  "drive_skeleton sv p reopened =
     (if \<not> rs_skeleton sv then ret p
      else seq (read_stage_state sv p SKELETON_BINDING reopened) (\<lambda>st.
        case st_outcome st of
          STAGE_ABSENT \<Rightarrow> seq (emit (Skeleton_Scheduled (p_id p) (st_attempt st))) (\<lambda>_. ret p)
        | STAGE_PENDING \<Rightarrow> seq (emit (Skeleton_Scheduled (p_id p) (st_attempt st))) (\<lambda>_. ret p)
        | STAGE_PASSED \<Rightarrow> seq (advance_plan sv p PL_EXECUTING None) (\<lambda>advanced.
            case advanced of None \<Rightarrow> ret p | Some q \<Rightarrow> dispatch_units sv q)
        | STAGE_FAILED \<Rightarrow> route_stall sv p SKELETON_FAILED
        | STAGE_RUNNING \<Rightarrow> ret p))"

definition drive_integration :: "rollup_service \<Rightarrow> plan \<Rightarrow> bool \<Rightarrow> plan program" where
  "drive_integration sv p reopened =
     (if \<not> rs_integration sv then ret p
      else seq (read_stage_state sv p INTEGRATION_BINDING reopened) (\<lambda>st.
        case st_outcome st of
          STAGE_ABSENT \<Rightarrow> seq (emit (Integration_Scheduled (p_id p) (st_attempt st))) (\<lambda>_. ret p)
        | STAGE_PENDING \<Rightarrow> seq (emit (Integration_Scheduled (p_id p) (st_attempt st))) (\<lambda>_. ret p)
        | STAGE_PASSED \<Rightarrow> or_else (advance_plan sv p PL_EVALUATING None) p
        | STAGE_FAILED \<Rightarrow> route_stall sv p INTEGRATION_FAILED
        | STAGE_RUNNING \<Rightarrow> ret p))"

definition drive_evaluation :: "rollup_service \<Rightarrow> plan \<Rightarrow> unit program" where
  "drive_evaluation sv p = (if \<not> rs_evaluation sv then ret () else emit (Evaluation_Scheduled (p_id p)))"

definition run_stage :: "rollup_service \<Rightarrow> plan \<Rightarrow> bool \<Rightarrow> plan program" where
  "run_stage sv p reopened =
     seq (if p_status p = PL_SKELETON then drive_skeleton sv p reopened else ret p) (\<lambda>p.
     seq (if p_status p = PL_INTEGRATING then drive_integration sv p reopened else ret p) (\<lambda>p.
     seq (if p_status p = PL_EVALUATING then drive_evaluation sv p else ret ()) (\<lambda>_. ret p)))"

section \<open>Extensions\<close>

definition INITIATIVE_EXTENSION_ACTION_TYPE :: string where
  "INITIATIVE_EXTENSION_ACTION_TYPE = ''initiative:extension_ask''"

definition EXTENSION_ESCALATION_ACTOR :: string where
  "EXTENSION_ESCALATION_ACTOR = ''initiative-extension-rollup''"

text \<open>\<open>max\<close> keeps the first of the newest.\<close>

definition newest :: "approval_item \<Rightarrow> approval_item list \<Rightarrow> approval_item" where
  "newest i is = foldl (\<lambda>best j. if ai_created_at best < ai_created_at j then j else best) i is"

definition decision_for :: "approval_item list \<Rightarrow> plan_item \<Rightarrow> approval_item option" where
  "decision_for decisions leaf =
     (let matches = filter (\<lambda>i. ai_requested_by i = EXTENSION_ESCALATION_ACTOR \<and> ai_leaf_id i = Some (pi_id leaf)) decisions
      in case find (\<lambda>i. ai_status i = APPROVAL_PENDING) matches of
           Some pending \<Rightarrow> Some pending
         | None \<Rightarrow> (case matches of [] \<Rightarrow> None | i # is \<Rightarrow> Some (newest i is)))"

definition open_decisions :: "plan \<Rightarrow> approval_item list program" where
  "open_decisions p =
     seq approvals_list (\<lambda>items. ret (filter (\<lambda>i. ai_action_type i = INITIATIVE_EXTENSION_ACTION_TYPE \<and>
       ai_plan_id i = Some (p_id p)) items))"

definition escalate_extension :: "rollup_service \<Rightarrow> plan \<Rightarrow> plan_item \<Rightarrow> plan_item \<Rightarrow> unit program" where
  "escalate_extension sv p workstream leaf =
     seq (open_decisions p) (\<lambda>decisions.
       if map_option ai_status (decision_for decisions leaf) = Some APPROVAL_PENDING then ret ()
       else approvals_add
         \<lparr>ai_action_type = INITIATIVE_EXTENSION_ACTION_TYPE, ai_requested_by = EXTENSION_ESCALATION_ACTOR,
          ai_plan_id = Some (p_id p), ai_workstream_id = Some (pi_id workstream), ai_leaf_id = Some (pi_id leaf),
          ai_reason = None, ai_disposition = None, ai_status = APPROVAL_PENDING, ai_created_at = rs_now sv\<rparr>)"

definition drive_leaf_extension ::
  "rollup_service \<Rightarrow> trigger_port \<Rightarrow> plan \<Rightarrow> approval_item list \<Rightarrow> plan_item \<Rightarrow> plan_item \<Rightarrow> bool program" where
  "drive_leaf_extension sv tg p decisions workstream leaf =
     (case map_option ai_status (decision_for decisions leaf) of
        Some APPROVAL_REJECTED \<Rightarrow> ret False
      | Some APPROVAL_PENDING \<Rightarrow> ret True
      | Some APPROVAL_APPROVED \<Rightarrow>
          seq interleave (\<lambda>_. seq (emit (Extension_Granted (p_id p) (pi_id workstream) (pi_id leaf))) (\<lambda>_. ret True))
      | _ \<Rightarrow>
          seq interleave (\<lambda>_. seq (emit (Extension_Considered (p_id p) (pi_id workstream) (pi_id leaf))) (\<lambda>_.
          seq (reading (\<lambda>w. tg_consider_extension tg w p workstream leaf)) (\<lambda>d.
            if d = ASKED then
              (if \<not> rs_extension_escalation sv then ret False
               else seq (escalate_extension sv p workstream leaf) (\<lambda>_. ret True))
            else if d \<in> EXTENSION_IN_PROGRESS_DISPOSITIONS then ret True
            else if d \<notin> EXTENSION_REFUSED_DISPOSITIONS then raise Unknown_Disposition
            else ret False))))"

definition drive_extensions :: "rollup_service \<Rightarrow> plan \<Rightarrow> item_progress list \<Rightarrow> bool program" where
  "drive_extensions sv p items =
     (case rs_trigger sv of
        None \<Rightarrow> ret False
      | Some tg \<Rightarrow>
          (let tr = tree_of (p_items p); progress_by_id = map_of (rev (zip (map pi_id (p_items p)) items))
           in seq (if rs_extension_escalation sv then open_decisions p else ret []) (\<lambda>decisions.
                any_holds (\<lambda>w. any_holds (drive_leaf_extension sv tg p decisions w)
                  (workstream_needs_extension (p_items p) tr w progress_by_id)) (workstreams tr))))"

definition jit_extension_planning_enabled :: "rollup_service \<Rightarrow> bool program" where
  "jit_extension_planning_enabled sv =
     (case rs_jit_enabled sv of
        None \<Rightarrow> ret False
      | Some r \<Rightarrow> seq interleave (\<lambda>_. ret (case r of Inl _ \<Rightarrow> False | Inr b \<Rightarrow> b)))"

definition extensions_hold :: "rollup_service \<Rightarrow> plan \<Rightarrow> item_progress list \<Rightarrow> bool program" where
  "extensions_hold sv p items =
     seq (jit_extension_planning_enabled sv) (\<lambda>on. if \<not> on then ret False else drive_extensions sv p items)"

section \<open>The objective task\<close>

definition OBJECTIVE_FINISHED_STATUSES :: "task_status set" where
  "OBJECTIVE_FINISHED_STATUSES = {COMPLETED, FAILED, CANCELLED, REJECTED}"

definition parent_status_of :: "item_progress \<Rightarrow> task_status" where
  "parent_status_of i =
     (if ip_kind i = DECISION then (if ip_chosen_option_id i \<noteq> None then COMPLETED else IN_PROGRESS)
      else case ip_task_status i of None \<Rightarrow> IN_PROGRESS | Some s \<Rightarrow> s)"

definition COORDINATOR_ACTOR :: string where
  "COORDINATOR_ACTOR = ''coordinator''"

definition hop_overrides :: "task_status \<Rightarrow> field_update list" where
  "hop_overrides hop = (if hop = ASSIGNED then [Set_Assigned_To (Some COORDINATOR_ACTOR)] else [])"

record parent_update_outcome =
  pu_success :: bool
  pu_hops_completed :: nat

definition show_count :: "int \<Rightarrow> int \<Rightarrow> string" where
  "show_count n m = show_nat (nat n) @ ''/'' @ show_nat (nat m)"

definition rollup_reason :: "subtask_status_rollup \<Rightarrow> string" where
  "rollup_reason ro =
     ''Coordination rollup: '' @ show_count (ro_completed ro) (ro_total ro) @ '' completed, '' @
     show_count (ro_failed ro) (ro_total ro) @ '' failed''"

text \<open>A submission that the engine applies when its turn comes.\<close>

definition submit_hop :: "rollup_service \<Rightarrow> transition_mutation \<Rightarrow> mutation_result program" where
  "submit_hop sv m =
     seq store_access (\<lambda>_. seq (reading (\<lambda>w. dispatch (rs_is_iso sv) (rs_call_env sv) (Transition_Task m) (w_engine w))) (\<lambda>(r, e).
     seq (writing (\<lambda>w. w\<lparr>w_engine := e\<rparr>)) (\<lambda>_. lift (\<lambda>_. Store_Error) r)))"

fun walk_parent_hops ::
  "rollup_service \<Rightarrow> ident \<Rightarrow> string \<Rightarrow> nat \<Rightarrow> task_status list \<Rightarrow> parent_update_outcome program" where
  "walk_parent_hops sv task_id final_reason completed [] = ret \<lparr>pu_success = True, pu_hops_completed = completed\<rparr>"
| "walk_parent_hops sv task_id final_reason completed (hop # hops) =
     seq (submit_hop sv \<lparr>tm_request_id = rs_request_id sv, tm_requested_by = COORDINATOR_ACTOR, tm_task_id = task_id,
            tm_target_status = hop, tm_reason = (if hops = [] then final_reason else ''Coordination lifecycle advance''),
            tm_overrides = hop_overrides hop, tm_expected_version = None\<rparr>) (\<lambda>r.
       if \<not> mr_success r
       then seq (attempt (tasks_get task_id) (\<lambda>_. ret ()) (\<lambda>_. ret ()))
              (\<lambda>_. ret \<lparr>pu_success = False, pu_hops_completed = completed\<rparr>)
       else seq (emit (Objective_Hop task_id hop)) (\<lambda>_. walk_parent_hops sv task_id final_reason (Suc completed) hops))"

definition walk_parent ::
  "rollup_service \<Rightarrow> ident \<Rightarrow> task_status \<Rightarrow> subtask_status_rollup \<Rightarrow> task_status option \<Rightarrow> parent_update_outcome program" where
  "walk_parent sv task_id current rollup target =
     (let walk_to = (case target of None \<Rightarrow> derived_parent_status rollup | Some t \<Rightarrow> t)
      in seq (lift Walk_Failed (transition_path current walk_to)) (\<lambda>path.
           case path of
             None \<Rightarrow> ret \<lparr>pu_success = False, pu_hops_completed = 0\<rparr>
           | Some hops \<Rightarrow> walk_parent_hops sv task_id (rollup_reason rollup) 0 hops))"

definition live_status :: "ident \<Rightarrow> task_status \<Rightarrow> task_status program" where
  "live_status task_id fallback =
     attempt (tasks_get task_id) (\<lambda>live. ret (case live of None \<Rightarrow> fallback | Some t \<Rightarrow> t_status t)) (\<lambda>_. ret fallback)"

definition advance_parent_to_rollup_status ::
  "rollup_service \<Rightarrow> ident \<Rightarrow> task_status \<Rightarrow> subtask_status_rollup \<Rightarrow> task_status option \<Rightarrow> parent_update_outcome program" where
  "advance_parent_to_rollup_status sv task_id current rollup target =
     seq (live_status task_id current) (\<lambda>live. walk_parent sv task_id live rollup target)"

definition objective_target :: "plan_status \<Rightarrow> subtask_status_rollup \<Rightarrow> task_status" where
  "objective_target status rollup =
     (let derived = derived_parent_status rollup;
          held = (derived \<in> OBJECTIVE_FINISHED_STATUSES \<and> status \<noteq> PL_COMPLETED)
      in if held then IN_PROGRESS else derived)"

definition advance_objective_task :: "rollup_service \<Rightarrow> plan \<Rightarrow> item_progress list \<Rightarrow> unit program" where
  "advance_objective_task sv p items =
     (if \<not> rs_task_engine sv \<or> items = [] then ret ()
      else if p_status p = PL_SUPERSEDED then ret ()
      else seq (tasks_get (p_parent_task_id p)) (\<lambda>live.
        case live of
          None \<Rightarrow> ret ()
        | Some t \<Rightarrow>
            seq (lift Rollup_Refused (compute_rollup (p_parent_task_id p) (map parent_status_of items))) (\<lambda>rollup.
            seq (advance_parent_to_rollup_status sv (p_parent_task_id p) (t_status t) rollup
                   (Some (objective_target (p_status p) rollup))) (\<lambda>_. ret ()))))"

section \<open>One recompute\<close>

definition resolve_stall :: "rollup_service \<Rightarrow> plan \<Rightarrow> item_progress list \<Rightarrow> plan program" where
  "resolve_stall sv p items =
     (if p_status p \<in> TERMINAL_STATUSES then ret p
      else case stall_reason items of None \<Rightarrow> ret p | Some reason \<Rightarrow> route_stall sv p reason)"

definition maybe_capture_retro :: "rollup_service \<Rightarrow> plan \<Rightarrow> project option \<Rightarrow> project_status \<Rightarrow> unit program" where
  "maybe_capture_retro sv p pj before =
     (case pj of
        None \<Rightarrow> ret ()
      | Some q \<Rightarrow> if \<not> rs_retro sv \<or> before = PJ_COMPLETED \<or> pj_status q \<noteq> PJ_COMPLETED then ret ()
                  else emit (Retro_Captured (p_id p) (pj_id q)))"

definition project_status_of :: "plan \<Rightarrow> project_status program" where
  "project_status_of p =
     seq (projects_get (p_project p)) (\<lambda>row. ret (case row of None \<Rightarrow> PJ_PLANNING | Some q \<Rightarrow> pj_status q))"

definition reconcile_project :: "rollup_service \<Rightarrow> plan \<Rightarrow> item_progress list \<Rightarrow> unit program" where
  "reconcile_project sv p items =
     seq (project_status_of p) (\<lambda>current.
     seq (advance_project_status (p_project p) (derive_project_status (p_status p) current)) (\<lambda>advance.
     seq (advance_objective_task sv p items) (\<lambda>_.
     maybe_capture_retro sv p (pa_project advance)
       (case pa_before advance of None \<Rightarrow> current | Some before \<Rightarrow> before))))"

text \<open>A terminal plan is not moved, only its project is reconciled.\<close>

definition settle_plan :: "rollup_service \<Rightarrow> plan \<Rightarrow> item_progress list \<Rightarrow> plan program" where
  "settle_plan sv p items =
     (if p_status p \<in> TERMINAL_STATUSES then ret p
      else seq (if p_status p = PL_EXECUTING then extensions_hold sv p items else ret False) (\<lambda>held.
           seq (if held then ret p
                else let derived = derive_plan_status items (p_status p)
                     in if derived = p_status p then ret p else or_else (advance_plan sv p derived None) p) (\<lambda>q.
           run_stage sv q (p_status q \<noteq> p_status p))))"

definition recompute :: "rollup_service \<Rightarrow> ident \<Rightarrow> unit program" where
  "recompute sv plan_id =
     seq (plans_get plan_id) (\<lambda>row.
       case row of
         None \<Rightarrow> ret ()
       | Some p \<Rightarrow>
           seq (collect_items p) (\<lambda>items.
           seq (settle_plan sv p items) (\<lambda>q.
           seq (resolve_stall sv q items) (\<lambda>r.
           reconcile_project sv r items))))"

definition report_stage_stall :: "rollup_service \<Rightarrow> ident \<Rightarrow> stall_kind \<Rightarrow> replan_disposition option \<Rightarrow> unit program" where
  "report_stage_stall sv plan_id reason disposition =
     seq (plans_get plan_id) (\<lambda>row.
       case row of
         None \<Rightarrow> ret ()
       | Some p \<Rightarrow> seq (escalate_stall sv p reason disposition) (\<lambda>_. ret ()))"

text \<open>The observer: what a recompute raises stays here.\<close>

definition on_task_state_changed :: "rollup_service \<Rightarrow> task option \<Rightarrow> task_status option \<Rightarrow> unit program" where
  "on_task_state_changed sv changed new_status =
     (case (changed, new_status) of
        (Some t, Some _) \<Rightarrow>
          (case t_plan_id t of None \<Rightarrow> ret () | Some plan_id \<Rightarrow> attempt (recompute sv plan_id) ret (\<lambda>_. ret ()))
      | _ \<Rightarrow> ret ())"

section \<open>Whatever the others do, only legal moves\<close>

lemma does_or_else: "does G m (\<lambda>_. True) \<Longrightarrow> does G (or_else m x) (\<lambda>_. True)"
  unfolding or_else_def by (erule does_then) (rule does_ret, rule TrueI)

lemma does_approvals_list: "does G approvals_list (\<lambda>_. True)"
  unfolding approvals_list_def by (intro does_then does_intros TrueI)

lemma does_approvals_add: "G (Decision_Raised i) \<Longrightarrow> does G (approvals_add i) (\<lambda>_. True)"
  unfolding approvals_add_def by (intro does_then does_intros TrueI)

lemma does_stall_is_open: "does G (stall_is_open a p) (\<lambda>_. True)"
  unfolding stall_is_open_def by (intro does_if does_then[OF does_approvals_list] does_ret TrueI)

lemma does_escalate_stall: "does legal_event (escalate_stall sv p reason d) (\<lambda>_. True)"
proof -
  have failed: "does legal_event (or_else (advance_plan sv p PL_FAILED r) p) (\<lambda>_. True)" for r
    by (intro does_or_else does_advance_plan) simp
  have decision: "does legal_event (build_stall_decision sv p reason d) (\<lambda>_. True)"
    unfolding build_stall_decision_def by (intro does_if does_intros TrueI)
  have service: "does legal_event (service_escalate sv a p reason d) (\<lambda>_. True)" for a
    unfolding service_escalate_def
    by (intro does_if failed does_then[OF does_stall_is_open] does_then[OF decision] does_then[OF does_approvals_add]
        does_ret TrueI) simp_all
  show ?thesis unfolding escalate_stall_def
    by (cases "rs_stall_escalation sv") (simp_all add: failed does_attempt[OF service] does_ret)
qed

lemma does_route_stall: "does legal_event (route_stall sv p reason) (\<lambda>_. True)"
proof -
  have asked: "does legal_event (decision_open sv p) (\<lambda>_. True)"
    unfolding decision_open_def
    by (cases "rs_stall_escalation sv") (simp_all add: does_attempt[OF does_stall_is_open] does_ret)
  have considered: "does legal_event (consider_replan tg p reason) (\<lambda>_. True)" for tg
    unfolding consider_replan_def by (intro does_then does_intros TrueI) simp_all
  have routed: "does legal_event (case rs_trigger sv of
        None \<Rightarrow> escalate_stall sv p reason None
      | Some tg \<Rightarrow> seq (consider_replan tg p reason) (\<lambda>d.
          if d \<in> REPLAN_IN_PROGRESS_DISPOSITIONS then ret p else escalate_stall sv p reason (Some d))) (\<lambda>_. True)"
    by (cases "rs_trigger sv")
      (simp_all add: does_escalate_stall does_then[OF considered] does_if does_ret)
  show ?thesis unfolding route_stall_def
    by (intro does_then[OF asked] does_if does_ret routed TrueI)
qed

lemma does_drive_skeleton: "does legal_event (drive_skeleton sv p reopened) (\<lambda>_. True)"
proof -
  have handed: "does legal_event (hand_to_driver driver q) (\<lambda>_. True)" for driver q
    unfolding hand_to_driver_def by (intro does_then does_intros TrueI) simp_all
  have dispatched: "does legal_event (dispatch_units sv q) (\<lambda>_. True)" for q
    unfolding dispatch_units_def
    by (cases "rs_driver sv") (simp_all add: does_then[OF handed] does_if does_route_stall does_ret)
  have advanced: "does legal_event (seq (advance_plan sv p PL_EXECUTING None)
      (\<lambda>advanced. case advanced of None \<Rightarrow> ret p | Some q \<Rightarrow> dispatch_units sv q)) (\<lambda>_. True)"
    by (intro does_then[OF does_advance_plan]) (auto split: option.splits intro: dispatched does_ret)
  show ?thesis
    unfolding drive_skeleton_def read_stage_state_def
    by (intro does_if does_ret does_then[OF does_read_attempts] TrueI)
      (auto split: stage_outcome.splits intro!: does_ret does_route_stall advanced does_then does_emit)
qed

lemma does_drive_integration: "does legal_event (drive_integration sv p reopened) (\<lambda>_. True)"
proof -
  have advanced: "does legal_event (or_else (advance_plan sv p PL_EVALUATING None) p) (\<lambda>_. True)"
    by (intro does_or_else does_advance_plan) simp
  show ?thesis
    unfolding drive_integration_def read_stage_state_def
    by (intro does_if does_ret does_then[OF does_read_attempts] TrueI)
      (auto split: stage_outcome.splits intro!: does_ret does_route_stall advanced does_then does_emit)
qed

lemma does_run_stage: "does legal_event (run_stage sv p reopened) (\<lambda>_. True)"
  unfolding run_stage_def drive_evaluation_def
  by (intro does_then does_if does_intros does_drive_skeleton does_drive_integration TrueI) simp_all

lemma does_extensions_hold: "does legal_event (extensions_hold sv p items) (\<lambda>_. True)"
proof -
  have listed: "does legal_event (open_decisions p) (\<lambda>_. True)"
    unfolding open_decisions_def by (intro does_then[OF does_approvals_list] does_ret TrueI)
  have escalated: "does legal_event (escalate_extension sv p w leaf) (\<lambda>_. True)" for w leaf
    unfolding escalate_extension_def
    by (intro does_then[OF listed] does_if does_ret does_approvals_add TrueI) simp
  have asked: "does legal_event (seq interleave (\<lambda>_. seq (emit (Extension_Considered a b c)) (\<lambda>_.
      seq (reading (\<lambda>v. tg_consider_extension tg v p w leaf)) (\<lambda>d.
        if d = ASKED then
          (if \<not> rs_extension_escalation sv then ret False
           else seq (escalate_extension sv p w leaf) (\<lambda>_. ret True))
        else if d \<in> EXTENSION_IN_PROGRESS_DISPOSITIONS then ret True
        else if d \<notin> EXTENSION_REFUSED_DISPOSITIONS then raise Unknown_Disposition
        else ret False)))) (\<lambda>_. True)" for a b c tg w leaf
    by (intro does_then does_if does_intros escalated TrueI) simp_all
  have granted: "does legal_event (seq interleave (\<lambda>_. seq (emit (Extension_Granted a b c)) (\<lambda>_. ret True))) (\<lambda>_. True)"
    for a b c
    by (intro does_then does_intros TrueI) simp_all
  have leaf: "does legal_event (drive_leaf_extension sv tg p ds w leaf) (\<lambda>_. True)" for tg ds w leaf
  proof (cases "map_option ai_status (decision_for ds leaf)")
    case None
    show ?thesis unfolding drive_leaf_extension_def None option.case by (rule asked)
  next
    case (Some st)
    show ?thesis unfolding drive_leaf_extension_def Some option.case
      by (cases st) (simp_all only: approval_status.case asked granted does_ret)
  qed
  have driven: "does legal_event (drive_extensions sv p items) (\<lambda>_. True)"
  proof (cases "rs_trigger sv")
    case (Some tg)
    show ?thesis unfolding drive_extensions_def Some option.case Let_def
      by (intro does_then[OF does_if] listed does_ret does_any_holds leaf TrueI)
  qed (simp add: drive_extensions_def does_ret)
  have enabled: "does legal_event (jit_extension_planning_enabled sv) (\<lambda>_. True)"
    unfolding jit_extension_planning_enabled_def
    by (cases "rs_jit_enabled sv") (auto intro!: does_ret does_then[OF does_interleave])
  show ?thesis unfolding extensions_hold_def
    by (intro does_then[OF enabled] does_if does_ret driven TrueI)
qed

text \<open>The walk of the objective task, for any \<open>G\<close> its hops satisfy.\<close>

lemma does_advance_objective:
  assumes "\<And>ro s hops h. rs_task_engine sv \<Longrightarrow> transition_path s (objective_target (p_status p) ro) = Inr (Some hops) \<Longrightarrow>
    h \<in> set hops \<Longrightarrow> G (Objective_Hop (p_parent_task_id p) h)"
  shows "does G (advance_objective_task sv p items) (\<lambda>_. True)"
proof -
  have submitted: "does G (submit_hop sv m) (\<lambda>_. True)" for m
    unfolding submit_hop_def case_prod_beta by (intro does_then does_intros TrueI)
  have noted: "does G (attempt (tasks_get k) (\<lambda>_. ret ()) (\<lambda>_. ret ())) (\<lambda>_. True)" for k
    by (intro does_attempt[OF does_tasks_get] does_ret TrueI)
  have hops: "does G (walk_parent_hops sv k reason n hs) (\<lambda>_. True)" if "\<And>h. h \<in> set hs \<Longrightarrow> G (Objective_Hop k h)"
    for k reason n hs
    using that
  proof (induction hs arbitrary: n)
    case (Cons h hs)
    then show ?case unfolding walk_parent_hops.simps
      by (intro does_then[OF submitted] does_if does_then[OF noted] does_then[OF does_emit] does_ret Cons.IH TrueI) simp_all
  qed (simp add: does_ret)
  have walk: "does G (walk_parent sv (p_parent_task_id p) s ro (Some (objective_target (p_status p) ro))) (\<lambda>_. True)"
    if "rs_task_engine sv" for s ro
    unfolding walk_parent_def Let_def option.case
    by (rule does_seq[where P = "\<lambda>r. transition_path s (objective_target (p_status p) ro) = Inr r", OF does_lift])
      (auto split: option.splits intro!: does_ret hops dest: assms[OF that])
  have live: "does G (live_status k f) (\<lambda>_. True)" for k f
    unfolding live_status_def by (intro does_attempt[OF does_tasks_get] does_ret TrueI)
  show ?thesis
  proof (cases "rs_task_engine sv")
    case True
    have parent: "does G (advance_parent_to_rollup_status sv (p_parent_task_id p) s ro
        (Some (objective_target (p_status p) ro))) (\<lambda>_. True)" for s ro
      unfolding advance_parent_to_rollup_status_def by (intro does_then[OF live] walk True)
    show ?thesis unfolding advance_objective_task_def
      by (intro does_if does_ret does_then[OF does_tasks_get] TrueI)
        (auto split: option.splits intro!: does_ret does_then[OF does_lift] does_then[OF parent])
  qed (simp add: advance_objective_task_def does_ret)
qed

lemma does_reconcile: "does legal_event (reconcile_project sv p items) (\<lambda>_. True)"
proof -
  have retro: "does legal_event (maybe_capture_retro sv p pj b) (\<lambda>_. True)" for pj b
    unfolding maybe_capture_retro_def by (auto split: option.splits intro!: does_intros)
  show ?thesis
    unfolding reconcile_project_def project_status_of_def advance_project_status_def
    by (intro does_then does_advance_project does_projects_get does_ret retro does_advance_objective TrueI) simp
qed

lemma does_recompute: "does legal_event (recompute sv k) (\<lambda>_. True)"
proof -
  have settled: "does legal_event (settle_plan sv p items) (\<lambda>_. True)" for p items
  proof -
    have moved: "does legal_event (let derived = derive_plan_status items (p_status p)
        in if derived = p_status p then ret p else or_else (advance_plan sv p derived None) p) (\<lambda>_. True)"
      using derived_is_walk_target[of items "p_status p"]
      by (auto simp: Let_def intro!: does_ret does_or_else does_advance_plan)
    show ?thesis unfolding settle_plan_def
      by (intro does_if does_ret does_then[OF does_if] does_extensions_hold moved does_run_stage TrueI)
  qed
  have resolved: "does legal_event (resolve_stall sv p items) (\<lambda>_. True)" for p items
    unfolding resolve_stall_def
    by (intro does_if does_ret TrueI) (auto split: option.splits intro!: does_ret does_route_stall)
  show ?thesis unfolding recompute_def
    by (intro does_then[OF does_plans_get])
      (auto split: option.splits intro!: does_ret does_then[OF does_collect_items] does_then[OF settled]
        does_then[OF resolved] does_reconcile)
qed

text \<open>
  C24. The rollup only makes legal moves and delivers nothing itself. Whatever other writers
  do between its steps and wherever a store fails, the plan hops of a recompute, of a stage
  that reports a stall and of the observer are validated by the plan machine and never
  complete, reject or supersede a plan, the project hops are validated by the project
  machine, and nothing is raised at the task engine that told it of a change.
\<close>

theorem rollup_only_legal_moves:
  "(\<exists>es. r_events (snd (recompute sv k s)) = r_events s @ es \<and> list_all legal_event es) \<and>
   (\<exists>es. r_events (snd (report_stage_stall sv k reason d s)) = r_events s @ es \<and> list_all legal_event es) \<and>
   (\<exists>es. r_events (snd (on_task_state_changed sv changed new_status s)) = r_events s @ es \<and> list_all legal_event es) \<and>
   fst (on_task_state_changed sv changed new_status s) = Inr ()"
proof -
  have "does legal_event (report_stage_stall sv k reason d) (\<lambda>_. True)"
    unfolding report_stage_stall_def
    by (intro does_then[OF does_plans_get])
      (auto split: option.splits intro!: does_ret does_then[OF does_escalate_stall])
  moreover have "does legal_event (on_task_state_changed sv changed new_status) (\<lambda>_. True)"
    unfolding on_task_state_changed_def
    by (auto split: option.splits intro!: does_ret does_attempt[OF does_recompute])
  moreover have "fst (on_task_state_changed sv changed new_status s) = Inr ()"
    by (auto simp: on_task_state_changed_def attempt_def ret_def split: option.splits prod.splits sum.splits)
  moreover note does_recompute[of sv k]
  ultimately show ?thesis by (simp add: runs_def adds_only_def)
qed

section \<open>The objective stays open until delivery\<close>

lemma objective_walks_check:
  "list_all (\<lambda>(s, t). case transition_path s t of
       Inr (Some p) \<Rightarrow> list_all (\<lambda>h. h \<notin> OBJECTIVE_FINISHED_STATUSES) p | _ \<Rightarrow> True)
     (List.product all_task_statuses [CREATED, IN_PROGRESS, BLOCKED, SUSPENDED])"
  by code_simp

lemma objective_target_open:
  "status \<noteq> PL_COMPLETED \<Longrightarrow> objective_target status ro \<in> {CREATED, IN_PROGRESS, BLOCKED, SUSPENDED}"
  by (auto simp: objective_target_def derived_parent_status_def OBJECTIVE_FINISHED_STATUSES_def Let_def)

text \<open>
  C27. The objective stays open for as long as its plan is: whatever its items came to and
  whatever others do meanwhile, the walk of the objective task of a plan that is not
  COMPLETED touches that task alone and takes it through no status that reads as the end of
  the objective, on the way or at the end.
\<close>

theorem objective_stays_open:
  assumes "p_status p \<noteq> PL_COMPLETED"
  shows "\<exists>es. r_events (snd (advance_objective_task sv p items s)) = r_events s @ es \<and>
     list_all (\<lambda>e. \<exists>h. e = Objective_Hop (p_parent_task_id p) h \<and> h \<notin> {COMPLETED, FAILED, CANCELLED, REJECTED}) es"
proof -
  let ?G = "\<lambda>e. \<exists>h. e = Objective_Hop (p_parent_task_id p) h \<and> h \<notin> {COMPLETED, FAILED, CANCELLED, REJECTED}"
  have "does ?G (advance_objective_task sv p items) (\<lambda>_. True)"
  proof (rule does_advance_objective)
    fix ro start hops h
    assume path: "transition_path start (objective_target (p_status p) ro) = Inr (Some hops)" "h \<in> set hops"
    have "(start, objective_target (p_status p) ro) \<in>
        set (List.product all_task_statuses [CREATED, IN_PROGRESS, BLOCKED, SUSPENDED])"
      using objective_target_open[OF assms] by (auto simp: all_task_statuses_UNIV)
    with objective_walks_check path have "h \<notin> OBJECTIVE_FINISHED_STATUSES" unfolding list_all_iff by fastforce
    then show "?G (Objective_Hop (p_parent_task_id p) h)" by (simp add: OBJECTIVE_FINISHED_STATUSES_def)
  qed
  then show ?thesis by (simp add: runs_def adds_only_def)
qed

theorem objective_stays_open_witness:
  "r_events (snd (advance_objective_task demo_service demo_plan [demo_progress WORK (Some FAILED) None]
      (demo_run (demo_world demo_plan) []))) = [Objective_Hop ''goal'' ASSIGNED, Objective_Hop ''goal'' IN_PROGRESS] \<and>
   list_all (\<lambda>e. \<exists>h. e = Objective_Hop ''goal'' h \<and> h \<notin> {COMPLETED, FAILED, CANCELLED, REJECTED})
     [Objective_Hop ''goal'' ASSIGNED, Objective_Hop ''goal'' IN_PROGRESS]"
proof -
  have eval: "r_events (snd (advance_objective_task demo_service demo_plan [demo_progress WORK (Some FAILED) None]
      (demo_run (demo_world demo_plan) []))) = [Objective_Hop ''goal'' ASSIGNED, Objective_Hop ''goal'' IN_PROGRESS]"
    by code_simp
  have "p_status demo_plan \<noteq> PL_COMPLETED" by (simp add: demo_plan_def)
  from objective_stays_open[OF this, where sv = demo_service and items = "[demo_progress WORK (Some FAILED) None]"
      and s = "demo_run (demo_world demo_plan) []"]
  have "list_all (\<lambda>e. \<exists>h. e = Objective_Hop (p_parent_task_id demo_plan) h \<and> h \<notin> {COMPLETED, FAILED, CANCELLED, REJECTED})
     [Objective_Hop ''goal'' ASSIGNED, Objective_Hop ''goal'' IN_PROGRESS]"
    unfolding eval by (auto simp: demo_run_def)
  then show ?thesis using eval by (simp add: demo_plan_def)
qed

section \<open>A stall is never silent\<close>

lemma quiet_access [simp]:
  "r_turns s = [] \<Longrightarrow> seq store_access f s = f () s"
  "r_turns s = [] \<Longrightarrow> seq interleave f s = f () s"
  by (simp_all add: seq_def attempt_def store_access_def interleave_def next_turn_def)

lemma seq_steps [simp]:
  "seq (ret x) f s = f x s"
  "seq (emit e) f s = f () (s\<lparr>r_events := r_events s @ [e]\<rparr>)"
  "seq (writing g) f s = f () (s\<lparr>r_world := g (r_world s)\<rparr>)"
  "seq (lift wrap (Inr y)) h s = h y s"
  by (simp_all add: seq_def attempt_def ret_def emit_def writing_def lift_def)

lemma seq_result: "m s = (Inr x, s') \<Longrightarrow> seq m f s = f x s'"
  by (simp add: seq_def attempt_def)

lemma quiet_collect:
  "r_turns s = [] \<Longrightarrow> collect_item_progress (task_rows (r_world s)) p = Inr items \<Longrightarrow> collect_items p s = (Inr items, s)"
  by (simp add: collect_items_def) (simp add: lift_def ret_def)

lemma reconcile_keeps: "runs keeps_rows (reconcile_project sv p items) (\<lambda>_. True)"
proof -
  have emit: "runs keeps_rows (emit e) (\<lambda>_. True)" for e
    by (intro rows.emit) (simp_all add: keeps_rows_def)
  have got: "runs keeps_rows (projects_get k) (\<lambda>_. True)" for k
    unfolding projects_get_def by (intro rows.after rows.store_access rows.reading TrueI)
  have task: "runs keeps_rows (tasks_get k) (\<lambda>_. True)" for k
    unfolding tasks_get_def by (intro rows.after rows.store_access rows.reading TrueI)
  have update: "runs keeps_rows (projects_update q v) (\<lambda>_. True)" for q v
    unfolding projects_update_def
    by (intro rows.after rows.store_access rows.reading TrueI)
      (auto split: option.splits intro!: rows.raise rows.writing simp: keeps_rows_def)
  have hops: "runs keeps_rows (walk_project_hops q hs) (\<lambda>_. True)" for q hs
    by (induction hs arbitrary: q)
      (auto simp: Let_def intro!: rows.ret rows.raise rows.attempt[OF update] rows.after rows.interleave emit)
  have advance: "runs keeps_rows (advance_project_attempts n k t) (\<lambda>_. True)" for n k t
    by (induction n)
      (auto intro!: rows.ret rows.after[OF got] rows.after[OF rows.lift] rows.after[OF hops] split: option.splits)
  have submitted: "runs keeps_rows (submit_hop sv m) (\<lambda>_. True)" for m
    unfolding submit_hop_def case_prod_beta
    by (intro rows.after rows.store_access rows.reading rows.writing rows.lift TrueI) (simp add: keeps_rows_def)
  have noted: "runs keeps_rows (attempt (tasks_get k) (\<lambda>_. ret ()) (\<lambda>_. ret ())) (\<lambda>_. True)" for k
    by (intro rows.attempt[OF task] rows.ret TrueI)
  have parents: "runs keeps_rows (walk_parent_hops sv k reason n hs) (\<lambda>_. True)" for k reason n hs
  proof (induction hs arbitrary: n)
    case (Cons h hs)
    then show ?case unfolding walk_parent_hops.simps
      by (intro rows.after[OF submitted] runs_if rows.after[OF noted] rows.after[OF emit] rows.ret TrueI)
  qed (simp add: rows.ret)
  have live: "runs keeps_rows (live_status k f) (\<lambda>_. True)" for k f
    unfolding live_status_def by (intro rows.attempt[OF task] rows.ret TrueI)
  have parent: "runs keeps_rows (advance_parent_to_rollup_status sv k st ro t) (\<lambda>_. True)" for k st ro t
    unfolding advance_parent_to_rollup_status_def walk_parent_def Let_def
    by (intro rows.after[OF live] rows.after[OF rows.lift] TrueI) (auto split: option.splits intro!: rows.ret parents)
  have objective: "runs keeps_rows (advance_objective_task sv p items) (\<lambda>_. True)"
    unfolding advance_objective_task_def
    by (intro runs_if rows.ret rows.after[OF task] TrueI)
      (auto split: option.splits intro!: rows.ret rows.after[OF rows.lift] rows.after[OF parent])
  have retro: "runs keeps_rows (maybe_capture_retro sv p q b) (\<lambda>_. True)" for q b
    unfolding maybe_capture_retro_def by (auto split: option.splits intro!: rows.ret emit)
  show ?thesis unfolding reconcile_project_def project_status_of_def advance_project_status_def
    by (intro rows.after got advance objective retro rows.ret TrueI)
qed

lemma fail_path: "plan_transition_path PL_EXECUTING PL_FAILED = Inr (Some [PL_FAILED])"
  by code_simp

lemma fail_is_legal: "plan_validate_transition PL_EXECUTING PL_FAILED = Inr ()"
  by code_simp

lemma quiet_fail:
  assumes "r_turns s = []" and "w_plans (r_world s) (p_id p) = Some p" and "p_status p = PL_EXECUTING"
  shows "\<exists>q s'. or_else (advance_plan sv p PL_FAILED (Some why)) p s = (Inr q, s') \<and> r_turns s' = [] \<and>
     w_plans (r_world s') (p_id p) = Some q \<and> p_status q = PL_FAILED \<and> p_failure_reason q = Some why \<and>
     p_version q = p_version p + 1 \<and> p_items q = p_items p"
proof -
  let ?q = "p\<lparr>p_status := PL_FAILED, p_failure_reason := Some why, p_version := p_version p + 1,
      p_updated_at := Aware (rs_now sv)\<rparr>"
  let ?w = "(r_world s)\<lparr>w_plans := (w_plans (r_world s))(p_id p \<mapsto> ?q)\<rparr>"
  let ?s = "s\<lparr>r_world := ?w, r_events := r_events s @ [Plan_Hop (p_id p) PL_EXECUTING PL_FAILED (p_version p + 1)]\<rparr>"
  have legal: "seq (require_legal_transition p PL_FAILED) f s = f () s" for f :: "unit \<Rightarrow> plan program"
    by (rule seq_result) (use assms(3) in \<open>simp add: require_legal_transition_def fail_is_legal ret_def\<close>)
  have update: "seq (plans_update ?q (p_version p)) f s = f () (s\<lparr>r_world := ?w\<rparr>)" for f :: "unit \<Rightarrow> plan program"
    by (rule seq_result) (use assms(1,2) in \<open>simp add: plans_update_def, simp add: writing_def\<close>)
  have log: "seq (log_transition PL_EXECUTING ?q) f (s\<lparr>r_world := ?w\<rparr>) = f () ?s" for f :: "unit \<Rightarrow> plan program"
    by (rule seq_result) (use assms(1) in \<open>simp add: log_transition_def, simp add: emit_def\<close>)
  have "sync_status sv p PL_FAILED (Some why) s = (Inr ?q, ?s)"
    using assms(3) by (simp add: sync_status_def legal fail_def update log) (simp add: ret_def)
  then have "seq (sync_status sv p PL_FAILED (Some why)) f s = f ?q ?s" for f :: "plan \<Rightarrow> plan program"
    by (rule seq_result)
  then have "walk_plan_to sv p PL_FAILED (Some why) s = (Inr ?q, ?s)"
    using assms(3) by (simp add: walk_plan_to_def fail_path) (simp add: ret_def)
  then have "or_else (advance_plan sv p PL_FAILED (Some why)) p s = (Inr ?q, ?s)"
    by (simp add: or_else_def advance_plan_def MAX_WRITE_ATTEMPTS_def numeral_3_eq_3 seq_def attempt_def ret_def)
  then show ?thesis using assms(1) by simp
qed

text \<open>What becomes of a stalled plan that nobody else touches.\<close>

definition replan_underway :: "rollup_service \<Rightarrow> world \<Rightarrow> plan \<Rightarrow> stall_kind \<Rightarrow> bool" where
  "replan_underway sv w p reason \<longleftrightarrow>
     (case rs_trigger sv of None \<Rightarrow> False | Some tg \<Rightarrow> tg_consider tg w p reason \<in> REPLAN_IN_PROGRESS_DISPOSITIONS)"

lemma quiet_considered:
  assumes "r_turns s = []" and "rs_trigger sv = Some tg"
    and "\<not> (case rs_stall_escalation sv of Some True \<Rightarrow> stall_decision_open p (w_approvals (r_world s)) | _ \<Rightarrow> False)"
  shows "route_stall sv p reason s =
     (let t = s\<lparr>r_events := r_events s @ [Replan_Considered (p_id p) reason]\<rparr>
      in if replan_underway sv (r_world s) p reason then (Inr p, t)
         else escalate_stall sv p reason (Some (tg_consider tg (r_world s) p reason)) t)"
proof -
  have "seq (decision_open sv p) f s = f False s" for f :: "bool \<Rightarrow> plan program"
    by (rule seq_result) (use assms in \<open>auto simp: decision_open_def stall_is_open_def approvals_list_def attempt_def
        ret_def reading_def seq_def store_access_def next_turn_def split: option.splits bool.splits\<close>)
  then show ?thesis using assms(1,2)
    by (simp add: route_stall_def) (simp add: consider_replan_def replan_underway_def seq_def attempt_def ret_def
        interleave_def next_turn_def emit_def reading_def)
qed

definition decision_pending :: "rollup_service \<Rightarrow> world \<Rightarrow> plan \<Rightarrow> bool" where
  "decision_pending sv w p \<longleftrightarrow> rs_stall_escalation sv = Some True \<and> stall_decision_open p (w_approvals w)"

definition failed_by_stall :: "rollup_service \<Rightarrow> plan \<Rightarrow> stall_kind \<Rightarrow> plan \<Rightarrow> bool" where
  "failed_by_stall sv p reason q \<longleftrightarrow>
     p_status q = PL_FAILED \<and> p_version q = p_version p + 1 \<and> p_items q = p_items p \<and>
     p_failure_reason q = Some (stalled_text (if rs_stall_escalation sv = None then stall_kind_value reason else humanise reason))"

lemma quiet_escalate:
  assumes "r_turns s = []" and "w_plans (r_world s) (p_id p) = Some p" and "p_status p = PL_EXECUTING"
    and "d \<in> WHY" and "\<not> decision_pending sv (r_world s) p"
  shows "\<exists>q s'. escalate_stall sv p reason d s = (Inr q, s') \<and> r_turns s' = [] \<and>
     (if rs_stall_escalation sv = Some True
      then w_plans (r_world s') = w_plans (r_world s) \<and> stall_decision_open p (w_approvals (r_world s'))
      else (\<exists>q. w_plans (r_world s') (p_id p) = Some q \<and> failed_by_stall sv p reason q))"
proof (cases "rs_stall_escalation sv = Some True")
  case True
  with assms show ?thesis
    by (simp add: escalate_stall_def service_escalate_def build_stall_decision_def stall_is_open_def approvals_list_def
        approvals_add_def decision_pending_def program_defs stall_decision_open_def)
next
  case False
  show ?thesis
  proof (cases "rs_stall_escalation sv")
    case None
    then show ?thesis using quiet_fail[OF assms(1-3), of sv "stalled_text (stall_kind_value reason)"]
      by (auto simp: escalate_stall_def failed_by_stall_def)
  next
    case (Some approvals)
    with False show ?thesis using quiet_fail[OF assms(1-3), of sv "stalled_text (humanise reason)"]
      by (auto simp: escalate_stall_def service_escalate_def failed_by_stall_def attempt_def ret_def)
  qed
qed

lemma refused_has_words: "d \<notin> REPLAN_IN_PROGRESS_DISPOSITIONS \<Longrightarrow> Some d \<in> WHY"
  by (cases d) (simp_all add: REPLAN_IN_PROGRESS_DISPOSITIONS_def WHY_def)

lemma quiet_route:
  assumes "r_turns s = []" and "w_plans (r_world s) (p_id p) = Some p" and "p_status p = PL_EXECUTING"
  shows "\<exists>q s'. route_stall sv p reason s = (Inr q, s') \<and> r_turns s' = [] \<and>
     (if decision_pending sv (r_world s) p
      then r_world s' = r_world s
      else if replan_underway sv (r_world s) p reason
      then r_world s' = r_world s \<and> Replan_Considered (p_id p) reason \<in> set (r_events s')
      else if rs_stall_escalation sv = Some True
      then w_plans (r_world s') = w_plans (r_world s) \<and> stall_decision_open p (w_approvals (r_world s'))
      else (\<exists>q. w_plans (r_world s') (p_id p) = Some q \<and> failed_by_stall sv p reason q))"
proof (cases "decision_pending sv (r_world s) p")
  case True
  then have "route_stall sv p reason s = (Inr p, s)" using assms(1)
    by (simp add: route_stall_def decision_open_def stall_is_open_def approvals_list_def decision_pending_def program_defs)
  with True assms(1) show ?thesis by simp
next
  case fresh: False
  show ?thesis
  proof (cases "rs_trigger sv")
    case None
    have "route_stall sv p reason s = escalate_stall sv p reason None s"
      using fresh assms(1) None
      by (auto simp: route_stall_def decision_open_def stall_is_open_def approvals_list_def decision_pending_def
          program_defs split: option.splits)
    then show ?thesis
      using quiet_escalate[OF assms _ fresh, of None reason] fresh None by (simp add: replan_underway_def WHY_def)
  next
    case (Some tg)
    let ?t = "s\<lparr>r_events := r_events s @ [Replan_Considered (p_id p) reason]\<rparr>"
    let ?d = "tg_consider tg (r_world s) p reason"
    have route: "route_stall sv p reason s = (if replan_underway sv (r_world s) p reason then (Inr p, ?t)
        else escalate_stall sv p reason (Some ?d) ?t)"
      using quiet_considered[OF assms(1) Some, of p reason] fresh
      by (auto simp: decision_pending_def Let_def split: option.splits bool.splits)
    show ?thesis
    proof (cases "replan_underway sv (r_world s) p reason")
      case True
      then show ?thesis using route fresh assms(1) by simp
    next
      case False
      then have "Some ?d \<in> WHY" using Some refused_has_words by (simp add: replan_underway_def)
      then show ?thesis
        using quiet_escalate[of ?t p "Some ?d" sv reason] route fresh False assms
        by (cases "rs_stall_escalation sv = Some True") simp_all
    qed
  qed
qed


definition demo_stalled :: plan where
  "demo_stalled = demo_plan\<lparr>p_items := [demo_item demo_a None []]\<rparr>"

definition demo_stalled_run :: run where
  "demo_stalled_run =
     (let t = (new_task demo_a ''O'' ''O'' DEVELOPMENT ''p'' ''ceo'' 0)
            \<lparr>t_plan_id := Some demo_a, t_plan_item_id := Some demo_a, t_status := FAILED\<rparr>;
          w = demo_world demo_stalled
      in demo_run (w\<lparr>w_engine := (w_engine w)\<lparr>tasks := (tasks (w_engine w))(demo_a \<mapsto> t)\<rparr>, w_task_order := [demo_a]\<rparr>) [])"


section \<open>Where others interfere\<close>

text \<open>The row of one attempt at a stage.\<close>

definition stage_row :: "stage_binding \<Rightarrow> plan \<Rightarrow> nat \<Rightarrow> task_status \<Rightarrow> task" where
  "stage_row b p k status =
     (new_task (stage_task_uuid demo_service b p k) ''O'' ''O'' DEVELOPMENT ''p'' (sb_actor b) 0)
       \<lparr>t_plan_id := Some (p_id p), t_status := status\<rparr>"

definition with_tasks :: "task list \<Rightarrow> world \<Rightarrow> world" where
  "with_tasks rows w =
     w\<lparr>w_engine := (w_engine w)\<lparr>tasks := fold (\<lambda>t m. m(t_id t \<mapsto> t)) rows (tasks (w_engine w))\<rparr>\<rparr>"

text \<open>
  A contract passes while somebody edits the plan: the write is refused, what
  \<open>advance_plan\<close> answers is the plan as it is now, and its units are driven although it is
  still in SKELETON.
\<close>

theorem edited_plan_driven_at_skeleton:
  "let p = demo_plan\<lparr>p_status := PL_SKELETON\<rparr>;
       w = with_tasks [stage_row SKELETON_BINDING p 0 COMPLETED] (demo_world p);
       edit = (\<lambda>w. w\<lparr>w_plans := (w_plans w)(demo_a \<mapsto> p\<lparr>p_version := p_version p + 1\<rparr>)\<rparr>)
   in r_events (snd (drive_skeleton (demo_service\<lparr>rs_driver := Some (\<lambda>_ _. DRIVING)\<rparr>) p False
        (demo_run w [(\<lambda>w. w, False), (edit, False)]))) = [Units_Driven demo_a PL_SKELETON]"
  by code_simp

text \<open>
  An operator puts a project on hold between the read its target is derived from and the
  walk: the walk takes it off hold again.
\<close>

theorem hold_is_walked_off:
  "let p = demo_plan\<lparr>p_status := PL_INTEGRATING\<rparr>;
       hold = (\<lambda>w. w\<lparr>w_projects := [''p'' \<mapsto> demo_project\<lparr>pj_status := PJ_ON_HOLD, pj_version := 2\<rparr>]\<rparr>)
   in r_events (snd (reconcile_project (demo_service\<lparr>rs_task_engine := False\<rparr>) p []
        (demo_run (demo_world p) [(\<lambda>w. w, False), (hold, False)]))) =
      [Project_Hop ''p'' PJ_ON_HOLD PJ_ACTIVE 3, Project_Hop ''p'' PJ_ACTIVE PJ_INTEGRATING 4]"
  by code_simp

text \<open>
  A rework is hidden behind the attempt it replaces: while the second attempt at the
  assembly runs, the next event reads the first one's failure.
\<close>

theorem rework_hidden_by_spent_attempt:
  "let p = demo_plan\<lparr>p_status := PL_INTEGRATING\<rparr>;
       w = with_tasks [stage_row INTEGRATION_BINDING p 0 FAILED, stage_row INTEGRATION_BINDING p 1 IN_PROGRESS]
             (demo_world p);
       read = (\<lambda>reopened. fst (read_stage_state demo_service p INTEGRATION_BINDING reopened (demo_run w [])))
   in map_sum id (\<lambda>st. (st_attempt st, st_outcome st)) (read True) = Inr (1, STAGE_RUNNING) \<and>
      map_sum id (\<lambda>st. (st_attempt st, st_outcome st)) (read False) = Inr (0, STAGE_FAILED)"
  by code_simp

end
