(* ===== verification/Workflow_Condition.thy ===== *)
theory Workflow_Condition
  imports Prompt_Fence Execution_Waves
begin

text \<open>
  The condition language of workflow graphs (\<open>engine/workflow/condition_eval.py\<close>): the
  tokenizer, the recursive descent parser that evaluates as it parses, and its entry point.

  A position in the token list is the list of the tokens that are left. A context value is
  what the code can see of an object: whether it is one of the types it asks for, the text
  \<open>str\<close> gives and its truth.
\<close>

section \<open>Values\<close>

datatype py_kind = KIND_FLOAT | KIND_DATETIME | KIND_OTHER

text \<open>A mapping, a sequence and any other object carry the text \<open>str\<close> gives for them.\<close>

datatype py_value =
    V_None
  | V_Bool bool
  | V_Int int
  | V_Str string
  | V_Map string "(string \<times> py_value) list"
  | V_List string "py_value list"
  | V_Other py_kind string bool

type_synonym variables = "string \<rightharpoonup> py_value"

definition show_int :: "int \<Rightarrow> string" where
  "show_int i = (if i < 0 then ''-'' @ show_nat (nat (- i)) else show_nat (nat i))"

fun py_str :: "py_value \<Rightarrow> string" where
  "py_str V_None = ''None''"
| "py_str (V_Bool b) = (if b then ''True'' else ''False'')"
| "py_str (V_Int i) = show_int i"
| "py_str (V_Str s) = s"
| "py_str (V_Map text entries) = text"
| "py_str (V_List text items) = text"
| "py_str (V_Other kind text truth) = text"

fun truthy :: "py_value \<Rightarrow> bool" where
  "truthy V_None = False"
| "truthy (V_Bool b) = b"
| "truthy (V_Int i) = (i \<noteq> 0)"
| "truthy (V_Str s) = (s \<noteq> [])"
| "truthy (V_Map text entries) = (entries \<noteq> [])"
| "truthy (V_List text items) = (items \<noteq> [])"
| "truthy (V_Other kind text truth) = truth"

section \<open>Characters and texts\<close>

definition py_strip :: "string \<Rightarrow> string" where
  "py_strip s = rev (dropWhile py_space (rev (dropWhile py_space s)))"

text \<open>\<open>str.upper\<close> on the code points whose upper case is one.\<close>

definition upper_char :: "char \<Rightarrow> char" where
  "upper_char c =
     (let n = (of_char c :: nat)
      in if (97 \<le> n \<and> n \<le> 122) \<or> (224 \<le> n \<and> n \<le> 254 \<and> n \<noteq> 247) then char_of (n - 32) else c)"

text \<open>The class \<open>\w\<close>.\<close>

definition word_char :: "char \<Rightarrow> bool" where
  "word_char c \<longleftrightarrow>
     (let n = (of_char c :: nat)
      in (48 \<le> n \<and> n \<le> 57) \<or> (65 \<le> n \<and> n \<le> 90) \<or> n = 95 \<or> (97 \<le> n \<and> n \<le> 122) \<or>
         n \<in> {170, 178, 179, 181, 185, 186, 188, 189, 190} \<or> (192 \<le> n \<and> n \<noteq> 215 \<and> n \<noteq> 247))"

text \<open>\<open>s.partition(op)\<close>, \<open>None\<close> when \<open>op\<close> does not occur.\<close>

fun partition_on :: "string \<Rightarrow> string \<Rightarrow> (string \<times> string) option" where
  "partition_on op [] = None"
| "partition_on op (c # cs) =
     (if take (length op) (c # cs) = op then Some ([], drop (length op) (c # cs))
      else map_option (\<lambda>(a, b). (c # a, b)) (partition_on op cs))"

section \<open>Atoms\<close>

fun eval_comparison_ops :: "string list \<Rightarrow> string \<Rightarrow> variables \<Rightarrow> bool option" where
  "eval_comparison_ops [] expr ctx = None"
| "eval_comparison_ops (op # ops) expr ctx =
     (case partition_on op expr of
        None \<Rightarrow> eval_comparison_ops ops expr ctx
      | Some (k, v) \<Rightarrow>
          (let key = py_strip k; val = py_strip v
           in if key = [] \<or> val = [] then Some False
              else if op = ''!='' then Some (case ctx key of None \<Rightarrow> True | Some x \<Rightarrow> py_str x \<noteq> val)
              else Some (case ctx key of None \<Rightarrow> False | Some x \<Rightarrow> py_str x = val)))"

definition eval_comparison :: "string \<Rightarrow> variables \<Rightarrow> bool option" where
  "eval_comparison expr ctx = eval_comparison_ops [''!='', ''==''] expr ctx"

definition eval_atom :: "string \<Rightarrow> variables \<Rightarrow> bool" where
  "eval_atom raw ctx =
     (let expr = py_strip raw
      in if expr = [] then False
         else if map lower_char expr = ''true'' then True
         else if map lower_char expr = ''false'' then False
         else case eval_comparison expr ctx of
                Some b \<Rightarrow> b
              | None \<Rightarrow> (case ctx expr of None \<Rightarrow> False | Some x \<Rightarrow> truthy x))"

section \<open>The tokenizer\<close>

definition KEYWORDS :: "string list" where
  "KEYWORDS = [''AND'', ''OR'', ''NOT'']"

text \<open>\<open>\b\<close> between a word character and what follows it.\<close>

definition boundary_before :: "char option \<Rightarrow> bool" where
  "boundary_before prev \<longleftrightarrow> (case prev of None \<Rightarrow> True | Some c \<Rightarrow> \<not> word_char c)"

definition boundary_at :: "string \<Rightarrow> bool" where
  "boundary_at s \<longleftrightarrow> (case s of [] \<Rightarrow> True | c # cs \<Rightarrow> \<not> word_char c)"

definition keyword_at :: "string \<Rightarrow> string option" where
  "keyword_at s = find (\<lambda>k. map upper_char (take (length k) s) = k \<and> boundary_at (drop (length k) s)) KEYWORDS"

text \<open>A match of the pattern at the start of \<open>s\<close>, after the character \<open>prev\<close>.\<close>

definition match_token :: "char option \<Rightarrow> string \<Rightarrow> string option" where
  "match_token prev s =
     (case s of
        [] \<Rightarrow> None
      | c # cs \<Rightarrow> if c \<in> {CHR ''('', CHR '')''} then Some [c]
                  else if boundary_before prev then keyword_at s else None)"

definition flush_atom :: "string \<Rightarrow> string list" where
  "flush_atom text = (let a = py_strip text in if a = [] then [] else [a])"

lemma match_token_nonempty: "match_token prev s = Some t \<Longrightarrow> t \<noteq> []"
  by (auto simp: match_token_def keyword_at_def KEYWORDS_def split: list.splits if_splits)

function tokenize_from :: "char option \<Rightarrow> string \<Rightarrow> string \<Rightarrow> string list" where
  "tokenize_from prev text [] = flush_atom text"
| "tokenize_from prev text (c # cs) =
     (case match_token prev (c # cs) of
        Some t \<Rightarrow> flush_atom text @ t #
          tokenize_from (Some ((c # cs) ! (length t - 1))) [] (drop (length t) (c # cs))
      | None \<Rightarrow> tokenize_from (Some c) (text @ [c]) cs)"
  by pat_completeness auto
termination
  by (relation "measure (\<lambda>(prev, text, s). length s)") (auto dest: match_token_nonempty)

definition tokenize :: "string \<Rightarrow> string list" where
  "tokenize expression = tokenize_from None [] expression"

fun search_token :: "char option \<Rightarrow> string \<Rightarrow> bool" where
  "search_token prev [] = False"
| "search_token prev (c # cs) = (match_token prev (c # cs) \<noteq> None \<or> search_token (Some c) cs)"

definition has_compound_operators :: "string \<Rightarrow> bool" where
  "has_compound_operators expression = search_token None expression"

section \<open>The parser\<close>

datatype condition_error = Missing_Operand | Unclosed_Parenthesis | Unexpected_Token string | Trailing_Tokens nat

type_synonym parsed = "(condition_error, bool \<times> string list) outcome"

lemma and_then_cong [fundef_cong]:
  "r = r' \<Longrightarrow> (\<And>x. r' = Inr x \<Longrightarrow> f x = g x) \<Longrightarrow> and_then r f = and_then r' g"
  by (cases r') simp_all

function parse_or :: "variables \<Rightarrow> string list \<Rightarrow> parsed"
  and or_loop :: "variables \<Rightarrow> bool \<Rightarrow> string list \<Rightarrow> parsed"
  and parse_and :: "variables \<Rightarrow> string list \<Rightarrow> parsed"
  and and_loop :: "variables \<Rightarrow> bool \<Rightarrow> string list \<Rightarrow> parsed"
  and parse_not :: "variables \<Rightarrow> string list \<Rightarrow> parsed"
  and parse_atom_token :: "variables \<Rightarrow> string list \<Rightarrow> parsed" where
  "parse_or ctx ts = and_then (parse_and ctx ts) (\<lambda>(left, rest). or_loop ctx left rest)"
| "or_loop ctx left ts =
     (case ts of
        [] \<Rightarrow> Inr (left, [])
      | t # us \<Rightarrow> if t = ''OR'' then and_then (parse_and ctx us) (\<lambda>(right, rest). or_loop ctx (left \<or> right) rest)
                  else Inr (left, ts))"
| "parse_and ctx ts = and_then (parse_not ctx ts) (\<lambda>(left, rest). and_loop ctx left rest)"
| "and_loop ctx left ts =
     (case ts of
        [] \<Rightarrow> Inr (left, [])
      | t # us \<Rightarrow> if t = ''AND'' then and_then (parse_not ctx us) (\<lambda>(right, rest). and_loop ctx (left \<and> right) rest)
                  else Inr (left, ts))"
| "parse_not ctx ts =
     (case ts of
        t # us \<Rightarrow> if t = ''NOT'' then and_then (parse_not ctx us) (\<lambda>(b, rest). Inr (\<not> b, rest))
                  else parse_atom_token ctx ts
      | [] \<Rightarrow> parse_atom_token ctx ts)"
| "parse_atom_token ctx ts =
     (case ts of
        [] \<Rightarrow> Inl Missing_Operand
      | t # us \<Rightarrow>
          if t = ''('' then and_then (parse_or ctx us) (\<lambda>(b, rest).
            case rest of
              [] \<Rightarrow> Inl Unclosed_Parenthesis
            | u # vs \<Rightarrow> if u = '')'' then Inr (b, vs) else Inl Unclosed_Parenthesis)
          else if t \<in> {''AND'', ''OR'', ''NOT'', '')''} then Inl (Unexpected_Token t)
          else Inr (eval_atom t ctx, us))"
  by pat_completeness auto

text \<open>A phrase takes a token, a loop takes none back.\<close>

lemma parse_consumes:
  "parse_or_or_loop_parse_and_and_loop_parse_not_parse_atom_token_dom (Inl (Inl (ctx, ts))) \<Longrightarrow>
     parse_or ctx ts = Inr (b, rest) \<Longrightarrow> length rest < length ts"
  "parse_or_or_loop_parse_and_and_loop_parse_not_parse_atom_token_dom (Inl (Inr (Inl (ctx, left, ts)))) \<Longrightarrow>
     or_loop ctx left ts = Inr (b, rest) \<Longrightarrow> length rest \<le> length ts"
  "parse_or_or_loop_parse_and_and_loop_parse_not_parse_atom_token_dom (Inl (Inr (Inr (ctx, ts)))) \<Longrightarrow>
     parse_and ctx ts = Inr (b, rest) \<Longrightarrow> length rest < length ts"
  "parse_or_or_loop_parse_and_and_loop_parse_not_parse_atom_token_dom (Inr (Inl (ctx, left, ts))) \<Longrightarrow>
     and_loop ctx left ts = Inr (b, rest) \<Longrightarrow> length rest \<le> length ts"
  "parse_or_or_loop_parse_and_and_loop_parse_not_parse_atom_token_dom (Inr (Inr (Inl (ctx, ts)))) \<Longrightarrow>
     parse_not ctx ts = Inr (b, rest) \<Longrightarrow> length rest < length ts"
  "parse_or_or_loop_parse_and_and_loop_parse_not_parse_atom_token_dom (Inr (Inr (Inr (ctx, ts)))) \<Longrightarrow>
     parse_atom_token ctx ts = Inr (b, rest) \<Longrightarrow> length rest < length ts"
proof (induction ctx ts and ctx left ts and ctx ts and ctx left ts and ctx ts and ctx ts arbitrary: b rest and b rest and b rest
    and b rest and b rest and b rest rule: parse_or_or_loop_parse_and_and_loop_parse_not_parse_atom_token.pinduct)
  case (1 ctx ts)
  then show ?case by (fastforce simp: parse_or.psimps and_then_Inr)
next
  case (2 ctx left ts)
  then show ?case by (fastforce simp: or_loop.psimps and_then_Inr split: list.splits if_splits)
next
  case (3 ctx ts)
  then show ?case by (fastforce simp: parse_and.psimps and_then_Inr)
next
  case (4 ctx left ts)
  then show ?case by (fastforce simp: and_loop.psimps and_then_Inr split: list.splits if_splits)
next
  case (5 ctx ts)
  then show ?case by (fastforce simp: parse_not.psimps and_then_Inr split: list.splits if_splits)
next
  case (6 ctx ts)
  show ?case
  proof (cases ts)
    case Nil
    with 6 show ?thesis by (simp add: parse_atom_token.psimps)
  next
    case (Cons t us)
    show ?thesis
    proof (cases "t = ''(''")
      case True
      then obtain b' rest' where inner: "parse_or ctx us = Inr (b', rest')"
        "(case rest' of [] \<Rightarrow> Inl Unclosed_Parenthesis
          | u # vs \<Rightarrow> if u = '')'' then Inr (b', vs) else Inl Unclosed_Parenthesis) = Inr (b, rest)"
        using 6 Cons by (auto simp: parse_atom_token.psimps and_then_Inr)
      have "length rest' < length us" using 6(2)[OF Cons True inner(1)] .
      with inner(2) Cons show ?thesis by (simp split: list.splits if_splits)
    next
      case False
      with 6 Cons show ?thesis by (simp add: parse_atom_token.psimps split: if_splits)
    qed
  qed
qed

termination parse_or
proof (relation "measure (\<lambda>x. case x of
      Inl (Inl (ctx, ts)) \<Rightarrow> 4 * length ts + 3
    | Inl (Inr (Inl (ctx, left, ts))) \<Rightarrow> 4 * length ts
    | Inl (Inr (Inr (ctx, ts))) \<Rightarrow> 4 * length ts + 2
    | Inr (Inl (ctx, left, ts)) \<Rightarrow> 4 * length ts
    | Inr (Inr (Inl (ctx, ts))) \<Rightarrow> 4 * length ts + 1
    | Inr (Inr (Inr (ctx, ts))) \<Rightarrow> 4 * length ts)", goal_cases)
qed (fastforce dest: parse_consumes)+

declare parse_or.simps [simp del] or_loop.simps [simp del] parse_and.simps [simp del] and_loop.simps [simp del]
  parse_not.simps [simp del] parse_atom_token.simps [simp del]

section \<open>Evaluating a condition\<close>

definition MAX_TOKEN_COUNT :: nat where
  "MAX_TOKEN_COUNT = 256"

definition evaluate_inner :: "string \<Rightarrow> variables \<Rightarrow> (condition_error, bool) outcome" where
  "evaluate_inner expr ctx =
     (if \<not> has_compound_operators expr \<or> map upper_char expr \<in> set KEYWORDS then Inr (eval_atom expr ctx)
      else let tokens = tokenize expr
           in if tokens = [] then Inr False
              else if MAX_TOKEN_COUNT < length tokens then Inr False
              else case parse_or ctx tokens of
                     Inl e \<Rightarrow> Inl e
                   | Inr (b, rest) \<Rightarrow> if rest \<noteq> [] then Inl (Trailing_Tokens (length rest)) else Inr b)"

definition evaluate_condition :: "string \<Rightarrow> variables \<Rightarrow> (condition_error, bool) outcome" where
  "evaluate_condition expression ctx =
     (let expr = py_strip expression in if expr = [] then Inr False else evaluate_inner expr ctx)"

section \<open>The language\<close>

text \<open>Conditions as trees, and the phrases of each precedence level.\<close>

datatype cond = Atom string | Neg cond | Conj cond cond | Disj cond cond

primrec eval_cond :: "variables \<Rightarrow> cond \<Rightarrow> bool" where
  "eval_cond ctx (Atom a) = eval_atom a ctx"
| "eval_cond ctx (Neg c) = (\<not> eval_cond ctx c)"
| "eval_cond ctx (Conj c d) = (eval_cond ctx c \<and> eval_cond ctx d)"
| "eval_cond ctx (Disj c d) = (eval_cond ctx c \<or> eval_cond ctx d)"

inductive or_phrase :: "string list \<Rightarrow> cond \<Rightarrow> bool"
  and and_phrase :: "string list \<Rightarrow> cond \<Rightarrow> bool"
  and not_phrase :: "string list \<Rightarrow> cond \<Rightarrow> bool" where
  or_one: "and_phrase ts c \<Longrightarrow> or_phrase ts c"
| or_more: "or_phrase ts c \<Longrightarrow> and_phrase us d \<Longrightarrow> or_phrase (ts @ ''OR'' # us) (Disj c d)"
| and_one: "not_phrase ts c \<Longrightarrow> and_phrase ts c"
| and_more: "and_phrase ts c \<Longrightarrow> not_phrase us d \<Longrightarrow> and_phrase (ts @ ''AND'' # us) (Conj c d)"
| negated: "not_phrase ts c \<Longrightarrow> not_phrase (''NOT'' # ts) (Neg c)"
| grouped: "or_phrase ts c \<Longrightarrow> not_phrase (''('' # ts @ ['')'']) c"
| atom: "t \<notin> {''AND'', ''OR'', ''NOT'', ''('', '')''} \<Longrightarrow> not_phrase [t] (Atom t)"

text \<open>The parser reads every phrase, whatever follows it.\<close>

lemma or_loop_stops: "(\<forall>us. rest \<noteq> ''OR'' # us) \<Longrightarrow> or_loop ctx b rest = Inr (b, rest)"
  by (cases rest) (simp_all add: or_loop.simps)

lemma and_loop_stops: "(\<forall>us. rest \<noteq> ''AND'' # us) \<Longrightarrow> and_loop ctx b rest = Inr (b, rest)"
  by (cases rest) (simp_all add: and_loop.simps)

lemma parse_reads:
  "or_phrase ts c \<Longrightarrow> (\<forall>us. rest \<noteq> ''AND'' # us) \<Longrightarrow> parse_or ctx (ts @ rest) = or_loop ctx (eval_cond ctx c) rest"
  "and_phrase ts c \<Longrightarrow> parse_and ctx (ts @ rest) = and_loop ctx (eval_cond ctx c) rest"
  "not_phrase ts c \<Longrightarrow> parse_not ctx (ts @ rest) = Inr (eval_cond ctx c, rest)"
proof (induction ts c and ts c and ts c arbitrary: rest and rest and rest rule: or_phrase_and_phrase_not_phrase.inducts)
  case (or_one ts c)
  then show ?case by (simp add: parse_or.simps and_loop_stops)
next
  case (or_more ts c us d)
  have "parse_or ctx (ts @ ''OR'' # us @ rest) = or_loop ctx (eval_cond ctx c) (''OR'' # us @ rest)"
    by (rule or_more.IH(1)) simp
  also have "\<dots> = and_then (parse_and ctx (us @ rest)) (\<lambda>(right, rest). or_loop ctx (eval_cond ctx c \<or> right) rest)"
    by (subst or_loop.simps) simp
  also have "\<dots> = or_loop ctx (eval_cond ctx (Disj c d)) rest"
    using or_more.IH(2)[of rest] or_more.prems by (simp add: and_loop_stops)
  finally show ?case by simp
next
  case (and_one ts c)
  then show ?case by (simp add: parse_and.simps)
next
  case (and_more ts c us d)
  have "parse_and ctx (ts @ ''AND'' # us @ rest) = and_loop ctx (eval_cond ctx c) (''AND'' # us @ rest)"
    by (rule and_more.IH(1))
  also have "\<dots> = and_loop ctx (eval_cond ctx (Conj c d)) rest"
    using and_more.IH(2)[of rest] by (subst and_loop.simps) simp
  finally show ?case by simp
next
  case (negated ts c)
  then show ?case by (subst parse_not.simps) simp
next
  case (grouped ts c)
  have "parse_or ctx (ts @ '')'' # rest) = or_loop ctx (eval_cond ctx c) ('')'' # rest)"
    by (rule grouped.IH) simp
  then show ?case
    by (subst parse_not.simps) (simp add: parse_atom_token.simps or_loop_stops)
next
  case (atom t)
  then show ?case by (subst parse_not.simps) (simp add: parse_atom_token.simps)
qed

text \<open>What the parser reads is a phrase.\<close>

lemma parse_is_phrase:
  "parse_or ctx ts = Inr (b, rest) \<Longrightarrow> \<exists>us c. ts = us @ rest \<and> or_phrase us c \<and> b = eval_cond ctx c"
  "or_loop ctx left ts = Inr (b, rest) \<Longrightarrow> or_phrase vs d \<Longrightarrow> left = eval_cond ctx d \<Longrightarrow>
     \<exists>us c. ts = us @ rest \<and> or_phrase (vs @ us) c \<and> b = eval_cond ctx c"
  "parse_and ctx ts = Inr (b, rest) \<Longrightarrow> \<exists>us c. ts = us @ rest \<and> and_phrase us c \<and> b = eval_cond ctx c"
  "and_loop ctx left ts = Inr (b, rest) \<Longrightarrow> and_phrase vs d \<Longrightarrow> left = eval_cond ctx d \<Longrightarrow>
     \<exists>us c. ts = us @ rest \<and> and_phrase (vs @ us) c \<and> b = eval_cond ctx c"
  "parse_not ctx ts = Inr (b, rest) \<Longrightarrow> \<exists>us c. ts = us @ rest \<and> not_phrase us c \<and> b = eval_cond ctx c"
  "parse_atom_token ctx ts = Inr (b, rest) \<Longrightarrow> \<not> (\<exists>us. ts = ''NOT'' # us) \<Longrightarrow>
     \<exists>us c. ts = us @ rest \<and> not_phrase us c \<and> b = eval_cond ctx c"
proof (induction ctx ts and ctx left ts and ctx ts and ctx left ts and ctx ts and ctx ts
    arbitrary: b rest and b rest vs d and b rest and b rest vs d and b rest and b rest
    rule: parse_or_or_loop_parse_and_and_loop_parse_not_parse_atom_token.induct)
  case (1 ctx ts)
  from "1.prems" obtain l r where first: "parse_and ctx ts = Inr (l, r)" "or_loop ctx l r = Inr (b, rest)"
    by (subst (asm) parse_or.simps) (auto simp: and_then_Inr)
  from "1.IH"(1)[OF first(1)] obtain us c where us: "ts = us @ r" "and_phrase us c" "l = eval_cond ctx c" by blast
  from "1.IH"(2)[OF first(1) refl first(2) or_one[OF us(2)] us(3)] us(1) show ?case by auto
next
  case (2 ctx left ts)
  show ?case
  proof (cases "\<exists>us. ts = ''OR'' # us")
    case True
    then obtain us where ts: "ts = ''OR'' # us" by blast
    with "2.prems"(1) obtain l r where first: "parse_and ctx us = Inr (l, r)" "or_loop ctx (left \<or> l) r = Inr (b, rest)"
      by (subst (asm) or_loop.simps) (auto simp: and_then_Inr)
    from "2.IH"(1)[OF ts refl first(1)] obtain ws c where ws: "us = ws @ r" "and_phrase ws c" "l = eval_cond ctx c" by blast
    have "or_phrase (vs @ ''OR'' # ws) (Disj d c)" "(left \<or> l) = eval_cond ctx (Disj d c)"
      using or_more[OF "2.prems"(2) ws(2)] "2.prems"(3) ws(3) by simp_all
    from "2.IH"(2)[OF ts refl first(1) refl first(2) this] ws(1) ts show ?thesis by auto
  next
    case False
    then have "b = left" "rest = ts" using "2.prems"(1) or_loop_stops[of ts ctx left] by auto
    with "2.prems" show ?thesis by (metis append.right_neutral append_Nil)
  qed
next
  case (3 ctx ts)
  from "3.prems" obtain l r where first: "parse_not ctx ts = Inr (l, r)" "and_loop ctx l r = Inr (b, rest)"
    by (subst (asm) parse_and.simps) (auto simp: and_then_Inr)
  from "3.IH"(1)[OF first(1)] obtain us c where us: "ts = us @ r" "not_phrase us c" "l = eval_cond ctx c" by blast
  from "3.IH"(2)[OF first(1) refl first(2) and_one[OF us(2)] us(3)] us(1) show ?case by auto
next
  case (4 ctx left ts)
  show ?case
  proof (cases "\<exists>us. ts = ''AND'' # us")
    case True
    then obtain us where ts: "ts = ''AND'' # us" by blast
    with "4.prems"(1) obtain l r where first: "parse_not ctx us = Inr (l, r)" "and_loop ctx (left \<and> l) r = Inr (b, rest)"
      by (subst (asm) and_loop.simps) (auto simp: and_then_Inr)
    from "4.IH"(1)[OF ts refl first(1)] obtain ws c where ws: "us = ws @ r" "not_phrase ws c" "l = eval_cond ctx c" by blast
    have "and_phrase (vs @ ''AND'' # ws) (Conj d c)" "(left \<and> l) = eval_cond ctx (Conj d c)"
      using and_more[OF "4.prems"(2) ws(2)] "4.prems"(3) ws(3) by simp_all
    from "4.IH"(2)[OF ts refl first(1) refl first(2) this] ws(1) ts show ?thesis by auto
  next
    case False
    then have "b = left" "rest = ts" using "4.prems"(1) and_loop_stops[of ts ctx left] by auto
    with "4.prems" show ?thesis by (metis append.right_neutral append_Nil)
  qed
next
  case (5 ctx ts)
  show ?case
  proof (cases "\<exists>us. ts = ''NOT'' # us")
    case True
    then obtain us where ts: "ts = ''NOT'' # us" by blast
    with "5.prems" obtain l where inner: "parse_not ctx us = Inr (l, rest)" "b = (\<not> l)"
      by (subst (asm) parse_not.simps) (auto simp: and_then_Inr)
    from "5.IH"(2)[OF ts refl inner(1)] inner(2) ts show ?thesis by (metis append_Cons eval_cond.simps(2) negated)
  next
    case False
    with "5.prems" have "parse_atom_token ctx ts = Inr (b, rest)"
      by (subst (asm) parse_not.simps) (auto split: list.splits if_splits)
    with "5.IH"(1,3) False show ?thesis by (cases ts) auto
  qed
next
  case (6 ctx ts)
  then obtain t us where ts: "ts = t # us" by (cases ts) (auto simp: parse_atom_token.simps)
  show ?case
  proof (cases "t = ''(''")
    case True
    with "6.prems"(1) ts obtain b' r where "parse_or ctx us = Inr (b', r)"
      "(case r of [] \<Rightarrow> Inl Unclosed_Parenthesis
        | u # vs \<Rightarrow> if u = '')'' then Inr (b', vs) else Inl Unclosed_Parenthesis) = Inr (b, rest)"
      by (auto simp: parse_atom_token.simps and_then_Inr)
    then have inner: "parse_or ctx us = Inr (b, r)" "r = '')'' # rest"
      by (auto split: list.splits if_splits)
    from "6.IH"[OF ts True inner(1)] obtain ws c where "us = ws @ r" "or_phrase ws c" "b = eval_cond ctx c" by blast
    with grouped[of ws c] ts True inner(2) show ?thesis
      by (intro exI[of _ "''('' # ws @ ['')'']"] exI[of _ c]) simp
  next
    case False
    with "6.prems" ts have "t \<notin> {''AND'', ''OR'', ''NOT'', ''('', '')''}" "b = eval_atom t ctx" "rest = us"
      by (simp_all add: parse_atom_token.simps split: if_splits)
    with atom[of t] ts show ?thesis by (intro exI[of _ "[t]"] exI[of _ "Atom t"]) simp
  qed
qed

lemma grammar_spec:
  assumes "has_compound_operators (py_strip e)" and "map upper_char (py_strip e) \<notin> set KEYWORDS"
    and "tokenize (py_strip e) \<noteq> []" and "length (tokenize (py_strip e)) \<le> MAX_TOKEN_COUNT"
  shows "evaluate_condition e ctx = Inr b \<longleftrightarrow> (\<exists>c. or_phrase (tokenize (py_strip e)) c \<and> eval_cond ctx c = b)"
proof -
  let ?ts = "tokenize (py_strip e)"
  have "py_strip e \<noteq> []" using assms(1) by (auto simp: has_compound_operators_def)
  then have eq: "evaluate_condition e ctx = (case parse_or ctx ?ts of
      Inl e \<Rightarrow> Inl e | Inr (b, rest) \<Rightarrow> if rest \<noteq> [] then Inl (Trailing_Tokens (length rest)) else Inr b)"
    using assms by (simp add: evaluate_condition_def evaluate_inner_def)
  show ?thesis
  proof
    assume "evaluate_condition e ctx = Inr b"
    then have "parse_or ctx ?ts = Inr (b, [])" unfolding eq by (auto split: sum.splits if_splits)
    from parse_is_phrase(1)[OF this] show "\<exists>c. or_phrase ?ts c \<and> eval_cond ctx c = b" by auto
  next
    assume "\<exists>c. or_phrase ?ts c \<and> eval_cond ctx c = b"
    then obtain c where "or_phrase ?ts c" "eval_cond ctx c = b" by blast
    then have "parse_or ctx ?ts = Inr (b, [])" using parse_reads(1)[of ?ts c "[]" ctx] by (simp add: or_loop_stops)
    then show "evaluate_condition e ctx = Inr b" unfolding eq by simp
  qed
qed

text \<open>
  C18. A compound condition evaluates by the grammar. It is accepted exactly when its
  tokens are a phrase of the language with NOT binding tightest and OR loosest, both
  binary operators associating to the left and operands never skipped; the value is that of
  the phrase, so it does not depend on how the tokens are read. A text without
  operators is one atom, and more than 256 tokens mean false.
\<close>

theorem condition_evaluates_grammar:
  assumes "has_compound_operators (py_strip e)" and "map upper_char (py_strip e) \<notin> set KEYWORDS"
    and "tokenize (py_strip e) \<noteq> []" and "length (tokenize (py_strip e)) \<le> MAX_TOKEN_COUNT"
  shows "evaluate_condition e ctx = Inr b \<longleftrightarrow> (\<exists>c. or_phrase (tokenize (py_strip e)) c \<and> eval_cond ctx c = b)"
  by (rule grammar_spec) (fact assms)+

definition demo_context :: variables where
  "demo_context = [''x'' \<mapsto> V_Str ''prod'', ''budget'' \<mapsto> V_Int 0]"

theorem condition_evaluates_grammar_witness:
  "evaluate_condition '' NOT budget and (x)'' demo_context = Inr True \<and>
   (\<exists>c. or_phrase [''NOT'', ''budget'', ''AND'', ''('', ''x'', '')''] c \<and>
      eval_cond demo_context c)"
proof -
  let ?e = "'' NOT budget and (x)''"
  have tokens: "tokenize (py_strip ?e) = [''NOT'', ''budget'', ''AND'', ''('', ''x'', '')'']"
    by code_simp
  have "evaluate_condition ?e demo_context = Inr True" by code_simp
  moreover have "has_compound_operators (py_strip ?e)" "map upper_char (py_strip ?e) \<notin> set KEYWORDS" by code_simp+
  note condition_evaluates_grammar[OF this, unfolded tokens, where ctx = demo_context and b = True]
  ultimately show ?thesis by (simp add: MAX_TOKEN_COUNT_def)
qed

section \<open>What is written is what is evaluated\<close>

text \<open>A condition as a person would write it, every operand in parentheses.\<close>

primrec show_cond :: "cond \<Rightarrow> string" where
  "show_cond (Atom a) = a"
| "show_cond (Neg c) = ''NOT ('' @ show_cond c @ '')''"
| "show_cond (Conj c d) = ''('' @ show_cond c @ '') AND ('' @ show_cond d @ '')''"
| "show_cond (Disj c d) = ''('' @ show_cond c @ '') OR ('' @ show_cond d @ '')''"

primrec cond_tokens :: "cond \<Rightarrow> string list" where
  "cond_tokens (Atom a) = [a]"
| "cond_tokens (Neg c) = ''NOT'' # ''('' # cond_tokens c @ ['')'']"
| "cond_tokens (Conj c d) = (''('' # cond_tokens c @ ['')'']) @ ''AND'' # (''('' # cond_tokens d @ ['')''])"
| "cond_tokens (Disj c d) = (''('' # cond_tokens c @ ['')'']) @ ''OR'' # (''('' # cond_tokens d @ ['')''])"

text \<open>An atom that stands for itself: no operator or parenthesis inside, nothing to strip.\<close>

definition clean_atom :: "string \<Rightarrow> bool" where
  "clean_atom a \<longleftrightarrow> a \<noteq> [] \<and> py_strip a = a \<and> \<not> has_compound_operators a"

primrec clean :: "cond \<Rightarrow> bool" where
  "clean (Atom a) = clean_atom a"
| "clean (Neg c) = clean c"
| "clean (Conj c d) = (clean c \<and> clean d)"
| "clean (Disj c d) = (clean c \<and> clean d)"

lemma paren_facts:
  "upper_char (CHR ''('') = CHR ''(''" "upper_char (CHR '')'') = CHR '')''"
  "\<not> word_char (CHR ''('')" "\<not> word_char (CHR '')'')" "\<not> py_space (CHR ''('')" "\<not> py_space (CHR '')'')"
  "\<not> word_char (CHR '' '')" "word_char (CHR ''T'')" "py_space (CHR '' '')" "\<not> py_space (CHR ''N'')"
  "map upper_char ''NOT'' = ''NOT''" "map upper_char ''AND'' = ''AND''" "map upper_char ''OR'' = ''OR''"
  "upper_char (CHR '' '') = CHR '' ''"
  by code_simp+

definition closes :: "string \<Rightarrow> bool" where
  "closes rest \<longleftrightarrow> (case rest of [] \<Rightarrow> True | p # ps \<Rightarrow> p \<in> {CHR ''('', CHR '')''})"

lemma keyword_test_append:
  assumes "closes rest" and "\<not> set k \<inter> {CHR ''('', CHR '')''} \<noteq> {}"
  shows "(map upper_char (take (length k) (s @ rest)) = k \<and> boundary_at (drop (length k) (s @ rest))) \<longleftrightarrow>
     (map upper_char (take (length k) s) = k \<and> boundary_at (drop (length k) s))"
proof (cases "length k \<le> length s")
  case True
  moreover have "boundary_at (drop (length k) s @ rest) = boundary_at (drop (length k) s)"
    using assms(1) by (cases "drop (length k) s"; cases rest) (auto simp: boundary_at_def closes_def paren_facts)
  ultimately show ?thesis by simp
next
  case False
  then have no: "map upper_char (take (length k) s) \<noteq> k" by (metis length_map length_take min.absorb1 nle_le)
  show ?thesis
  proof (cases rest)
    case (Cons p ps)
    with assms(1) have p: "p \<in> {CHR ''('', CHR '')''}" by (simp add: closes_def)
    have "map upper_char (take (length k) (s @ rest)) \<noteq> k"
    proof
      assume eq: "map upper_char (take (length k) (s @ rest)) = k"
      have "k ! length s = upper_char p" using False Cons
        by (subst eq[symmetric]) (simp add: nth_append)
      moreover have "k ! length s \<in> set k" using False by simp
      ultimately show False using p assms(2) paren_facts by auto
    qed
    with no show ?thesis by simp
  qed simp
qed

lemma keyword_at_append: "closes rest \<Longrightarrow> keyword_at (s @ rest) = keyword_at s"
  unfolding keyword_at_def
  by (intro find_cong refl keyword_test_append) (auto simp: KEYWORDS_def)

lemma match_token_append:
  "closes rest \<Longrightarrow> match_token prev (c # cs) = None \<Longrightarrow> match_token prev (c # cs @ rest) = None"
  using keyword_at_append[of rest "c # cs"] by (auto simp: match_token_def split: if_splits)

declare tokenize_from.simps(2) [simp del]

lemma tokenize_match:
  "match_token prev (c # cs) = Some t \<Longrightarrow>
   tokenize_from prev acc (c # cs) =
     flush_atom acc @ t # tokenize_from (Some ((c # cs) ! (length t - 1))) [] (drop (length t) (c # cs))"
  by (simp add: tokenize_from.simps(2))

lemma tokenize_skip:
  "match_token prev (c # cs) = None \<Longrightarrow> tokenize_from prev acc (c # cs) = tokenize_from (Some c) (acc @ [c]) cs"
  by (simp add: tokenize_from.simps(2))

lemma tokenize_text:
  "\<not> search_token prev a \<Longrightarrow> closes rest \<Longrightarrow>
   \<exists>prev'. tokenize_from prev acc (a @ rest) = tokenize_from prev' (acc @ a) rest"
proof (induction a arbitrary: prev acc)
  case (Cons c cs)
  then have "match_token prev (c # cs @ rest) = None" using match_token_append by simp
  then have "tokenize_from prev acc ((c # cs) @ rest) = tokenize_from (Some c) (acc @ [c]) (cs @ rest)"
    by (simp add: tokenize_skip)
  with Cons.IH[of "Some c" "acc @ [c]"] Cons.prems show ?case by auto
qed auto

lemma tokenize_paren:
  assumes "p \<in> {CHR ''('', CHR '')''}"
  shows "tokenize_from prev acc (p # ps) = flush_atom acc @ [p] # tokenize_from (Some p) [] ps"
proof -
  have "match_token prev (p # ps) = Some [p]" using assms by (auto simp: match_token_def)
  from tokenize_match[OF this] show ?thesis by simp
qed

lemma flush_space: "flush_atom [] = []" "flush_atom '' '' = []"
  by (simp_all add: flush_atom_def py_strip_def paren_facts)

lemma tokenize_closed: "closes rest \<Longrightarrow> tokenize_from prev acc rest = flush_atom acc @ tokenize_from (Some CHR '')'') [] rest"
  by (cases rest) (simp_all add: closes_def tokenize_paren flush_space)

lemma search_token_boundary:
  "boundary_before prev \<Longrightarrow> boundary_before prev' \<Longrightarrow> search_token prev a = search_token prev' a"
  by (cases a) (simp_all add: match_token_def)

lemma keyword_cases:
  "keyword_at (''NOT '' @ s) = Some ''NOT''" "keyword_at (''AND '' @ s) = Some ''AND''" "keyword_at (''OR '' @ s) = Some ''OR''"
  "boundary_before prev \<Longrightarrow> match_token prev (''NOT '' @ s) = Some ''NOT''"
  "match_token (Some CHR '' '') (''AND '' @ s) = Some ''AND''" "match_token (Some CHR '' '') (''OR '' @ s) = Some ''OR''"
  "match_token prev ('' '' @ s) = None"
proof -
  have letters: "upper_char (CHR ''A'') = CHR ''A''" "upper_char (CHR ''D'') = CHR ''D''" "upper_char (CHR ''N'') = CHR ''N''"
    "upper_char (CHR ''O'') = CHR ''O''" "upper_char (CHR ''R'') = CHR ''R''" "upper_char (CHR ''T'') = CHR ''T''"
    by code_simp+
  show kw: "keyword_at (''NOT '' @ s) = Some ''NOT''" "keyword_at (''AND '' @ s) = Some ''AND''"
    "keyword_at (''OR '' @ s) = Some ''OR''"
    by (simp_all add: keyword_at_def KEYWORDS_def boundary_at_def paren_facts letters)
  show "match_token (Some CHR '' '') (''AND '' @ s) = Some ''AND''" "match_token (Some CHR '' '') (''OR '' @ s) = Some ''OR''"
    using kw by (simp_all add: match_token_def boundary_before_def paren_facts)
  show "match_token prev (''NOT '' @ s) = Some ''NOT''" if "boundary_before prev"
    using kw that by (simp add: match_token_def)
  have "keyword_at ('' '' @ s) = None"
    by (simp add: keyword_at_def KEYWORDS_def paren_facts)
  then show "match_token prev ('' '' @ s) = None" by (simp add: match_token_def)
qed

lemma tokenize_operator:
  "tokenize_from (Some CHR '')'') [] ('' AND ('' @ s) = ''AND'' # ''('' # tokenize_from (Some CHR ''('') [] s"
  "tokenize_from (Some CHR '')'') [] ('' OR ('' @ s) = ''OR'' # ''('' # tokenize_from (Some CHR ''('') [] s"
  "boundary_before prev \<Longrightarrow> tokenize_from prev [] (''NOT ('' @ s) = ''NOT'' # ''('' # tokenize_from (Some CHR ''('') [] s"
proof -
  have space: "tokenize_from prev acc ('' ('' @ s) = flush_atom (acc @ '' '') @ ''('' # tokenize_from (Some CHR ''('') [] s" for prev acc
    using keyword_cases(7)[of prev "''('' @ s"] by (simp add: tokenize_skip tokenize_paren)
  show "tokenize_from (Some CHR '')'') [] ('' AND ('' @ s) = ''AND'' # ''('' # tokenize_from (Some CHR ''('') [] s"
    using keyword_cases(7)[of "Some CHR '')''" "''AND ('' @ s"] keyword_cases(5)[of "''('' @ s"] space[of "Some CHR ''D''" "[]"]
    by (simp add: tokenize_skip tokenize_match flush_space)
  show "tokenize_from (Some CHR '')'') [] ('' OR ('' @ s) = ''OR'' # ''('' # tokenize_from (Some CHR ''('') [] s"
    using keyword_cases(7)[of "Some CHR '')''" "''OR ('' @ s"] keyword_cases(6)[of "''('' @ s"] space[of "Some CHR ''R''" "[]"]
    by (simp add: tokenize_skip tokenize_match flush_space)
  show "tokenize_from prev [] (''NOT ('' @ s) = ''NOT'' # ''('' # tokenize_from (Some CHR ''('') [] s" if "boundary_before prev"
    using keyword_cases(4)[OF that, of "''('' @ s"] space[of "Some CHR ''T''" "[]"]
    by (simp add: tokenize_match flush_space)
qed

lemma tokenize_group:
  assumes "\<And>prev rest. boundary_before prev \<Longrightarrow> closes rest \<Longrightarrow>
     tokenize_from prev [] (s @ rest) = ts @ tokenize_from (Some CHR '')'') [] rest"
  shows "tokenize_from (Some CHR ''('') [] (s @ '')'' @ rest) = ts @ '')'' # tokenize_from (Some CHR '')'') [] rest"
  using assms[of "Some CHR ''(''" "'')'' @ rest"]
  by (simp add: boundary_before_def closes_def paren_facts tokenize_paren flush_space)

lemma tokenize_show:
  "clean c \<Longrightarrow> boundary_before prev \<Longrightarrow> closes rest \<Longrightarrow>
   tokenize_from prev [] (show_cond c @ rest) = cond_tokens c @ tokenize_from (Some CHR '')'') [] rest"
proof (induction c arbitrary: prev rest)
  case (Atom a)
  then have "\<not> search_token prev a"
    using search_token_boundary[of prev None a] by (simp add: clean_atom_def has_compound_operators_def boundary_before_def)
  from tokenize_text[OF this Atom.prems(3), of "[]"] obtain prev'
    where "tokenize_from prev [] (a @ rest) = tokenize_from prev' a rest" by auto
  with Atom.prems show ?case by (simp add: tokenize_closed[of rest prev'] flush_atom_def clean_atom_def)
next
  case (Neg c)
  then have "tokenize_from (Some CHR ''('') [] (show_cond c @ '')'' @ rest) =
      cond_tokens c @ '')'' # tokenize_from (Some CHR '')'') [] rest"
    by (intro tokenize_group) simp
  with Neg.prems(2) show ?case using tokenize_operator(3)[of prev "show_cond c @ '')'' @ rest"] by simp
next
  case (Conj c d)
  then have "tokenize_from (Some CHR ''('') [] (show_cond c @ '')'' @ r) = cond_tokens c @ '')'' # tokenize_from (Some CHR '')'') [] r"
    "tokenize_from (Some CHR ''('') [] (show_cond d @ '')'' @ r) = cond_tokens d @ '')'' # tokenize_from (Some CHR '')'') [] r" for r
    by (intro tokenize_group; simp)+
  then show ?case using tokenize_operator(1)[of "show_cond d @ '')'' @ rest"]
    by (simp add: tokenize_paren flush_space)
next
  case (Disj c d)
  then have "tokenize_from (Some CHR ''('') [] (show_cond c @ '')'' @ r) = cond_tokens c @ '')'' # tokenize_from (Some CHR '')'') [] r"
    "tokenize_from (Some CHR ''('') [] (show_cond d @ '')'' @ r) = cond_tokens d @ '')'' # tokenize_from (Some CHR '')'') [] r" for r
    by (intro tokenize_group; simp)+
  then show ?case using tokenize_operator(2)[of "show_cond d @ '')'' @ rest"]
    by (simp add: tokenize_paren flush_space)
qed

lemma cond_tokens_phrase: "clean c \<Longrightarrow> or_phrase (cond_tokens c) c"
proof (induction c)
  case (Atom a)
  then have "\<not> search_token None a" by (simp add: clean_atom_def has_compound_operators_def)
  moreover have "search_token None ''AND''" "search_token None ''OR''" "search_token None ''NOT''" "search_token None ''(''"
    "search_token None '')''"
    by code_simp+
  ultimately show ?case by (auto intro!: or_one and_one atom)
next
  case (Neg c)
  then show ?case by (auto intro!: or_one and_one negated grouped[of "cond_tokens c", simplified])
next
  case (Conj c d)
  have "and_phrase ((''('' # cond_tokens c @ ['')'']) @ ''AND'' # (''('' # cond_tokens d @ ['')''])) (Conj c d)"
    using Conj by (intro and_more and_one grouped) simp_all
  then show ?case unfolding cond_tokens.simps by (rule or_one)
next
  case (Disj c d)
  have "or_phrase ((''('' # cond_tokens c @ ['')'']) @ ''OR'' # (''('' # cond_tokens d @ ['')''])) (Disj c d)"
    using Disj by (intro or_more or_one[OF and_one, OF grouped] and_one[OF grouped]) simp_all
  then show ?case unfolding cond_tokens.simps .
qed

lemma strip_kept: "\<not> py_space (hd s) \<Longrightarrow> \<not> py_space (last s) \<Longrightarrow> s \<noteq> [] \<Longrightarrow> py_strip s = s"
  by (simp add: py_strip_def dropWhile_eq_self_iff[THEN iffD2] hd_rev)

lemma show_cond_shape:
  assumes "\<And>a. c \<noteq> Atom a"
  shows "py_strip (show_cond c) = show_cond c" and "has_compound_operators (show_cond c)"
    and "map upper_char (show_cond c) \<notin> set KEYWORDS"
proof -
  have ends: "last (show_cond c) = CHR '')''" "hd (show_cond c) \<in> {CHR ''N'', CHR ''(''}" "show_cond c \<noteq> []"
    using assms by (cases c; simp)+
  then show "py_strip (show_cond c) = show_cond c" using paren_facts by (intro strip_kept) auto
  have "last (map upper_char (show_cond c)) = CHR '')''" using ends paren_facts by (simp add: last_map)
  then show "map upper_char (show_cond c) \<notin> set KEYWORDS" by (auto simp: KEYWORDS_def)
  have "match_token None (show_cond c) \<noteq> None"
    using assms keyword_cases(4)[of None] by (cases c) (auto simp: match_token_def boundary_before_def)
  then show "has_compound_operators (show_cond c)" using ends(3)
    by (cases "show_cond c") (simp_all add: has_compound_operators_def)
qed

text \<open>
  C19. What a person writes is what is evaluated: a condition written out with parentheses
  around its operands, of atoms that hold no operator of their own and at most 256 tokens,
  is accepted and has its value in every context. No text of an atom, and no nesting, turns
  the condition into another one.
\<close>

theorem written_condition_evaluates:
  assumes "clean c" and "length (cond_tokens c) \<le> MAX_TOKEN_COUNT"
  shows "evaluate_condition (show_cond c) ctx = Inr (eval_cond ctx c)"
proof (cases "\<exists>a. c = Atom a")
  case True
  with assms(1) show ?thesis
    by (auto simp: evaluate_condition_def evaluate_inner_def clean_atom_def Let_def)
next
  case False
  note shape = show_cond_shape[of c]
  have tokens: "tokenize (show_cond c) = cond_tokens c"
    using tokenize_show[OF assms(1), of None "[]"] by (simp add: tokenize_def boundary_before_def closes_def flush_space)
  have "cond_tokens c \<noteq> []" by (cases c) simp_all
  with assms(2) False shape have "evaluate_condition (show_cond c) ctx = Inr (eval_cond ctx c) \<longleftrightarrow>
      (\<exists>d. or_phrase (cond_tokens c) d \<and> eval_cond ctx d = eval_cond ctx c)"
    using grammar_spec[of "show_cond c" ctx "eval_cond ctx c"] tokens by simp
  with cond_tokens_phrase[OF assms(1)] show ?thesis by blast
qed

theorem written_condition_evaluates_witness:
  "show_cond (Conj (Neg (Atom ''x == dev'')) (Atom ''budget'')) = ''(NOT (x == dev)) AND (budget)'' \<and>
   evaluate_condition ''(NOT (x == dev)) AND (budget)'' demo_context = Inr False"
proof -
  let ?c = "Conj (Neg (Atom ''x == dev'')) (Atom ''budget'')"
  have "clean ?c" "length (cond_tokens ?c) \<le> MAX_TOKEN_COUNT" "\<not> eval_cond demo_context ?c" by code_simp+
  with written_condition_evaluates[of ?c demo_context] show ?thesis by simp
qed

end
