(* ===== verification/Workflow_Graph.thy ===== *)
theory Workflow_Graph
  imports Workflow_Condition
begin

text \<open>
  Workflow graphs: the definition a user saves with everything its validators refuse
  (\<open>engine/workflow/definition.py\<close>), the adjacency maps and the topological order
  (\<open>graph_utils.py\<close>), the searches (\<open>validate_reachability.py\<close>, and the branch
  search of \<open>execution_activation_helpers.py\<close>), and the validation for execution
  (\<open>validate_edges.py\<close>, \<open>validate_configs.py\<close>, \<open>validation.py\<close>).

  A dictionary of lists is the association list of its entries in insertion order. A node
  keeps its config as a map. Whether a text is an ISO date is the argument \<open>is_iso\<close>.
  Names, descriptions, canvas positions and timestamps are not modelled.
\<close>

section \<open>The definition\<close>

datatype workflow_node_type =
    NT_START | NT_END | NT_TASK | NT_AGENT_ASSIGNMENT | NT_CONDITIONAL | NT_PARALLEL_SPLIT | NT_PARALLEL_JOIN
  | NT_SUBWORKFLOW | NT_VERIFICATION

datatype workflow_edge_type =
    ET_SEQUENTIAL | ET_CONDITIONAL_TRUE | ET_CONDITIONAL_FALSE | ET_PARALLEL_BRANCH
  | ET_VERIFICATION_PASS | ET_VERIFICATION_FAIL | ET_VERIFICATION_REFER

datatype workflow_value_type =
    VT_STRING | VT_INTEGER | VT_FLOAT | VT_BOOLEAN | VT_DATETIME | VT_JSON | VT_TASK_REF | VT_AGENT_REF

record io_declaration =
  io_name :: string
  io_type :: workflow_value_type
  io_required :: bool
  io_default :: py_value

record wf_node =
  wn_id :: ident
  wn_type :: workflow_node_type
  wn_label :: string
  wn_config :: variables

record wf_edge =
  ed_id :: ident
  ed_source :: ident
  ed_target :: ident
  ed_type :: workflow_edge_type

record workflow_definition =
  wd_id :: ident
  wd_version :: string
  wd_inputs :: "io_declaration list"
  wd_outputs :: "io_declaration list"
  wd_is_subworkflow :: bool
  wd_nodes :: "wf_node list"
  wd_edges :: "wf_edge list"
  wd_revision :: int

datatype definition_error =
    Blank_Field
  | Bad_Revision
  | Bad_Version string
  | Default_On_Required string
  | Bad_Default string workflow_value_type
  | Optional_Output string
  | Duplicate_Inputs "string list"
  | Duplicate_Outputs "string list"
  | Duplicate_Nodes "ident list"
  | Duplicate_Edges "ident list"
  | Self_Loop ident
  | Unknown_Source ident ident
  | Unknown_Target ident ident
  | Start_Count nat
  | End_Count nat
  | Overflow_Escapes string

subsection \<open>Declared values\<close>

text \<open>
  \<open>math.isfinite\<close> of a float, read off its text, and of an integer: one that no
  float can hold raises \<open>OverflowError\<close>.
\<close>

definition finite_float :: "string \<Rightarrow> bool" where
  "finite_float text \<longleftrightarrow> text \<notin> {''inf'', ''-inf'', ''nan''}"

definition float_overflows :: "int \<Rightarrow> bool" where
  "float_overflows i \<longleftrightarrow> 2 ^ 1024 - 2 ^ 970 \<le> \<bar>i\<bar>"

text \<open>What \<open>json.dumps(value, allow_nan=False)\<close> takes.\<close>

fun json_ok :: "py_value \<Rightarrow> bool" where
  "json_ok (V_Map text entries) = list_all (\<lambda>(k, v). json_ok v) entries"
| "json_ok (V_List text items) = list_all json_ok items"
| "json_ok (V_Other kind text truth) = (kind = KIND_FLOAT \<and> finite_float text)"
| "json_ok v = True"

fun is_str :: "py_value \<Rightarrow> bool" where "is_str (V_Str s) = True" | "is_str v = False"
fun is_int :: "py_value \<Rightarrow> bool" where "is_int (V_Int i) = True" | "is_int v = False"
fun is_bool :: "py_value \<Rightarrow> bool" where "is_bool (V_Bool b) = True" | "is_bool v = False"

fun is_kind :: "py_kind \<Rightarrow> py_value \<Rightarrow> bool" where
  "is_kind k (V_Other kind text truth) = (kind = k)"
| "is_kind k v = False"

text \<open>\<open>isinstance\<close> against the table of checks, a boolean being no number here.\<close>

fun isinstance_of :: "workflow_value_type \<Rightarrow> py_value \<Rightarrow> bool" where
  "isinstance_of VT_INTEGER v = is_int v"
| "isinstance_of VT_FLOAT v = (is_int v \<or> is_kind KIND_FLOAT v)"
| "isinstance_of VT_BOOLEAN v = is_bool v"
| "isinstance_of VT_DATETIME v = (is_kind KIND_DATETIME v \<or> is_str v)"
| "isinstance_of VT_JSON v = True"
| "isinstance_of vt v = is_str v"

definition check_default_type ::
  "(string \<Rightarrow> bool) \<Rightarrow> string \<Rightarrow> py_value \<Rightarrow> workflow_value_type \<Rightarrow> (definition_error, unit) outcome" where
  "check_default_type is_iso name v vtype =
     (if vtype = VT_JSON then (if json_ok v then Inr () else Inl (Bad_Default name vtype))
      else if \<not> isinstance_of vtype v then Inl (Bad_Default name vtype)
      else case (vtype, v) of
             (VT_DATETIME, V_Str s) \<Rightarrow> if is_iso s then Inr () else Inl (Bad_Default name vtype)
           | (VT_FLOAT, V_Int i) \<Rightarrow> if float_overflows i then Inl (Overflow_Escapes name) else Inr ()
           | (VT_FLOAT, V_Other kind text truth) \<Rightarrow>
               if finite_float text then Inr () else Inl (Bad_Default name vtype)
           | _ \<Rightarrow> Inr ())"

definition validate_declaration :: "(string \<Rightarrow> bool) \<Rightarrow> io_declaration \<Rightarrow> (definition_error, unit) outcome" where
  "validate_declaration is_iso d =
     (if blank (io_name d) then Inl Blank_Field
      else if io_required d \<and> io_default d \<noteq> V_None then Inl (Default_On_Required (io_name d))
      else if io_default d \<noteq> V_None then check_default_type is_iso (io_name d) (io_default d) (io_type d)
      else Inr ())"

subsection \<open>Versions\<close>

text \<open>\<open>str.split\<close> on one character.\<close>

fun split_at_char :: "char \<Rightarrow> string \<Rightarrow> string list" where
  "split_at_char sep [] = [[]]"
| "split_at_char sep (c # cs) =
     (if c = sep then [] # split_at_char sep cs
      else case split_at_char sep cs of [] \<Rightarrow> [[c]] | p # ps \<Rightarrow> (c # p) # ps)"

definition digit :: "char \<Rightarrow> bool" where
  "digit c \<longleftrightarrow> (let n = (of_char c :: nat) in 48 \<le> n \<and> n \<le> 57)"

text \<open>\<open>0|[1-9]\d*\<close>\<close>

definition version_part :: "string \<Rightarrow> bool" where
  "version_part p \<longleftrightarrow> p \<noteq> [] \<and> list_all digit p \<and> (p = ''0'' \<or> hd p \<noteq> CHR ''0'')"

definition valid_semver :: "string \<Rightarrow> bool" where
  "valid_semver v \<longleftrightarrow> (let parts = split_at_char CHR ''.'' v in length parts = 3 \<and> list_all version_part parts)"

subsection \<open>The validators\<close>

definition validate_outputs_required :: "workflow_definition \<Rightarrow> (definition_error, unit) outcome" where
  "validate_outputs_required d =
     (case find (\<lambda>o'. \<not> io_required o') (wd_outputs d) of
        None \<Rightarrow> Inr () | Some o' \<Rightarrow> Inl (Optional_Output (io_name o')))"

definition validate_unique_io_names :: "workflow_definition \<Rightarrow> (definition_error, unit) outcome" where
  "validate_unique_io_names d =
     (let ins = map io_name (wd_inputs d); outs = map io_name (wd_outputs d)
      in if length ins \<noteq> length (remdups ins) then Inl (Duplicate_Inputs (repeated ins))
         else if length outs \<noteq> length (remdups outs) then Inl (Duplicate_Outputs (repeated outs))
         else Inr ())"

definition validate_unique_ids :: "workflow_definition \<Rightarrow> (definition_error, unit) outcome" where
  "validate_unique_ids d =
     (let ns = map wn_id (wd_nodes d); es = map ed_id (wd_edges d)
      in if length ns \<noteq> length (remdups ns) then Inl (Duplicate_Nodes (repeated ns))
         else if length es \<noteq> length (remdups es) then Inl (Duplicate_Edges (repeated es))
         else Inr ())"

fun validate_edges_in :: "ident set \<Rightarrow> wf_edge list \<Rightarrow> (definition_error, unit) outcome" where
  "validate_edges_in ids [] = Inr ()"
| "validate_edges_in ids (e # es) =
     (if ed_source e = ed_target e then Inl (Self_Loop (ed_id e))
      else if ed_source e \<notin> ids then Inl (Unknown_Source (ed_id e) (ed_source e))
      else if ed_target e \<notin> ids then Inl (Unknown_Target (ed_id e) (ed_target e))
      else validate_edges_in ids es)"

definition validate_edge_references :: "workflow_definition \<Rightarrow> (definition_error, unit) outcome" where
  "validate_edge_references d = validate_edges_in (set (map wn_id (wd_nodes d))) (wd_edges d)"

definition validate_terminal_nodes :: "workflow_definition \<Rightarrow> (definition_error, unit) outcome" where
  "validate_terminal_nodes d =
     (let starts = length (filter (\<lambda>n. wn_type n = NT_START) (wd_nodes d));
          ends = length (filter (\<lambda>n. wn_type n = NT_END) (wd_nodes d))
      in if starts \<noteq> 1 then Inl (Start_Count starts)
         else if ends \<noteq> 1 then Inl (End_Count ends)
         else Inr ())"

text \<open>What constructing the parts enforces, and then the whole.\<close>

definition construct_definition ::
  "(string \<Rightarrow> bool) \<Rightarrow> workflow_definition \<Rightarrow> (definition_error, unit) outcome" where
  "construct_definition is_iso d =
     (if list_ex (\<lambda>n. blank (wn_id n) \<or> blank (wn_label n)) (wd_nodes d) \<or>
         list_ex (\<lambda>e. blank (ed_id e) \<or> blank (ed_source e) \<or> blank (ed_target e)) (wd_edges d) \<or>
         blank (wd_version d)
      then Inl Blank_Field
      else and_then (map_outcome (validate_declaration is_iso) (wd_inputs d @ wd_outputs d)) (\<lambda>_.
           if wd_revision d < 1 then Inl Bad_Revision
           else if \<not> valid_semver (wd_version d) then Inl (Bad_Version (wd_version d))
           else and_then (validate_outputs_required d) (\<lambda>_.
                and_then (validate_unique_io_names d) (\<lambda>_.
                and_then (validate_unique_ids d) (\<lambda>_.
                and_then (validate_edge_references d) (\<lambda>_.
                and_then (validate_terminal_nodes d) (\<lambda>_. Inr ())))))))"

section \<open>Adjacency\<close>

type_synonym adjacency_map = "(ident \<times> ident list) list"

text \<open>\<open>d[k].append(v)\<close> of a \<open>defaultdict(list)\<close>, and \<open>d.get(k, [])\<close>.\<close>

fun append_to :: "'k \<Rightarrow> 'v \<Rightarrow> ('k \<times> 'v list) list \<Rightarrow> ('k \<times> 'v list) list" where
  "append_to k v [] = [(k, [v])]"
| "append_to k v ((k', vs) # rest) = (if k = k' then (k, vs @ [v]) # rest else (k', vs) # append_to k v rest)"

definition targets :: "('k \<times> 'v list) list \<Rightarrow> 'k \<Rightarrow> 'v list" where
  "targets adj n = (case map_of adj n of None \<Rightarrow> [] | Some vs \<Rightarrow> vs)"

definition group_edges :: "(wf_edge \<Rightarrow> 'k) \<Rightarrow> (wf_edge \<Rightarrow> 'v) \<Rightarrow> wf_edge list \<Rightarrow> ('k \<times> 'v list) list" where
  "group_edges k v es = fold (\<lambda>e. append_to (k e) (v e)) es []"

definition build_adjacency_maps ::
  "workflow_definition \<Rightarrow> adjacency_map \<times> adjacency_map \<times> (ident \<times> (ident \<times> workflow_edge_type) list) list" where
  "build_adjacency_maps d =
     (group_edges ed_source ed_target (wd_edges d),
      group_edges ed_target ed_source (wd_edges d),
      group_edges ed_source (\<lambda>e. (ed_target e, ed_type e)) (wd_edges d))"

lemma keys_append_to: "map fst (append_to k v adj) = (if k \<in> fst ` set adj then map fst adj else map fst adj @ [k])"
  by (induction adj) force+

lemma targets_append_to: "targets (append_to k v adj) n = (if n = k then targets adj n @ [v] else targets adj n)"
  by (induction adj) (auto simp: targets_def)

lemma distinct_append_to: "distinct (map fst adj) \<Longrightarrow> distinct (map fst (append_to k v adj))"
  by (auto simp: keys_append_to)

lemma group_edges_facts:
  "distinct (map fst (group_edges k v es)) \<and>
   (\<forall>n. targets (group_edges k v es) n = map v (filter (\<lambda>e. k e = n) es))"
proof (induction es rule: rev_induct)
  case (snoc e es)
  have "group_edges k v (es @ [e]) = append_to (k e) (v e) (group_edges k v es)" by (simp add: group_edges_def)
  with snoc show ?case by (simp add: distinct_append_to targets_append_to)
qed (simp add: group_edges_def targets_def)

lemmas targets_group [simp] = group_edges_facts[THEN conjunct2, rule_format]
lemmas distinct_group [simp] = group_edges_facts[THEN conjunct1]

text \<open>The nodes an adjacency map leads to, and its arcs between given nodes.\<close>

definition led_to :: "adjacency_map \<Rightarrow> ident set" where
  "led_to adj = \<Union> (set ` snd ` set adj)"

lemma finite_led_to [simp]: "finite (led_to adj)"
  by (simp add: led_to_def)

lemma targets_led_to: "set (targets adj n) \<subseteq> led_to adj"
proof (cases "map_of adj n")
  case (Some vs)
  from map_of_SomeD[OF this] have "vs \<in> snd ` set adj" by force
  with Some show ?thesis by (auto simp: targets_def led_to_def)
qed (simp add: targets_def)

definition arcs :: "adjacency_map \<Rightarrow> (ident \<times> ident) set" where
  "arcs adj = {(m, n). n \<in> set (targets adj m)}"

section \<open>Topological order\<close>

text \<open>The keys of \<open>dict.fromkeys(xs)\<close>.\<close>

definition dict_keys :: "'a list \<Rightarrow> 'a list" where
  "dict_keys xs = rev (remdups (rev xs))"

lemma dict_keys_facts [simp]: "set (dict_keys xs) = set xs" "distinct (dict_keys xs)"
  by (simp_all add: dict_keys_def)

lemma dict_keys_distinct [simp]: "distinct xs \<Longrightarrow> dict_keys xs = xs"
  by (simp add: dict_keys_def distinct_remdups_id)

fun count_targets :: "ident list \<Rightarrow> ident list \<Rightarrow> (ident \<Rightarrow> int) \<Rightarrow> ident \<Rightarrow> int" where
  "count_targets ids [] deg = deg"
| "count_targets ids (t # ts) deg = count_targets ids ts (if t \<in> set ids then deg(t := deg t + 1) else deg)"

definition in_degrees :: "ident list \<Rightarrow> adjacency_map \<Rightarrow> ident \<Rightarrow> int" where
  "in_degrees ids adj = fold (\<lambda>ts. count_targets ids ts) (map snd adj) (\<lambda>_. 0)"

fun release :: "ident list \<Rightarrow> ident list \<Rightarrow> (ident \<Rightarrow> int) \<Rightarrow> ident list \<Rightarrow> (ident \<Rightarrow> int) \<times> ident list" where
  "release ids [] deg queue = (deg, queue)"
| "release ids (t # ts) deg queue =
     (if t \<in> set ids then
        (let deg' = deg(t := deg t - 1) in release ids ts deg' (if deg' t = 0 then queue @ [t] else queue))
      else release ids ts deg queue)"

definition waiting :: "ident list \<Rightarrow> (ident \<Rightarrow> int) \<Rightarrow> nat" where
  "waiting ids deg = card {n \<in> set ids. 0 < deg n}"

lemma release_measure:
  "release ids ts deg queue = (deg', queue') \<Longrightarrow> length queue' + waiting ids deg' \<le> length queue + waiting ids deg"
proof (induction ts arbitrary: deg queue)
  case (Cons t ts)
  let ?deg = "deg(t := deg t - 1)" and ?P = "\<lambda>deg. {n \<in> set ids. 0 < deg n}"
  show ?case
  proof (cases "t \<in> set ids")
    case True
    then have IH: "length queue' + waiting ids deg' \<le> length (if ?deg t = 0 then queue @ [t] else queue) + waiting ids ?deg"
      using Cons.prems by (intro Cons.IH) (simp only: release.simps Let_def if_True)
    show ?thesis
    proof (cases "deg t = 1")
      case d: True
      then have "?P ?deg = ?P deg - {t}" "t \<in> ?P deg" using True by auto
      then have "waiting ids deg = Suc (waiting ids ?deg)"
        using card_Suc_Diff1[of "?P deg" t] by (simp add: waiting_def)
      then show ?thesis using IH d by simp
    next
      case False
      have "waiting ids ?deg \<le> waiting ids deg" unfolding waiting_def by (intro card_mono) auto
      then show ?thesis using IH False by simp
    qed
  qed (use Cons in simp)
qed simp

function wf_kahn ::
  "ident list \<Rightarrow> adjacency_map \<Rightarrow> (ident \<Rightarrow> int) \<Rightarrow> ident list \<Rightarrow> ident list \<Rightarrow> ident list" where
  "wf_kahn ids adj deg [] result = result"
| "wf_kahn ids adj deg (n # queue) result =
     (case release ids (targets adj n) deg queue of
        (deg', queue') \<Rightarrow> wf_kahn ids adj deg' queue' (result @ [n]))"
  by pat_completeness auto
termination
  by (relation "measure (\<lambda>(ids, adj, deg, queue, result). length queue + waiting ids deg)")
    (auto dest!: sym[of "(_, _)"] release_measure)

definition wf_topological_sort :: "ident list \<Rightarrow> adjacency_map \<Rightarrow> (string, ident list) outcome" where
  "wf_topological_sort ids adj =
     (let deg = in_degrees ids adj;
          result = wf_kahn ids adj deg (filter (\<lambda>n. deg n = 0) (dict_keys ids)) []
      in if length result \<noteq> length ids then Inl ''Cannot topologically sort: graph contains a cycle''
         else Inr result)"

text \<open>The arcs the sort looks at, and what an order of the nodes has to respect.\<close>

definition arcs_in :: "ident list \<Rightarrow> adjacency_map \<Rightarrow> (ident \<times> ident) set" where
  "arcs_in ids adj = {(m, n). m \<in> set ids \<and> n \<in> set ids \<and> n \<in> set (targets adj m)}"

definition forward_order :: "(ident \<times> ident) set \<Rightarrow> ident list \<Rightarrow> bool" where
  "forward_order R order \<longleftrightarrow> (\<forall>k < length order. \<forall>m. (m, order ! k) \<in> R \<longrightarrow> m \<in> set (take k order))"

definition wf_adjacency :: "ident list \<Rightarrow> adjacency_map \<Rightarrow> bool" where
  "wf_adjacency ids adj \<longleftrightarrow> distinct ids \<and> distinct (map fst adj) \<and> fst ` set adj \<subseteq> set ids"

definition arcs_from :: "adjacency_map \<Rightarrow> ident set \<Rightarrow> ident \<Rightarrow> int" where
  "arcs_from adj A n = (\<Sum>m \<in> A. int (count_list (targets adj m) n))"

lemma arcs_from_insert: "finite A \<Longrightarrow> m \<notin> A \<Longrightarrow> arcs_from adj (insert m A) n = int (count_list (targets adj m) n) + arcs_from adj A n"
  by (simp add: arcs_from_def)

lemma arcs_from_zero: "finite A \<Longrightarrow> arcs_from adj A n = 0 \<longleftrightarrow> (\<forall>m \<in> A. n \<notin> set (targets adj m))"
  by (simp add: arcs_from_def sum_nonneg_eq_0_iff count_list_0_iff)

lemma arcs_from_nonneg: "0 \<le> arcs_from adj A n"
  by (simp add: arcs_from_def sum_nonneg)

lemma plus_count_zero: "0 \<le> i \<Longrightarrow> i + int (count_list ts n) = 0 \<longleftrightarrow> i = 0 \<and> n \<notin> set ts"
  by (metis add_nonneg_eq_0_iff count_list_0_iff of_nat_0_le_iff of_nat_eq_0_iff)

lemma count_targets_sum: "n \<in> set ids \<Longrightarrow> count_targets ids ts deg n = deg n + int (count_list ts n)"
  by (induction ts arbitrary: deg) auto

lemma in_degrees_sum:
  assumes "wf_adjacency ids adj" and "n \<in> set ids"
  shows "in_degrees ids adj n = arcs_from adj (set ids) n"
proof -
  have d: "distinct (map fst adj)" and sub: "fst ` set adj \<subseteq> set ids" using assms(1) by (auto simp: wf_adjacency_def)
  have "fold (\<lambda>ts. count_targets ids ts) tss deg n = deg n + (\<Sum>ts \<leftarrow> tss. int (count_list ts n))" for tss deg
    using assms(2) by (induction tss arbitrary: deg) (simp_all add: count_targets_sum)
  then have "in_degrees ids adj n = (\<Sum>p \<leftarrow> adj. int (count_list (snd p) n))"
    by (simp add: in_degrees_def comp_def)
  also have "\<dots> = (\<Sum>p \<in> set adj. int (count_list (snd p) n))"
    using d by (simp add: sum_list_distinct_conv_sum_set distinct_map)
  also have "\<dots> = (\<Sum>p \<in> set adj. int (count_list (targets adj (fst p)) n))"
    using d by (intro sum.cong) (auto simp: targets_def)
  also have "\<dots> = arcs_from adj (fst ` set adj) n"
    using d by (simp add: arcs_from_def sum.reindex distinct_map)
  also have "\<dots> = arcs_from adj (set ids) n"
    unfolding arcs_from_def
  proof (rule sum.mono_neutral_left)
    show "\<forall>m \<in> set ids - fst ` set adj. int (count_list (targets adj m) n) = 0"
      by (auto simp: targets_def split: option.splits dest!: map_of_SomeD) force
  qed (use sub in auto)
  finally show ?thesis .
qed

lemma release_spec:
  assumes "\<And>n. n \<in> set ids \<Longrightarrow> deg n = base n + int (count_list ts n)" and "\<And>n. n \<in> set ids \<Longrightarrow> 0 \<le> base n"
  shows "\<exists>new. release ids ts deg queue = (fst (release ids ts deg queue), queue @ new) \<and>
     (\<forall>n \<in> set ids. fst (release ids ts deg queue) n = base n) \<and>
     distinct new \<and> set new = {n \<in> set ids \<inter> set ts. base n = 0}"
  using assms(1)
proof (induction ts arbitrary: deg queue)
  case (Cons t ts)
  show ?case
  proof (cases "t \<in> set ids")
    case False
    with Cons.prems have "\<And>n. n \<in> set ids \<Longrightarrow> deg n = base n + int (count_list ts n)" by fastforce
    from Cons.IH[OF this, of queue] False show ?thesis by (auto simp: Int_insert_right)
  next
    case True
    let ?deg = "deg(t := deg t - 1)" and ?q = "if (deg(t := deg t - 1)) t = 0 then queue @ [t] else queue"
    have unfolded: "release ids (t # ts) deg queue = release ids ts ?deg ?q"
      using True by (simp only: release.simps Let_def if_True)
    have IHp: "?deg n = base n + int (count_list ts n)" if "n \<in> set ids" for n
      using Cons.prems[OF that] by (cases "n = t") auto
    from Cons.IH[OF this, of ?q] obtain new where new:
      "release ids ts ?deg ?q = (fst (release ids ts ?deg ?q), ?q @ new)"
      "\<forall>n \<in> set ids. fst (release ids ts ?deg ?q) n = base n" "distinct new" "set new = {n \<in> set ids \<inter> set ts. base n = 0}"
      by blast
    have zero: "(deg(t := deg t - 1)) t = 0 \<longleftrightarrow> base t = 0 \<and> t \<notin> set ts"
      using IHp[OF True] plus_count_zero[OF assms(2)[OF True], of ts t] by simp
    show ?thesis
    proof (cases "base t = 0 \<and> t \<notin> set ts")
      case T: True
      with zero have "?q = queue @ [t]" by simp
      with new T True show ?thesis unfolding unfolded by (intro exI[of _ "t # new"]) auto
    next
      case F: False
      with zero have "?q = queue" by simp
      with new F True show ?thesis unfolding unfolded by (intro exI[of _ new]) auto
    qed
  qed
qed simp

definition sort_inv :: "ident list \<Rightarrow> adjacency_map \<Rightarrow> (ident \<Rightarrow> int) \<Rightarrow> ident list \<Rightarrow> ident list \<Rightarrow> bool" where
  "sort_inv ids adj deg queue result \<longleftrightarrow>
     distinct (result @ queue) \<and> set result \<subseteq> set ids \<and>
     set (result @ queue) = {n \<in> set ids. deg n = 0} \<and>
     (\<forall>n \<in> set ids. deg n = arcs_from adj (set ids - set result) n) \<and>
     forward_order (arcs_in ids adj) result"

lemma forward_order_snoc:
  "forward_order R order \<Longrightarrow> (\<And>m. (m, n) \<in> R \<Longrightarrow> m \<in> set order) \<Longrightarrow> forward_order R (order @ [n])"
  by (auto simp: forward_order_def nth_append less_Suc_eq)

lemma sort_step:
  assumes "wf_adjacency ids adj" and inv: "sort_inv ids adj deg (n # queue) result"
    and rel: "release ids (targets adj n) deg queue = (deg', queue')"
  shows "sort_inv ids adj deg' queue' (result @ [n])"
proof -
  let ?left = "set ids - set result"
  have n: "n \<in> ?left" "deg n = 0" and fin: "finite (?left - {n})" using inv by (auto simp: sort_inv_def)
  have left: "?left = insert n (?left - {n})" using n by blast
  have deg: "deg m = arcs_from adj (?left - {n}) m + int (count_list (targets adj n) m)" if "m \<in> set ids" for m
    using inv that arcs_from_insert[OF fin, of n adj m] left by (simp add: sort_inv_def)
  obtain new where new: "queue' = queue @ new" "\<forall>m \<in> set ids. deg' m = arcs_from adj (?left - {n}) m" "distinct new"
    "set new = {m \<in> set ids \<inter> set (targets adj n). arcs_from adj (?left - {n}) m = 0}"
    using release_spec[OF deg arcs_from_nonneg, of ids queue] unfolding rel by auto
  have sub: "?left - {n} = set ids - set (result @ [n])" by auto
  have zero: "deg m = 0 \<longleftrightarrow> deg' m = 0 \<and> m \<notin> set (targets adj n)" if "m \<in> set ids" for m
    using deg[OF that] new(2) that plus_count_zero[OF arcs_from_nonneg, of adj "?left - {n}" m "targets adj n"] by simp
  have old: "set (result @ n # queue) = {m \<in> set ids. deg m = 0}" and dist: "distinct (result @ n # queue)"
    using inv by (auto simp: sort_inv_def)
  have "set new = {m \<in> set ids. m \<in> set (targets adj n) \<and> deg' m = 0}" using new(2,4) by auto
  then have grown: "{m \<in> set ids. deg' m = 0} = {m \<in> set ids. deg m = 0} \<union> set new"
    "{m \<in> set ids. deg m = 0} \<inter> set new = {}"
    using zero by blast+
  have "set ((result @ [n]) @ queue') = {m \<in> set ids. deg' m = 0}"
    unfolding new(1) grown(1) old[symmetric] by auto
  moreover have "distinct ((result @ [n]) @ queue')"
    using dist new(3) grown(2) unfolding new(1) old[symmetric] by auto
  moreover have "m \<in> set result" if "(m, n) \<in> arcs_in ids adj" for m
  proof -
    have "arcs_from adj ?left n = 0" using inv n by (simp add: sort_inv_def)
    with that show ?thesis by (auto simp: arcs_from_zero arcs_in_def)
  qed
  ultimately show ?thesis
    using inv new(2) n unfolding sort_inv_def sub by (auto intro!: forward_order_snoc)
qed

lemma wf_sort_inv:
  "wf_adjacency ids adj \<Longrightarrow> sort_inv ids adj deg queue result \<Longrightarrow>
   \<exists>deg'. sort_inv ids adj deg' [] (wf_kahn ids adj deg queue result)"
proof (induction ids adj deg queue result rule: wf_kahn.induct)
  case (2 ids adj deg n queue result)
  obtain deg' queue' where rel: "release ids (targets adj n) deg queue = (deg', queue')" by fastforce
  from "2.IH"[OF rel[symmetric] "2.prems"(1) sort_step[OF "2.prems" rel]] rel show ?case by simp
qed auto

lemma forward_order_acyclic:
  assumes "R \<subseteq> set order \<times> set order" and "forward_order R order" and "distinct order"
  shows "acyclic R"
proof -
  have "index_of m order < index_of n order" if "(m, n) \<in> R" for m n
  proof -
    let ?k = "index_of n order"
    have n: "?k < length order" "order ! ?k = n" using assms(1) that by auto
    with assms(2) that have "m \<in> set (take ?k order)" by (auto simp: forward_order_def)
    then obtain j where j: "j < ?k" "order ! j = m" using n by (auto simp: in_set_conv_nth)
    moreover have "index_of m order = j"
      using j n assms(3) by (metis index_of_less_iff nth_eq_iff_index_eq nth_index_of nth_mem order_less_trans)
    ultimately show ?thesis by simp
  qed
  then have "R \<subseteq> measure (\<lambda>x. index_of x order)" by auto
  then show ?thesis using acyclic_subset wf_acyclic wf_measure by blast
qed

lemma wf_topological_sort_spec:
  assumes "wf_adjacency ids adj"
  shows "case wf_topological_sort ids adj of
      Inl e \<Rightarrow> \<not> acyclic (arcs_in ids adj)
    | Inr order \<Rightarrow> acyclic (arcs_in ids adj) \<and> mset order = mset ids \<and> forward_order (arcs_in ids adj) order"
proof -
  let ?deg = "in_degrees ids adj" and ?R = "arcs_in ids adj"
  let ?r = "wf_kahn ids adj ?deg (filter (\<lambda>n. ?deg n = 0) (dict_keys ids)) []"
  have dist: "distinct ids" using assms by (simp add: wf_adjacency_def)
  then have "sort_inv ids adj ?deg (filter (\<lambda>n. ?deg n = 0) (dict_keys ids)) []"
    using in_degrees_sum[OF assms] by (auto simp: sort_inv_def forward_order_def)
  from wf_sort_inv[OF assms this] obtain deg' where inv: "sort_inv ids adj deg' [] ?r" by blast
  then have r: "distinct ?r" "set ?r \<subseteq> set ids" "forward_order ?R ?r" "set ?r = {n \<in> set ids. deg' n = 0}"
    by (auto simp: sort_inv_def)
  have len: "length ?r = length ids \<longleftrightarrow> set ?r = set ids"
    using r(1,2) dist by (metis List.finite_set card_subset_eq distinct_card)
  show ?thesis
  proof (cases "set ?r = set ids")
    case True
    then have "mset ?r = mset ids" using r(1) dist set_eq_iff_mset_eq_distinct by blast
    moreover have "acyclic ?R" using True r(1,3) by (intro forward_order_acyclic[of _ ?r]) (auto simp: arcs_in_def)
    ultimately show ?thesis using True len r(3) by (simp add: wf_topological_sort_def Let_def)
  next
    case False
    let ?left = "set ids - set ?r"
    have "\<exists>m \<in> ?left. (m, n) \<in> ?R" if n: "n \<in> ?left" for n
    proof -
      have "arcs_from adj ?left n \<noteq> 0" using n inv r(4) by (auto simp: sort_inv_def)
      with n show ?thesis by (auto simp: arcs_from_zero arcs_in_def)
    qed
    moreover have "?left \<noteq> {}" using False r(2) by blast
    ultimately have "\<not> wf ?R" by (auto simp: wf_eq_minimal intro!: exI[of _ ?left])
    moreover have "finite ?R" by (rule finite_subset[of _ "set ids \<times> set ids"]) (auto simp: arcs_in_def)
    ultimately have "\<not> acyclic ?R" using finite_acyclic_wf by blast
    with False len show ?thesis by (simp add: wf_topological_sort_def Let_def)
  qed
qed

section \<open>Searches with a work list\<close>

text \<open>
  The searches of the workflow engine share a loop: take the next node, skip it when it was
  visited or is blocked, otherwise mark it, add what it contributes and queue where it leads.
  \<open>None\<close> is a lookup that fails on a node the definition does not have.
\<close>

locale worklist =
  fixes gain :: "'a list \<Rightarrow> 'a set \<Rightarrow> 'b set option" and next_of :: "'a \<Rightarrow> 'a set"
    and blocked missing :: "'a \<Rightarrow> bool" and emits :: "'a \<Rightarrow> 'b set" and universe :: "'a set"
  assumes finite_universe: "finite universe"
    and next_universe: "next_of x \<subseteq> universe"
    and finished: "gain [] V = Some {}"
    and skip: "x \<in> V \<or> blocked x \<Longrightarrow> gain (x # q) V = gain q V"
    and visit: "x \<notin> V \<Longrightarrow> \<not> blocked x \<Longrightarrow> \<not> missing x \<Longrightarrow>
      \<exists>extra. set extra \<subseteq> next_of x \<and> next_of x \<subseteq> set extra \<union> insert x V \<and>
        gain (x # q) V = map_option ((\<union>) (emits x)) (gain (q @ extra) (insert x V))"
begin

definition hop :: "('a \<times> 'a) set" where
  "hop = {(u, v). v \<in> next_of u \<and> \<not> blocked v}"

definition found :: "'a list \<Rightarrow> 'a set" where
  "found q = {y. \<exists>x \<in> set q. \<not> blocked x \<and> (x, y) \<in> hop\<^sup>*}"

definition closed_up_to :: "'a list \<Rightarrow> 'a set \<Rightarrow> bool" where
  "closed_up_to q V \<longleftrightarrow> (\<forall>v \<in> V. \<forall>w \<in> next_of v. w \<in> V \<or> w \<in> set q \<or> blocked w)"

lemma found_beyond:
  assumes "closed_up_to q W" and "(z, y) \<in> hop\<^sup>*" and "z \<in> W \<union> set q" and "\<not> blocked z" and "y \<notin> W"
  shows "y \<in> found q"
  using assms(2-4)
proof (induction rule: converse_rtrancl_induct)
  case base
  with assms(5) show ?case by (auto simp: found_def)
next
  case (step z w)
  show ?case
  proof (cases "z \<in> set q")
    case True
    with step show ?thesis by (auto simp: found_def intro: converse_rtrancl_into_rtrancl)
  next
    case False
    with step assms(1) have "w \<in> W \<union> set q" "\<not> blocked w" by (auto simp: closed_up_to_def hop_def)
    with step.IH show ?thesis by blast
  qed
qed

lemma found_skip:
  assumes "closed_up_to (x # q) V" and "x \<in> V \<or> blocked x"
  shows "closed_up_to q V" and "found (x # q) - V = found q - V"
proof -
  show c: "closed_up_to q V" using assms by (auto simp: closed_up_to_def)
  have "y \<in> found q" if "y \<in> found (x # q)" "y \<notin> V" for y
  proof -
    from that obtain z where "z \<in> set (x # q)" "\<not> blocked z" "(z, y) \<in> hop\<^sup>*" by (auto simp: found_def)
    with assms(2) that(2) found_beyond[OF c, of z y] show ?thesis by auto
  qed
  then show "found (x # q) - V = found q - V" by (auto simp: found_def)
qed

lemma found_visit:
  assumes "closed_up_to (x # q) V" and "x \<notin> V" and "\<not> blocked x"
    and extra: "set extra \<subseteq> next_of x" "next_of x \<subseteq> set extra \<union> insert x V"
  shows "closed_up_to (q @ extra) (insert x V)"
    and "found (x # q) - V = insert x (found (q @ extra) - insert x V)"
proof -
  show c: "closed_up_to (q @ extra) (insert x V)"
    using assms(1) extra(2) by (fastforce simp: closed_up_to_def)
  have "y \<in> found (q @ extra)" if "y \<in> found (x # q)" "y \<notin> insert x V" for y
  proof -
    from that(1) obtain z where z: "z \<in> set (x # q)" "\<not> blocked z" "(z, y) \<in> hop\<^sup>*" by (auto simp: found_def)
    with that(2) found_beyond[OF c, of z y] show ?thesis by auto
  qed
  moreover have "y \<in> found (x # q)" if "y \<in> found (q @ extra)" for y
  proof -
    from that obtain z where z: "z \<in> set (q @ extra)" "\<not> blocked z" "(z, y) \<in> hop\<^sup>*" by (auto simp: found_def)
    then have "z \<in> set q \<or> (x, z) \<in> hop" using extra(1) by (auto simp: hop_def)
    with z assms(3) show ?thesis by (auto simp: found_def intro: converse_rtrancl_into_rtrancl)
  qed
  moreover have "x \<in> found (x # q)" using assms(3) by (auto simp: found_def)
  ultimately show "found (x # q) - V = insert x (found (q @ extra) - insert x V)" using assms(2) by blast
qed

lemma gain_found:
  assumes "closed_up_to q V" and "\<forall>y \<in> found q. \<not> missing y"
  shows "gain q V = Some (\<Union> (emits ` (found q - V)))"
  using assms
proof (induction "(card ((universe \<union> set q) - V), length q)" arbitrary: q V
    rule: wf_induct_rule[OF wf_lex_prod[OF wf_less_than wf_less_than]])
  case (1 q V)
  show ?case
  proof (cases q)
    case (Cons x q')
    show ?thesis
    proof (cases "x \<in> V \<or> blocked x")
      case True
      note s = found_skip[OF "1.prems"(1)[unfolded Cons] True]
      have "card ((universe \<union> set q') - V) \<le> card ((universe \<union> set q) - V)"
        using finite_universe unfolding Cons by (intro card_mono) auto
      then have "gain q' V = Some (\<Union> (emits ` (found q' - V)))"
        using "1.prems"(2) unfolding Cons by (intro "1.hyps") (auto simp: Cons s found_def)
      with True show ?thesis unfolding Cons by (simp only: skip s(2))
    next
      case False
      then have x: "x \<notin> V" "\<not> blocked x" by auto
      then have "x \<in> found q" by (auto simp: Cons found_def)
      with "1.prems"(2) have "\<not> missing x" by blast
      from visit[OF x this, of q'] obtain extra where extra: "set extra \<subseteq> next_of x" "next_of x \<subseteq> set extra \<union> insert x V"
        and g: "gain (x # q') V = map_option ((\<union>) (emits x)) (gain (q' @ extra) (insert x V))" by blast
      note v = found_visit[OF "1.prems"(1)[unfolded Cons] x extra]
      have "(universe \<union> set (q' @ extra)) - insert x V \<subset> (universe \<union> set q) - V"
        using x(1) extra(1) next_universe[of x] unfolding Cons by auto
      then have less: "card ((universe \<union> set (q' @ extra)) - insert x V) < card ((universe \<union> set q) - V)"
        using finite_universe by (intro psubset_card_mono) auto
      have "found (q' @ extra) \<subseteq> found q"
      proof
        fix y assume "y \<in> found (q' @ extra)"
        then obtain z where z: "z \<in> set (q' @ extra)" "\<not> blocked z" "(z, y) \<in> hop\<^sup>*" by (auto simp: found_def)
        then have "z \<in> set q' \<or> (x, z) \<in> hop" using extra(1) by (auto simp: hop_def)
        with z x(2) show "y \<in> found q" by (auto simp: Cons found_def intro: converse_rtrancl_into_rtrancl)
      qed
      then have "gain (q' @ extra) (insert x V) = Some (\<Union> (emits ` (found (q' @ extra) - insert x V)))"
        using less v(1) "1.prems"(2) by (intro "1.hyps") auto
      with g show ?thesis unfolding Cons v(2) by simp
    qed
  qed (simp add: finished found_def)
qed

lemma gain_start:
  assumes "\<forall>y \<in> found q. \<not> missing y"
  shows "gain q {} = Some (\<Union> (emits ` found q))"
  using gain_found[of q "{}"] assms by (simp add: closed_up_to_def)

end

subsection \<open>Reachability\<close>

text \<open>A node visited for the first time leaves the nodes that can still be met.\<close>

definition search_left :: "adjacency_map \<Rightarrow> ident list \<Rightarrow> ident set \<Rightarrow> nat" where
  "search_left adj q V = card ((led_to adj \<union> set q) - V)"

lemma search_left_skip: "search_left adj q V < search_left adj (x # q) V \<or> search_left adj q V = search_left adj (x # q) V"
  unfolding search_left_def by (rule le_imp_less_or_eq, intro card_mono) auto

lemma search_left_visit:
  assumes "x \<notin> V" and "set extra \<subseteq> set (targets adj x)"
  shows "search_left adj (q @ extra) (insert x V) < search_left adj (x # q) V"
  using assms targets_led_to[of adj x] unfolding search_left_def by (intro psubset_card_mono) auto

function reach_loop :: "adjacency_map \<Rightarrow> ident list \<Rightarrow> ident set \<Rightarrow> ident set" where
  "reach_loop adj [] visited = visited"
| "reach_loop adj (x # q) visited =
     (if x \<in> visited then reach_loop adj q visited
      else let visited' = insert x visited
           in reach_loop adj (q @ filter (\<lambda>n. n \<notin> visited') (targets adj x)) visited')"
  by pat_completeness auto
termination
  by (relation "measures [\<lambda>(adj, q, V). search_left adj q V, \<lambda>(adj, q, V). length q]")
    (use search_left_skip in \<open>auto simp: Let_def intro!: search_left_visit\<close>)

definition reachable_from :: "ident \<Rightarrow> adjacency_map \<Rightarrow> ident set" where
  "reachable_from start adj = reach_loop adj [start] {}"

lemma reach_loop_grows: "visited \<subseteq> reach_loop adj q visited"
  by (induction adj q visited rule: reach_loop.induct) (auto simp: Let_def)

interpretation reach: worklist "\<lambda>q V. Some (reach_loop adj q V - V)" "\<lambda>x. set (targets adj x)"
    "\<lambda>_. False" "\<lambda>_. False" "\<lambda>x. {x}" "led_to adj" for adj
proof unfold_locales
  fix x :: ident and q V assume "x \<notin> V"
  let ?extra = "filter (\<lambda>n. n \<notin> insert x V) (targets adj x)"
  have "reach_loop adj (x # q) V - V = insert x (reach_loop adj (q @ ?extra) (insert x V) - insert x V)"
    using \<open>x \<notin> V\<close> reach_loop_grows[of "insert x V" adj "q @ ?extra"] by (auto simp: Let_def)
  then show "\<exists>extra. set extra \<subseteq> set (targets adj x) \<and> set (targets adj x) \<subseteq> set extra \<union> insert x V \<and>
      Some (reach_loop adj (x # q) V - V) =
        map_option ((\<union>) {x}) (Some (reach_loop adj (q @ extra) (insert x V) - insert x V))"
    by (intro exI[of _ ?extra]) auto
qed (auto simp: targets_led_to)

lemma reachable_from_spec: "reachable_from start adj = {n. (start, n) \<in> (arcs adj)\<^sup>*}"
  using reach.gain_start[where q = "[start]" and adj = adj]
  by (simp add: reachable_from_def reach.found_def reach.hop_def arcs_def)

subsection \<open>Skipped branches\<close>

function taken_loop :: "adjacency_map \<Rightarrow> ident list \<Rightarrow> ident set \<Rightarrow> ident set" where
  "taken_loop adj [] taken = taken"
| "taken_loop adj (x # q) taken =
     (if x \<in> taken then taken_loop adj q taken else taken_loop adj (q @ targets adj x) (insert x taken))"
  by pat_completeness auto
termination
  by (relation "measures [\<lambda>(adj, q, V). search_left adj q V, \<lambda>(adj, q, V). length q]")
    (use search_left_skip in \<open>auto intro!: search_left_visit\<close>)

function skip_loop :: "adjacency_map \<Rightarrow> ident set \<Rightarrow> ident list \<Rightarrow> ident set \<Rightarrow> ident set" where
  "skip_loop adj taken [] skipped = skipped"
| "skip_loop adj taken (x # q) skipped =
     (if x \<in> skipped \<or> x \<in> taken then skip_loop adj taken q skipped
      else skip_loop adj taken (q @ targets adj x) (insert x skipped))"
  by pat_completeness auto
termination
  by (relation "measures [\<lambda>(adj, taken, q, V). search_left adj q V, \<lambda>(adj, taken, q, V). length q]")
    (use search_left_skip in \<open>auto intro!: search_left_visit\<close>)

definition find_skipped_nodes :: "ident \<Rightarrow> ident \<Rightarrow> adjacency_map \<Rightarrow> ident set" where
  "find_skipped_nodes untaken_target taken_target adj =
     skip_loop adj (taken_loop adj [taken_target] {}) [untaken_target] {}"

lemma taken_loop_grows: "taken \<subseteq> taken_loop adj q taken"
  by (induction adj q taken rule: taken_loop.induct) auto

lemma skip_loop_grows: "skipped \<subseteq> skip_loop adj taken q skipped"
  by (induction adj taken q skipped rule: skip_loop.induct) auto

interpretation taken_branch: worklist "\<lambda>q V. Some (taken_loop adj q V - V)" "\<lambda>x. set (targets adj x)"
    "\<lambda>_. False" "\<lambda>_. False" "\<lambda>x. {x}" "led_to adj" for adj
proof unfold_locales
  fix x :: ident and q V assume "x \<notin> V"
  then have "taken_loop adj (x # q) V - V = insert x (taken_loop adj (q @ targets adj x) (insert x V) - insert x V)"
    using taken_loop_grows[of "insert x V" adj "q @ targets adj x"] by auto
  then show "\<exists>extra. set extra \<subseteq> set (targets adj x) \<and> set (targets adj x) \<subseteq> set extra \<union> insert x V \<and>
      Some (taken_loop adj (x # q) V - V) =
        map_option ((\<union>) {x}) (Some (taken_loop adj (q @ extra) (insert x V) - insert x V))"
    by (intro exI[of _ "targets adj x"]) auto
qed (auto simp: targets_led_to)

interpretation skipped_branch: worklist "\<lambda>q V. Some (skip_loop adj taken q V - V)" "\<lambda>x. set (targets adj x)"
    "\<lambda>x. x \<in> taken" "\<lambda>_. False" "\<lambda>x. {x}" "led_to adj" for adj taken
proof unfold_locales
  fix x :: ident and q V assume "x \<notin> V" "x \<notin> taken"
  then have "skip_loop adj taken (x # q) V - V = insert x (skip_loop adj taken (q @ targets adj x) (insert x V) - insert x V)"
    using skip_loop_grows[of "insert x V" adj taken "q @ targets adj x"] by auto
  then show "\<exists>extra. set extra \<subseteq> set (targets adj x) \<and> set (targets adj x) \<subseteq> set extra \<union> insert x V \<and>
      Some (skip_loop adj taken (x # q) V - V) =
        map_option ((\<union>) {x}) (Some (skip_loop adj taken (q @ extra) (insert x V) - insert x V))"
    by (intro exI[of _ "targets adj x"]) auto
qed (auto simp: targets_led_to)

lemma taken_loop_spec: "taken_loop adj [t] {} = {n. (t, n) \<in> (arcs adj)\<^sup>*}"
  using taken_branch.gain_start[where q = "[t]" and adj = adj]
  by (simp add: taken_branch.found_def taken_branch.hop_def arcs_def)

text \<open>The nodes of the taken branch lead to nothing else, so avoiding them on the way changes nothing.\<close>

lemma avoiding_closed:
  assumes "(u, n) \<in> R\<^sup>*" and "n \<notin> T" and "\<And>x y. x \<in> T \<Longrightarrow> (x, y) \<in> R \<Longrightarrow> y \<in> T"
  shows "u \<notin> T \<and> (u, n) \<in> {(x, y). (x, y) \<in> R \<and> y \<notin> T}\<^sup>*"
  using assms(1)
proof (induction rule: converse_rtrancl_induct)
  case (step x y)
  then have "x \<notin> T" using assms(3) by blast
  with step show ?case by (auto intro: converse_rtrancl_into_rtrancl)
qed (use assms(2) in simp)

lemma find_skipped_nodes_spec:
  "find_skipped_nodes untaken taken adj = {n. (untaken, n) \<in> (arcs adj)\<^sup>* \<and> (taken, n) \<notin> (arcs adj)\<^sup>*}"
proof -
  define T where "T = {n. (taken, n) \<in> (arcs adj)\<^sup>*}"
  define R where "R = {(x, y). (x, y) \<in> arcs adj \<and> y \<notin> T}"
  have hop: "worklist.hop (\<lambda>x. set (targets adj x)) (\<lambda>x. x \<in> T) = R"
    unfolding skipped_branch.hop_def R_def arcs_def by simp
  have "find_skipped_nodes untaken taken adj = {n. untaken \<notin> T \<and> (untaken, n) \<in> R\<^sup>*}"
    using skipped_branch.gain_start[where q = "[untaken]" and taken = T and adj = adj]
    unfolding find_skipped_nodes_def taken_loop_spec T_def[symmetric] skipped_branch.found_def hop by auto
  also have "\<dots> = {n. (untaken, n) \<in> (arcs adj)\<^sup>*} - T"
  proof -
    have "(untaken, n) \<in> (arcs adj)\<^sup>* \<and> n \<notin> T" if "untaken \<notin> T" "(untaken, n) \<in> R\<^sup>*" for n
      using that(2,1) by (induction rule: rtrancl_induct) (auto simp: R_def)
    moreover have "untaken \<notin> T \<and> (untaken, n) \<in> R\<^sup>*" if "(untaken, n) \<in> (arcs adj)\<^sup>*" "n \<notin> T" for n
      unfolding R_def using avoiding_closed[OF that] by (auto simp: T_def)
    ultimately show ?thesis by blast
  qed
  finally show ?thesis by (auto simp: T_def)
qed

section \<open>Cycle detection\<close>

datatype color = WHITE | GRAY | BLACK

text \<open>The stack has its top first. \<open>None\<close>: a gray node was met.\<close>

definition stack_left :: "adjacency_map \<Rightarrow> (ident \<times> nat) list \<Rightarrow> nat" where
  "stack_left adj stack = (\<Sum>(n, i) \<leftarrow> stack. Suc (length (targets adj n) - i))"

definition white_left :: "adjacency_map \<Rightarrow> (ident \<rightharpoonup> color) \<Rightarrow> nat" where
  "white_left adj color = card {n \<in> led_to adj. color n = Some WHITE}"

lemma white_left_less:
  assumes "color (targets adj n ! i) = Some WHITE" and "i < length (targets adj n)"
  shows "white_left adj (color(targets adj n ! i \<mapsto> GRAY)) < white_left adj color"
proof -
  have "targets adj n ! i \<in> led_to adj" using assms(2) targets_led_to[of adj n] nth_mem by blast
  with assms(1) show ?thesis unfolding white_left_def by (intro psubset_card_mono) auto
qed

lemma white_left_black: "white_left adj (color(n \<mapsto> BLACK)) \<le> white_left adj color"
  unfolding white_left_def by (intro card_mono) auto

function cycle_loop :: "adjacency_map \<Rightarrow> (ident \<times> nat) list \<Rightarrow> (ident \<rightharpoonup> color) \<Rightarrow> (ident \<rightharpoonup> color) option" where
  "cycle_loop adj [] color = Some color"
| "cycle_loop adj ((n, i) # stack) color =
     (if i < length (targets adj n) then
        (let neighbor = targets adj n ! i
         in case color neighbor of
              None \<Rightarrow> cycle_loop adj ((n, Suc i) # stack) color
            | Some GRAY \<Rightarrow> None
            | Some WHITE \<Rightarrow> cycle_loop adj ((neighbor, 0) # (n, Suc i) # stack) (color(neighbor \<mapsto> GRAY))
            | Some BLACK \<Rightarrow> cycle_loop adj ((n, Suc i) # stack) color)
      else cycle_loop adj stack (color(n \<mapsto> BLACK)))"
  by pat_completeness auto
termination
proof (relation "measures [\<lambda>(adj, stack, color). white_left adj color, \<lambda>(adj, stack, color). stack_left adj stack]",
    simp, goal_cases)
  case (4 adj n i stack color)
  then show ?case using white_left_black[of adj color n] by (auto simp: stack_left_def)
qed (auto simp: stack_left_def white_left_less)

fun cycle_from :: "adjacency_map \<Rightarrow> ident list \<Rightarrow> (ident \<rightharpoonup> color) \<Rightarrow> bool" where
  "cycle_from adj [] color = False"
| "cycle_from adj (s # starts) color =
     (if color s \<noteq> Some WHITE then cycle_from adj starts color
      else case cycle_loop adj [(s, 0)] (color(s \<mapsto> GRAY)) of
             None \<Rightarrow> True
           | Some color' \<Rightarrow> cycle_from adj starts color')"

text \<open>\<open>node_ids\<close> is a frozenset: the list is the order in which it is enumerated.\<close>

definition has_cycle :: "ident list \<Rightarrow> adjacency_map \<Rightarrow> bool" where
  "has_cycle node_ids adj = cycle_from adj node_ids (\<lambda>n. if n \<in> set node_ids then Some WHITE else None)"

subsection \<open>The check of the decomposition graph does the same\<close>

text \<open>
  Of the two colorings, the one of the decomposition graph keeps a visited set and a stack
  set and marks a node when it is looked at, this one when it is pushed.
\<close>

definition as_graph :: "ident list \<Rightarrow> adjacency_map \<Rightarrow> ident graph" where
  "as_graph ids adj = map (\<lambda>n. \<lparr>sd_id = n, sd_dependencies = targets adj n\<rparr>) ids"

definition colors :: "ident list \<Rightarrow> ident set \<Rightarrow> ident set \<Rightarrow> ident \<rightharpoonup> color" where
  "colors ids V S n =
     (if n \<notin> set ids then None else Some (if n \<in> S then GRAY else if n \<in> V then BLACK else WHITE))"

lemma subtask_ids_as_graph [simp]: "subtask_ids (as_graph ids adj) = ids"
  by (induction ids) (simp_all add: as_graph_def subtask_ids_def)

lemma as_graph_dependencies: "n \<in> set ids \<Longrightarrow> reverse_adjacency (as_graph ids adj) n = targets adj n"
proof -
  assume n: "n \<in> set ids"
  have "map_of (rev (map (\<lambda>t. (sd_id t, sd_dependencies t)) (as_graph ids adj))) n = Some (targets adj n)"
    using n by (simp add: as_graph_def rev_map comp_def map_of_map_restrict)
  then show ?thesis by (simp add: reverse_adjacency_def)
qed

lemma as_graph_outside: "n \<notin> set ids \<Longrightarrow> reverse_adjacency (as_graph ids adj) n = []"
  by (simp add: reverse_adjacency_def as_graph_def rev_map comp_def map_of_map_restrict)

lemma depends_as_graph: "depends (as_graph ids adj) = {(d, s). s \<in> set ids \<and> d \<in> set (targets adj s)}"
  by (auto simp: depends_def as_graph_dependencies) (metis as_graph_dependencies as_graph_outside empty_iff empty_set)+

lemma cycle_loop_step:
  assumes "i < length (targets adj n)"
  shows "color (targets adj n ! i) = Some GRAY \<Longrightarrow> cycle_loop adj ((n, i) # stack) color = None"
    and "color (targets adj n ! i) = Some WHITE \<Longrightarrow> cycle_loop adj ((n, i) # stack) color =
      cycle_loop adj ((targets adj n ! i, 0) # (n, Suc i) # stack) (color(targets adj n ! i \<mapsto> GRAY))"
    and "color (targets adj n ! i) = Some BLACK \<Longrightarrow>
      cycle_loop adj ((n, i) # stack) color = cycle_loop adj ((n, Suc i) # stack) color"
  using assms by (subst cycle_loop.simps, simp add: Let_def)+

lemma cycle_loop_pop:
  "\<not> i < length (targets adj n) \<Longrightarrow> cycle_loop adj ((n, i) # stack) color = cycle_loop adj stack (color(n \<mapsto> BLACK))"
  by simp

declare cycle_loop.simps(2) [simp del]

lemma colors_black: "n \<in> set ids \<Longrightarrow> n \<in> V \<Longrightarrow> (colors ids V S)(n \<mapsto> BLACK) = colors ids V (S - {n})"
  by (auto simp: colors_def fun_eq_iff)

lemma colors_gray: "n \<in> set ids \<Longrightarrow> (colors ids V S)(n \<mapsto> GRAY) = colors ids (insert n V) (insert n S)"
  by (auto simp: colors_def fun_eq_iff)

lemma dfs_seen_below:
  "dfs_inv g stack V S \<Longrightarrow> stack = [] \<or> (\<exists>n i st. stack = (n, Suc i) # st) \<Longrightarrow> dfs_seen stack X = X"
  by (auto simp: dfs_seen_top)

lemma cycle_loop_dfs:
  assumes "led_to adj \<subseteq> set ids" and "dfs_inv (as_graph ids adj) stack V S" and "fst ` set stack \<subseteq> set ids"
  shows "cycle_loop adj stack (colors ids (dfs_seen stack V) (dfs_seen stack S)) =
     (case dfs (as_graph ids adj) stack V S of Inl e \<Rightarrow> None | Inr (V', S') \<Rightarrow> Some (colors ids V' S'))"
  using assms(2,3)
proof (induction "as_graph ids adj" stack V S rule: dfs.induct)
  case (2 n i stack V S)
  let ?g = "as_graph ids adj" and ?V = "if i = 0 then insert n V else V" and ?S = "if i = 0 then insert n S else S"
  let ?deps = "targets adj n"
  have n: "n \<in> set ids" using "2.prems"(2) by simp
  have deps [simp]: "reverse_adjacency ?g n = ?deps" using n by (rule as_graph_dependencies)
  have m: "marked ?g n i stack ?V ?S" using "2.prems"(1) by (rule mark_top)
  then have nV: "n \<in> ?V" by (auto simp: marked_def)
  have seen: "dfs_seen ((n, i) # stack) V = ?V" "dfs_seen ((n, i) # stack) S = ?S" by (simp_all add: dfs_seen_top)
  show ?case
  proof (cases "i < length ?deps")
    case False
    have inv: "dfs_inv ?g stack ?V (?S - {n})" using pop_step[OF m] False by simp
    have below: "dfs_seen stack X = X" for X
      using "2.prems"(1) by (cases stack; cases "hd stack") (auto simp: dfs_inv_def dfs_seen_top)
    have "dfs ?g ((n, i) # stack) V S = dfs ?g stack ?V (?S - {n})" using False by (subst dfs.simps) (simp add: Let_def)
    moreover have "cycle_loop adj ((n, i) # stack) (colors ids ?V ?S) = cycle_loop adj stack (colors ids ?V (?S - {n}))"
      using cycle_loop_pop[OF False] colors_black[OF n nV, of ?S] by (simp only:)
    ultimately show ?thesis
      using "2.hyps"(3)[OF refl refl refl _ inv] False "2.prems"(2) unfolding seen below by simp
  next
    case True
    let ?dep = "?deps ! i"
    have dep: "?dep \<in> set ids" using True assms(1) targets_led_to[of adj n] nth_mem by blast
    consider (gray) "?dep \<in> ?S" | (white) "?dep \<notin> ?S" "?dep \<notin> ?V" | (black) "?dep \<notin> ?S" "\<not> ?dep \<notin> ?V" by blast
    then show ?thesis
    proof cases
      case gray
      have "dfs ?g ((n, i) # stack) V S = Inl (Cycle_Edge n ?dep)"
        using True gray by (subst dfs.simps) (simp add: Let_def)
      moreover have "colors ids ?V ?S ?dep = Some GRAY" using gray dep by (simp only: colors_def) simp
      ultimately show ?thesis using cycle_loop_step(1)[OF True, of _ stack] unfolding seen by simp
    next
      case white
      have inv: "dfs_inv ?g ((?dep, 0) # (n, Suc i) # stack) ?V ?S"
        using push_step[OF m] True white(2) by simp
      have d: "dfs ?g ((n, i) # stack) V S = dfs ?g ((?dep, 0) # (n, Suc i) # stack) ?V ?S"
        using True white by (subst dfs.simps) (simp only: Let_def if_True if_False simp_thms deps)
      have "colors ids ?V ?S ?dep = Some WHITE" using white dep by (simp only: colors_def) simp
      then have "cycle_loop adj ((n, i) # stack) (colors ids ?V ?S) =
          cycle_loop adj ((?dep, 0) # (n, Suc i) # stack) (colors ids (insert ?dep ?V) (insert ?dep ?S))"
        using cycle_loop_step(2)[OF True, of _ stack] colors_gray[OF dep, of ?V ?S] by (simp only:)
      with "2.hyps"(1)[OF refl refl _ _ refl _ _ inv] True white dep "2.prems"(2) show ?thesis
        unfolding seen d by (simp add: dfs_seen_top)
    next
      case black
      have inv: "dfs_inv ?g ((n, Suc i) # stack) ?V ?S"
        using skip_step[OF m] True black by simp
      have d: "dfs ?g ((n, i) # stack) V S = dfs ?g ((n, Suc i) # stack) ?V ?S"
        using True black by (subst dfs.simps) (simp only: Let_def if_True if_False simp_thms deps)
      have "colors ids ?V ?S ?dep = Some BLACK" using black dep by (simp only: colors_def) simp
      then have "cycle_loop adj ((n, i) # stack) (colors ids ?V ?S) = cycle_loop adj ((n, Suc i) # stack) (colors ids ?V ?S)"
        using cycle_loop_step(3)[OF True, of _ stack] by (simp only:)
      with "2.hyps"(2)[OF refl refl _ _ refl _ _ inv] True black "2.prems"(2) show ?thesis
        unfolding seen d by (simp add: dfs_seen_top)
    qed
  qed
qed simp

lemma cycle_from_dfs_all:
  assumes "led_to adj \<subseteq> set ids" and "black_ok (as_graph ids adj) V" and "set starts \<subseteq> set ids"
  shows "cycle_from adj starts (colors ids V {}) =
     (case dfs_all (as_graph ids adj) starts V {} of Inl e \<Rightarrow> True | Inr u \<Rightarrow> False)"
  using assms(2,3)
proof (induction starts arbitrary: V)
  case (Cons s starts)
  let ?g = "as_graph ids adj"
  have s: "s \<in> set ids" using Cons.prems by simp
  show ?case
  proof (cases "s \<in> V")
    case True
    with s Cons show ?thesis by (simp add: colors_def)
  next
    case False
    have inv: "dfs_inv ?g [(s, 0)] V {}" using False Cons.prems by (simp add: dfs_inv_def)
    have loop: "cycle_loop adj [(s, 0)] ((colors ids V {})(s \<mapsto> GRAY)) =
        (case dfs ?g [(s, 0)] V {} of Inl e \<Rightarrow> None | Inr (V', S') \<Rightarrow> Some (colors ids V' S'))"
      using cycle_loop_dfs[OF assms(1) inv] s colors_gray[OF s, of V "{}"] by (simp add: dfs_seen_top)
    have white: "colors ids V {} s = Some WHITE" using s False by (simp add: colors_def)
    show ?thesis
    proof (cases "dfs ?g [(s, 0)] V {}")
      case (Inl e)
      with white loop False show ?thesis by simp
    next
      case (Inr p)
      obtain V' S' where p: "p = (V', S')" by fastforce
      with dfs_spec[OF inv] Inr have "S' = {}" "black_ok ?g V'" by auto
      with Cons.IH[of V'] Cons.prems(2) white loop False Inr p show ?thesis by simp
    qed
  qed
qed simp

lemma has_cycle_spec:
  assumes "led_to adj \<subseteq> set ids"
  shows "has_cycle ids adj \<longleftrightarrow> \<not> acyclic (arcs_in ids adj)"
proof -
  let ?g = "as_graph ids adj"
  have "(\<lambda>n. if n \<in> set ids then Some WHITE else None) = colors ids {} {}" by (auto simp: colors_def)
  then have "has_cycle ids adj \<longleftrightarrow> (case check_cycles ?g of Inl e \<Rightarrow> True | Inr u \<Rightarrow> False)"
    using cycle_from_dfs_all[OF assms, of "{}" ids] by (simp add: has_cycle_def check_cycles_def black_ok_def)
  also have "\<dots> \<longleftrightarrow> \<not> acyclic (depends ?g)"
    using check_cycles_spec[of ?g] by (cases "check_cycles ?g") auto
  also have "depends ?g = (arcs_in ids adj)\<inverse>"
    using assms targets_led_to[of adj] unfolding depends_as_graph arcs_in_def by auto
  finally show ?thesis by simp
qed

section \<open>Validation for execution\<close>

datatype validation_code =
    UNREACHABLE_NODE | END_NOT_REACHABLE | CONDITIONAL_MISSING_TRUE | CONDITIONAL_MISSING_FALSE
  | CONDITIONAL_EXTRA_OUTGOING | SPLIT_TOO_FEW_BRANCHES | TASK_MISSING_TITLE | CYCLE_DETECTED
  | SUBWORKFLOW_REF_MISSING | SUBWORKFLOW_VERSION_UNPINNED | SUBWORKFLOW_NOT_FOUND | SUBWORKFLOW_INPUT_MISSING
  | SUBWORKFLOW_INPUT_UNKNOWN | SUBWORKFLOW_INPUT_TYPE_MISMATCH | SUBWORKFLOW_OUTPUT_MISSING
  | SUBWORKFLOW_OUTPUT_UNKNOWN | SUBWORKFLOW_OUTPUT_TYPE_MISMATCH | SUBWORKFLOW_CYCLE_DETECTED
  | VERIFICATION_MISSING_PASS | VERIFICATION_MISSING_FAIL | VERIFICATION_MISSING_REFER
  | VERIFICATION_DUPLICATE_EDGE | VERIFICATION_EXTRA_OUTGOING | VERIFICATION_EDGE_OUTSIDE | VERIFICATION_MISSING_CONFIG

text \<open>A \<open>WorkflowValidationError\<close>: its code and the node it names.\<close>

type_synonym wf_validation_error = "validation_code \<times> ident option"

definition MIN_SPLIT_BRANCHES :: nat where "MIN_SPLIT_BRANCHES = 2"

definition CONDITIONAL_EDGE_TYPES :: "workflow_edge_type list" where
  "CONDITIONAL_EDGE_TYPES = [ET_CONDITIONAL_TRUE, ET_CONDITIONAL_FALSE]"

definition VERIFICATION_EDGE_TYPES :: "workflow_edge_type list" where
  "VERIFICATION_EDGE_TYPES = [ET_VERIFICATION_PASS, ET_VERIFICATION_FAIL, ET_VERIFICATION_REFER]"

text \<open>\<open>next(n for n in nodes if n.type == t)\<close>: a definition has one START and one END.\<close>

definition node_of_type :: "workflow_node_type \<Rightarrow> workflow_definition \<Rightarrow> wf_node" where
  "node_of_type t d = hd (filter (\<lambda>n. wn_type n = t) (wd_nodes d))"

definition check_reachability :: "workflow_definition \<Rightarrow> adjacency_map \<Rightarrow> wf_validation_error list" where
  "check_reachability d adj =
     (let reachable = reachable_from (wn_id (node_of_type NT_START d)) adj;
          end_id = wn_id (node_of_type NT_END d)
      in map (\<lambda>n. (UNREACHABLE_NODE, Some (wn_id n)))
           (filter (\<lambda>n. wn_id n \<notin> reachable \<and> wn_type n \<noteq> NT_END) (wd_nodes d)) @
         (if end_id \<notin> reachable then [(END_NOT_REACHABLE, Some end_id)] else []))"

text \<open>The checks of one node, run over the nodes of a type.\<close>

definition for_nodes :: "(wf_node \<Rightarrow> bool) \<Rightarrow> (wf_node \<Rightarrow> validation_code list) \<Rightarrow> workflow_definition \<Rightarrow> wf_validation_error list" where
  "for_nodes P check d = concat (map (\<lambda>n. map (\<lambda>c. (c, Some (wn_id n))) (check n)) (filter P (wd_nodes d)))"

type_synonym outgoing_types = "(ident \<times> workflow_edge_type list) list"

definition check_conditional_edges :: "workflow_definition \<Rightarrow> outgoing_types \<Rightarrow> wf_validation_error list" where
  "check_conditional_edges d outgoing =
     for_nodes (\<lambda>n. wn_type n = NT_CONDITIONAL) (\<lambda>n.
       let out_types = targets outgoing (wn_id n)
       in (if ET_CONDITIONAL_TRUE \<notin> set out_types then [CONDITIONAL_MISSING_TRUE] else []) @
          (if ET_CONDITIONAL_FALSE \<notin> set out_types then [CONDITIONAL_MISSING_FALSE] else []) @
          (if filter (\<lambda>t. t \<notin> set CONDITIONAL_EDGE_TYPES) out_types \<noteq> [] then [CONDITIONAL_EXTRA_OUTGOING] else [])) d"

definition check_parallel_splits :: "workflow_definition \<Rightarrow> outgoing_types \<Rightarrow> wf_validation_error list" where
  "check_parallel_splits d outgoing =
     for_nodes (\<lambda>n. wn_type n = NT_PARALLEL_SPLIT) (\<lambda>n.
       if count_list (targets outgoing (wn_id n)) ET_PARALLEL_BRANCH < MIN_SPLIT_BRANCHES
       then [SPLIT_TOO_FEW_BRANCHES] else []) d"

definition check_verification_edges :: "workflow_definition \<Rightarrow> outgoing_types \<Rightarrow> wf_validation_error list" where
  "check_verification_edges d outgoing =
     for_nodes (\<lambda>n. wn_type n = NT_VERIFICATION) (\<lambda>n.
       let out_types = targets outgoing (wn_id n)
       in (if ET_VERIFICATION_PASS \<notin> set out_types then [VERIFICATION_MISSING_PASS] else []) @
          (if ET_VERIFICATION_FAIL \<notin> set out_types then [VERIFICATION_MISSING_FAIL] else []) @
          (if ET_VERIFICATION_REFER \<notin> set out_types then [VERIFICATION_MISSING_REFER] else []) @
          map (\<lambda>t. VERIFICATION_DUPLICATE_EDGE) (filter (\<lambda>t. 1 < count_list out_types t) VERIFICATION_EDGE_TYPES) @
          (if filter (\<lambda>t. t \<notin> set VERIFICATION_EDGE_TYPES) out_types \<noteq> [] then [VERIFICATION_EXTRA_OUTGOING] else [])) d"

definition check_verification_edge_scope :: "workflow_definition \<Rightarrow> outgoing_types \<Rightarrow> wf_validation_error list" where
  "check_verification_edge_scope d outgoing =
     for_nodes (\<lambda>n. wn_type n \<noteq> NT_VERIFICATION) (\<lambda>n.
       if filter (\<lambda>t. t \<in> set VERIFICATION_EDGE_TYPES) (targets outgoing (wn_id n)) \<noteq> []
       then [VERIFICATION_EDGE_OUTSIDE] else []) d"

definition config_get :: "wf_node \<Rightarrow> string \<Rightarrow> py_value" where
  "config_get n k = (case wn_config n k of None \<Rightarrow> V_None | Some v \<Rightarrow> v)"

fun blank_text :: "py_value \<Rightarrow> bool" where
  "blank_text (V_Str s) = (py_strip s = [])"
| "blank_text v = False"

definition check_task_configs :: "workflow_definition \<Rightarrow> wf_validation_error list" where
  "check_task_configs d =
     for_nodes (\<lambda>n. wn_type n = NT_TASK) (\<lambda>n.
       let title = config_get n ''title''
       in if \<not> truthy title \<or> blank_text title then [TASK_MISSING_TITLE] else []) d"

definition check_verification_configs :: "workflow_definition \<Rightarrow> wf_validation_error list" where
  "check_verification_configs d =
     for_nodes (\<lambda>n. wn_type n = NT_VERIFICATION) (\<lambda>n.
       let rubric_name = config_get n ''rubric_name''; evaluator = config_get n ''evaluator_agent_id''
       in (if \<not> is_str rubric_name \<or> blank_text rubric_name then [VERIFICATION_MISSING_CONFIG] else []) @
          (if \<not> is_str evaluator \<or> blank_text evaluator then [VERIFICATION_MISSING_CONFIG] else [])) d"

text \<open>\<open>order\<close> enumerates the frozenset of the node ids for the cycle check.\<close>

definition validate_workflow :: "ident list \<Rightarrow> workflow_definition \<Rightarrow> wf_validation_error list" where
  "validate_workflow order d =
     (let adj = group_edges ed_source ed_target (wd_edges d);
          outgoing = group_edges ed_source ed_type (wd_edges d)
      in check_reachability d adj @ check_conditional_edges d outgoing @ check_parallel_splits d outgoing @
         check_task_configs d @ check_verification_edges d outgoing @ check_verification_edge_scope d outgoing @
         check_verification_configs d @
         (if has_cycle order adj then [(CYCLE_DETECTED, None)] else []))"

subsection \<open>What a valid workflow is\<close>

definition edge_rel :: "workflow_definition \<Rightarrow> (ident \<times> ident) set" where
  "edge_rel d = {(ed_source e, ed_target e) |e. e \<in> set (wd_edges d)}"

text \<open>The types of the edges leaving a node, with their multiplicities.\<close>

definition leaving :: "workflow_definition \<Rightarrow> ident \<Rightarrow> workflow_edge_type multiset" where
  "leaving d n = mset (map ed_type (filter (\<lambda>e. ed_source e = n) (wd_edges d)))"

definition named :: "wf_node \<Rightarrow> string \<Rightarrow> bool" where
  "named n k \<longleftrightarrow> (\<exists>s. wn_config n k = Some (V_Str s) \<and> py_strip s \<noteq> [])"

definition node_ready :: "workflow_definition \<Rightarrow> wf_node \<Rightarrow> bool" where
  "node_ready d n \<longleftrightarrow>
     (wn_type n = NT_CONDITIONAL \<longrightarrow> set_mset (leaving d (wn_id n)) = {ET_CONDITIONAL_TRUE, ET_CONDITIONAL_FALSE}) \<and>
     (wn_type n = NT_PARALLEL_SPLIT \<longrightarrow> 2 \<le> count (leaving d (wn_id n)) ET_PARALLEL_BRANCH) \<and>
     (wn_type n = NT_TASK \<longrightarrow> (\<exists>v. wn_config n ''title'' = Some v \<and> truthy v \<and> (is_str v \<longrightarrow> named n ''title''))) \<and>
     (if wn_type n = NT_VERIFICATION
      then leaving d (wn_id n) = {#ET_VERIFICATION_PASS, ET_VERIFICATION_FAIL, ET_VERIFICATION_REFER#} \<and>
           named n ''rubric_name'' \<and> named n ''evaluator_agent_id''
      else set_mset (leaving d (wn_id n)) \<inter> {ET_VERIFICATION_PASS, ET_VERIFICATION_FAIL, ET_VERIFICATION_REFER} = {})"

definition ready_to_run :: "workflow_definition \<Rightarrow> bool" where
  "ready_to_run d \<longleftrightarrow>
     (\<exists>s \<in> set (wd_nodes d). wn_type s = NT_START \<and> (\<forall>n \<in> set (wd_nodes d). (wn_id s, wn_id n) \<in> (edge_rel d)\<^sup>*)) \<and>
     acyclic (edge_rel d) \<and> (\<forall>n \<in> set (wd_nodes d). node_ready d n)"

subsection \<open>What construction guarantees\<close>

definition wf_definition :: "workflow_definition \<Rightarrow> bool" where
  "wf_definition d \<longleftrightarrow>
     distinct (map wn_id (wd_nodes d)) \<and>
     (\<forall>e \<in> set (wd_edges d). ed_source e \<noteq> ed_target e \<and> ed_source e \<in> wn_id ` set (wd_nodes d) \<and>
        ed_target e \<in> wn_id ` set (wd_nodes d)) \<and>
     (\<exists>s. filter (\<lambda>n. wn_type n = NT_START) (wd_nodes d) = [s]) \<and>
     (\<exists>e. filter (\<lambda>n. wn_type n = NT_END) (wd_nodes d) = [e])"

lemma validate_edges_in_Inr:
  "validate_edges_in ids es = Inr () \<longleftrightarrow>
   (\<forall>e \<in> set es. ed_source e \<noteq> ed_target e \<and> ed_source e \<in> ids \<and> ed_target e \<in> ids)"
  by (induction es) auto

lemma construct_definition_Inr:
  assumes "construct_definition is_iso d = Inr ()"
  shows "wf_definition d"
proof -
  have len: "length xs = length (remdups xs) \<longleftrightarrow> distinct xs" for xs :: "string list"
    by (metis distinct_remdups length_remdups_eq remdups_id_iff_distinct)
  have one: "length xs = Suc 0 \<longleftrightarrow> (\<exists>x. xs = [x])" for xs :: "wf_node list"
    by (auto simp: length_Suc_conv)
  show "wf_definition d"
    using assms
    by (auto simp: construct_definition_def and_then_Inr wf_definition_def validate_unique_ids_def validate_edge_references_def
        validate_edges_in_Inr validate_terminal_nodes_def Let_def len one split: if_splits)
qed

lemma arcs_group: "arcs (group_edges ed_source ed_target (wd_edges d)) = edge_rel d"
  by (auto simp: arcs_def edge_rel_def)

lemma node_of_type_facts:
  assumes "filter (\<lambda>n. wn_type n = t) (wd_nodes d) = [s]"
  shows "node_of_type t d = s" and "s \<in> set (wd_nodes d)" and "wn_type s = t"
    and "n \<in> set (wd_nodes d) \<Longrightarrow> wn_type n = t \<Longrightarrow> n = s"
proof -
  have s: "{n \<in> set (wd_nodes d). wn_type n = t} = {s}" using assms by (metis list.set(1) list.simps(15) set_filter)
  then show "s \<in> set (wd_nodes d)" "wn_type s = t" by auto
  show "n \<in> set (wd_nodes d) \<Longrightarrow> wn_type n = t \<Longrightarrow> n = s" using s by auto
qed (use assms in \<open>simp add: node_of_type_def\<close>)

lemma led_to_group:
  assumes "wf_definition d"
  shows "led_to (group_edges ed_source ed_target (wd_edges d)) \<subseteq> wn_id ` set (wd_nodes d)"
    and "fst ` set (group_edges ed_source ed_target (wd_edges d)) \<subseteq> wn_id ` set (wd_nodes d)"
proof -
  let ?adj = "group_edges ed_source ed_target (wd_edges d)"
  have entry: "ts = map ed_target (filter (\<lambda>e. ed_source e = n) (wd_edges d))" if "(n, ts) \<in> set ?adj" for n ts
    using that map_of_is_SomeI[of ?adj n ts] targets_group[of ed_source ed_target "wd_edges d" n] by (simp add: targets_def)
  show "led_to ?adj \<subseteq> wn_id ` set (wd_nodes d)"
    using entry assms by (fastforce simp: led_to_def wf_definition_def)
  have "fst ` set (fold (\<lambda>e. append_to (ed_source e) (ed_target e)) es adj) = fst ` set adj \<union> ed_source ` set es" for es adj
  proof (induction es arbitrary: adj)
    case (Cons e es)
    have "fst ` set (append_to k v adj) = insert k (fst ` set adj)" for k v and adj :: adjacency_map
      using arg_cong[OF keys_append_to[of k v adj], of set] by (auto split: if_splits)
    with Cons show ?case by auto
  qed simp
  from this[of "wd_edges d" "[]"] have "fst ` set ?adj = ed_source ` set (wd_edges d)"
    unfolding group_edges_def by simp
  then show "fst ` set ?adj \<subseteq> wn_id ` set (wd_nodes d)"
    by (simp only:) (use assms in \<open>auto simp: wf_definition_def\<close>)
qed

lemma wf_adjacency_group:
  "wf_definition d \<Longrightarrow> wf_adjacency (map wn_id (wd_nodes d)) (group_edges ed_source ed_target (wd_edges d))"
  using led_to_group(2)[of d] by (simp add: wf_adjacency_def) (simp add: wf_definition_def)

lemma arcs_in_group:
  assumes "wf_definition d" and "set ids = wn_id ` set (wd_nodes d)"
  shows "arcs_in ids (group_edges ed_source ed_target (wd_edges d)) = edge_rel d"
proof -
  have "arcs_in ids (group_edges ed_source ed_target (wd_edges d)) =
      {(m, n) \<in> edge_rel d. m \<in> set ids \<and> n \<in> set ids}"
    unfolding arcs_group[symmetric] by (auto simp: arcs_in_def arcs_def)
  also have "\<dots> = edge_rel d" using assms by (auto simp: edge_rel_def wf_definition_def)
  finally show ?thesis .
qed

lemma has_cycle_definition:
  assumes "wf_definition d" and "set order = wn_id ` set (wd_nodes d)"
  shows "has_cycle order (group_edges ed_source ed_target (wd_edges d)) \<longleftrightarrow> \<not> acyclic (edge_rel d)"
  using has_cycle_spec[of "group_edges ed_source ed_target (wd_edges d)" order] led_to_group(1)[OF assms(1)] assms
  by (simp add: arcs_in_group)

subsection \<open>Exactness\<close>

lemma for_nodes_Nil: "for_nodes P check d = [] \<longleftrightarrow> (\<forall>n \<in> set (wd_nodes d). P n \<longrightarrow> check n = [])"
  by (auto simp: for_nodes_def)

lemma leaving_targets: "leaving d n = mset (targets (group_edges ed_source ed_type (wd_edges d)) n)"
  by (simp add: leaving_def)

lemma named_iff: "named n k \<longleftrightarrow> is_str (config_get n k) \<and> \<not> blank_text (config_get n k)"
proof (cases "wn_config n k")
  case (Some v)
  then show ?thesis by (cases v) (simp_all add: named_def config_get_def)
qed (simp add: named_def config_get_def)

lemma title_iff:
  "(\<exists>v. wn_config n k = Some v \<and> truthy v \<and> (is_str v \<longrightarrow> named n k)) \<longleftrightarrow>
   truthy (config_get n k) \<and> \<not> blank_text (config_get n k)"
proof (cases "wn_config n k")
  case (Some v)
  then show ?thesis by (cases v) (auto simp: named_iff config_get_def)
qed (simp add: config_get_def)

lemma exactly_three:
  fixes M :: "workflow_edge_type multiset"
  shows "M = {#ET_VERIFICATION_PASS, ET_VERIFICATION_FAIL, ET_VERIFICATION_REFER#} \<longleftrightarrow>
    set_mset M \<subseteq> set VERIFICATION_EDGE_TYPES \<and> (\<forall>t \<in> set VERIFICATION_EDGE_TYPES. t \<in># M \<and> count M t \<le> 1)"
proof
  assume r: "set_mset M \<subseteq> set VERIFICATION_EDGE_TYPES \<and> (\<forall>t \<in> set VERIFICATION_EDGE_TYPES. t \<in># M \<and> count M t \<le> 1)"
  show "M = {#ET_VERIFICATION_PASS, ET_VERIFICATION_FAIL, ET_VERIFICATION_REFER#}"
  proof (rule multiset_eqI)
    fix t
    have "count M t = 1" if "t \<in> set VERIFICATION_EDGE_TYPES"
      using r that by (metis count_greater_eq_one_iff le_antisym)
    moreover have "count M t = 0" if "t \<notin> set VERIFICATION_EDGE_TYPES"
      using r that by (meson count_eq_zero_iff subsetD)
    ultimately show "count M t = count {#ET_VERIFICATION_PASS, ET_VERIFICATION_FAIL, ET_VERIFICATION_REFER#} t"
      by (auto simp: VERIFICATION_EDGE_TYPES_def)
  qed
qed (auto simp: VERIFICATION_EDGE_TYPES_def)

lemma verification_list_Nil:
  "(if ET_VERIFICATION_PASS \<notin> set xs then [VERIFICATION_MISSING_PASS] else []) @
   (if ET_VERIFICATION_FAIL \<notin> set xs then [VERIFICATION_MISSING_FAIL] else []) @
   (if ET_VERIFICATION_REFER \<notin> set xs then [VERIFICATION_MISSING_REFER] else []) @
   map (\<lambda>t. VERIFICATION_DUPLICATE_EDGE) (filter (\<lambda>t. 1 < count_list xs t) VERIFICATION_EDGE_TYPES) @
   (if filter (\<lambda>t. t \<notin> set VERIFICATION_EDGE_TYPES) xs \<noteq> [] then [VERIFICATION_EXTRA_OUTGOING] else []) = [] \<longleftrightarrow>
   set xs \<subseteq> set VERIFICATION_EDGE_TYPES \<and> (\<forall>t \<in> set VERIFICATION_EDGE_TYPES. t \<in> set xs \<and> count_list xs t \<le> 1)"
proof -
  have "map (\<lambda>t. VERIFICATION_DUPLICATE_EDGE) (filter (\<lambda>t. 1 < count_list xs t) VERIFICATION_EDGE_TYPES) = [] \<longleftrightarrow>
      (\<forall>t \<in> set VERIFICATION_EDGE_TYPES. count_list xs t \<le> 1)"
    by (simp only: map_is_Nil_conv filter_empty_conv not_less)
  moreover have "filter (\<lambda>t. t \<notin> set VERIFICATION_EDGE_TYPES) xs = [] \<longleftrightarrow> set xs \<subseteq> set VERIFICATION_EDGE_TYPES"
    by (auto simp: filter_empty_conv)
  moreover have "(\<forall>t \<in> set VERIFICATION_EDGE_TYPES. t \<in> set xs) \<longleftrightarrow>
      ET_VERIFICATION_PASS \<in> set xs \<and> ET_VERIFICATION_FAIL \<in> set xs \<and> ET_VERIFICATION_REFER \<in> set xs"
    by (simp add: VERIFICATION_EDGE_TYPES_def)
  ultimately show ?thesis by (simp only: append_is_Nil_conv split: if_split) blast
qed

lemma node_checks:
  fixes d outgoing
  defines "outgoing \<equiv> group_edges ed_source ed_type (wd_edges d)"
  shows "check_conditional_edges d outgoing = [] \<and> check_parallel_splits d outgoing = [] \<and> check_task_configs d = [] \<and>
      check_verification_edges d outgoing = [] \<and> check_verification_edge_scope d outgoing = [] \<and>
      check_verification_configs d = [] \<longleftrightarrow> (\<forall>n \<in> set (wd_nodes d). node_ready d n)"
proof -
  have out: "set_mset (leaving d n) = set (targets outgoing n)" "count (leaving d n) t = count_list (targets outgoing n) t" for n t
    by (simp_all add: leaving_targets outgoing_def count_mset del: targets_group)
  have cond: "check_conditional_edges d outgoing = [] \<longleftrightarrow> (\<forall>n \<in> set (wd_nodes d). wn_type n = NT_CONDITIONAL \<longrightarrow>
      set_mset (leaving d (wn_id n)) = {ET_CONDITIONAL_TRUE, ET_CONDITIONAL_FALSE})"
    unfolding out check_conditional_edges_def for_nodes_Nil
    by (auto simp: Let_def CONDITIONAL_EDGE_TYPES_def filter_empty_conv)
  have split: "check_parallel_splits d outgoing = [] \<longleftrightarrow> (\<forall>n \<in> set (wd_nodes d). wn_type n = NT_PARALLEL_SPLIT \<longrightarrow>
      2 \<le> count (leaving d (wn_id n)) ET_PARALLEL_BRANCH)"
    unfolding out check_parallel_splits_def for_nodes_Nil by (auto simp: MIN_SPLIT_BRANCHES_def not_less split: if_splits)
  have task: "check_task_configs d = [] \<longleftrightarrow> (\<forall>n \<in> set (wd_nodes d). wn_type n = NT_TASK \<longrightarrow>
      (\<exists>v. wn_config n ''title'' = Some v \<and> truthy v \<and> (is_str v \<longrightarrow> named n ''title'')))"
    unfolding title_iff check_task_configs_def for_nodes_Nil by (auto simp: Let_def)
  have ver: "check_verification_edges d outgoing = [] \<longleftrightarrow> (\<forall>n \<in> set (wd_nodes d). wn_type n = NT_VERIFICATION \<longrightarrow>
      leaving d (wn_id n) = {#ET_VERIFICATION_PASS, ET_VERIFICATION_FAIL, ET_VERIFICATION_REFER#})"
    unfolding exactly_three out check_verification_edges_def for_nodes_Nil Let_def verification_list_Nil by blast
  have scope: "check_verification_edge_scope d outgoing = [] \<longleftrightarrow> (\<forall>n \<in> set (wd_nodes d). wn_type n \<noteq> NT_VERIFICATION \<longrightarrow>
      set_mset (leaving d (wn_id n)) \<inter> {ET_VERIFICATION_PASS, ET_VERIFICATION_FAIL, ET_VERIFICATION_REFER} = {})"
    unfolding out check_verification_edge_scope_def for_nodes_Nil
    by (auto simp: filter_empty_conv VERIFICATION_EDGE_TYPES_def)
  have conf: "check_verification_configs d = [] \<longleftrightarrow> (\<forall>n \<in> set (wd_nodes d). wn_type n = NT_VERIFICATION \<longrightarrow>
      named n ''rubric_name'' \<and> named n ''evaluator_agent_id'')"
    unfolding named_iff check_verification_configs_def for_nodes_Nil by (auto simp: Let_def)
  have all: "(\<forall>n \<in> A. P n) \<and> (\<forall>n \<in> A. Q n) \<longleftrightarrow> (\<forall>n \<in> A. P n \<and> Q n)" for A and P Q :: "wf_node \<Rightarrow> bool" by blast
  show ?thesis unfolding cond split task ver scope conf node_ready_def all
    by (rule ball_cong[OF refl]) (simp only: if_bool_eq_conj, blast)
qed

lemma check_reachability_Nil:
  assumes "wf_definition d"
  shows "check_reachability d (group_edges ed_source ed_target (wd_edges d)) = [] \<longleftrightarrow>
    (\<exists>s \<in> set (wd_nodes d). wn_type s = NT_START \<and> (\<forall>n \<in> set (wd_nodes d). (wn_id s, wn_id n) \<in> (edge_rel d)\<^sup>*))"
proof -
  obtain s e where s: "filter (\<lambda>n. wn_type n = NT_START) (wd_nodes d) = [s]"
    and e: "filter (\<lambda>n. wn_type n = NT_END) (wd_nodes d) = [e]"
    using assms by (auto simp: wf_definition_def)
  note s = node_of_type_facts[OF s] and e = node_of_type_facts[OF e]
  have "check_reachability d (group_edges ed_source ed_target (wd_edges d)) = [] \<longleftrightarrow>
      (\<forall>n \<in> set (wd_nodes d). (wn_id s, wn_id n) \<in> (edge_rel d)\<^sup>* \<or> wn_type n = NT_END) \<and>
      (wn_id s, wn_id e) \<in> (edge_rel d)\<^sup>*"
    by (auto simp: check_reachability_def Let_def reachable_from_spec arcs_group s(1) e(1) filter_empty_conv)
  also have "\<dots> \<longleftrightarrow> (\<forall>n \<in> set (wd_nodes d). (wn_id s, wn_id n) \<in> (edge_rel d)\<^sup>*)"
    using e by blast
  finally show ?thesis using s(2-4) by blast
qed

lemma validate_workflow_spec:
  assumes "wf_definition d" and "set order = wn_id ` set (wd_nodes d)"
  shows "validate_workflow order d = [] \<longleftrightarrow> ready_to_run d"
  using check_reachability_Nil[OF assms(1)] node_checks[of d] has_cycle_definition[OF assms]
  unfolding validate_workflow_def ready_to_run_def by (simp add: Let_def)

section \<open>The claims\<close>

text \<open>A graph with a condition, a parallel pair and two tasks on the branch that is taken.\<close>

definition demo_node :: "ident \<Rightarrow> workflow_node_type \<Rightarrow> (string \<times> py_value) list \<Rightarrow> wf_node" where
  "demo_node i t config = \<lparr>wn_id = i, wn_type = t, wn_label = i, wn_config = map_of config\<rparr>"

definition demo_edge :: "ident \<Rightarrow> ident \<Rightarrow> ident \<Rightarrow> workflow_edge_type \<Rightarrow> wf_edge" where
  "demo_edge i s t k = \<lparr>ed_id = i, ed_source = s, ed_target = t, ed_type = k\<rparr>"

definition demo_workflow :: workflow_definition where
  "demo_workflow =
     \<lparr>wd_id = ''w1'', wd_version = ''1.0.0'', wd_inputs = [], wd_outputs = [], wd_is_subworkflow = False,
      wd_nodes =
        [demo_node ''start'' NT_START [], demo_node ''check'' NT_CONDITIONAL [(''condition_expression'', V_Str ''env == dev'')],
         demo_node ''fork'' NT_PARALLEL_SPLIT [], demo_node ''build'' NT_TASK [(''title'', V_Str ''Build'')],
         demo_node ''test'' NT_TASK [(''title'', V_Str ''Test'')], demo_node ''join'' NT_PARALLEL_JOIN [],
         demo_node ''report'' NT_TASK [(''title'', V_Str ''Report'')], demo_node ''end'' NT_END []],
      wd_edges =
        [demo_edge ''e1'' ''start'' ''check'' ET_SEQUENTIAL, demo_edge ''e2'' ''check'' ''fork'' ET_CONDITIONAL_TRUE,
         demo_edge ''e3'' ''check'' ''report'' ET_CONDITIONAL_FALSE, demo_edge ''e4'' ''fork'' ''build'' ET_PARALLEL_BRANCH,
         demo_edge ''e5'' ''fork'' ''test'' ET_PARALLEL_BRANCH, demo_edge ''e6'' ''build'' ''join'' ET_SEQUENTIAL,
         demo_edge ''e7'' ''test'' ''join'' ET_SEQUENTIAL, demo_edge ''e8'' ''join'' ''end'' ET_SEQUENTIAL,
         demo_edge ''e9'' ''report'' ''end'' ET_SEQUENTIAL],
      wd_revision = 1\<rparr>"

text \<open>
  C16. Validation for execution is exact. For every definition that can be constructed, and
  in whatever order the cycle check meets the nodes, no error is reported exactly when the
  graph can run: every node is reachable from the one START node, there is no cycle, a
  conditional node has TRUE and FALSE edges and no others, a split at least two parallel
  branches, a task a title, a verification node exactly one edge for each verdict with its
  rubric and evaluator named, and no other node a verdict edge.
\<close>

theorem validate_workflow_exact:
  assumes "construct_definition is_iso d = Inr ()" and "set order = wn_id ` set (wd_nodes d)"
  shows "validate_workflow order d = [] \<longleftrightarrow> ready_to_run d"
  using construct_definition_Inr[OF assms(1)] assms(2) by (rule validate_workflow_spec)

theorem validate_workflow_exact_witness: "ready_to_run demo_workflow"
proof -
  let ?order = "[''join'', ''start'', ''test'', ''check'', ''fork'', ''build'', ''report'', ''end'']"
  have "construct_definition (\<lambda>_. False) demo_workflow = Inr ()" by code_simp
  moreover have "set ?order = wn_id ` set (wd_nodes demo_workflow)" by code_simp
  moreover have "validate_workflow ?order demo_workflow = []" by code_simp
  ultimately show ?thesis using validate_workflow_exact by blast
qed

text \<open>
  C17. The depth-first cycle check and the sort that runs the workflow decide the same
  question, although one colors nodes and the other counts arcs: the sort of a constructed
  definition raises exactly when the check finds a cycle, and otherwise returns every node
  once, with the source of every edge before its target.
\<close>

theorem cycle_check_agrees_with_sort:
  assumes "construct_definition is_iso d = Inr ()" and "set order = wn_id ` set (wd_nodes d)"
  shows "case wf_topological_sort (map wn_id (wd_nodes d)) (fst (build_adjacency_maps d)) of
      Inl e \<Rightarrow> has_cycle order (fst (build_adjacency_maps d))
    | Inr result \<Rightarrow> \<not> has_cycle order (fst (build_adjacency_maps d)) \<and>
        mset result = mset (map wn_id (wd_nodes d)) \<and> forward_order (edge_rel d) result"
proof -
  have wf: "wf_definition d" using construct_definition_Inr[OF assms(1)] .
  then have "arcs_in (map wn_id (wd_nodes d)) (fst (build_adjacency_maps d)) = edge_rel d"
    by (simp add: build_adjacency_maps_def arcs_in_group)
  with wf_topological_sort_spec[OF wf_adjacency_group[OF wf]] has_cycle_definition[OF wf assms(2)] show ?thesis
    by (simp add: build_adjacency_maps_def split: sum.splits)
qed

theorem cycle_check_agrees_with_sort_witness:
  "wf_topological_sort (map wn_id (wd_nodes demo_workflow)) (fst (build_adjacency_maps demo_workflow)) =
     Inr [''start'', ''check'', ''fork'', ''report'', ''build'', ''test'', ''join'', ''end''] \<and>
   \<not> has_cycle (map wn_id (wd_nodes demo_workflow)) (fst (build_adjacency_maps demo_workflow))"
proof -
  have "construct_definition (\<lambda>_. False) demo_workflow = Inr ()" by code_simp
  moreover have "wf_topological_sort (map wn_id (wd_nodes demo_workflow)) (fst (build_adjacency_maps demo_workflow)) =
      Inr [''start'', ''check'', ''fork'', ''report'', ''build'', ''test'', ''join'', ''end'']" by code_simp
  ultimately show ?thesis
    using cycle_check_agrees_with_sort[of "\<lambda>_. False" demo_workflow "map wn_id (wd_nodes demo_workflow)"] by auto
qed

end
