(* ===== verification/Workflow_Frames.thy ===== *)
theory Workflow_Frames
  imports Workflow_Graph Engine_Loop "HOL-Library.AList"
begin

text \<open>
  What the activation of a workflow works with: the execution row and its nodes
  (\<open>engine/workflow/execution_models.py\<close>), the typed bindings of a subworkflow call
  (\<open>subworkflow_binding.py\<close>), the walk state (\<open>execution_walk_state.py\<close>), and the
  searches for the tasks before and after a node (\<open>execution_activation_helpers.py\<close>).
\<close>

section \<open>Execution rows\<close>

datatype workflow_execution_status = XS_PENDING | XS_RUNNING | XS_COMPLETED | XS_FAILED | XS_CANCELLED

datatype node_execution_status =
    NS_PENDING | NS_SKIPPED | NS_TASK_CREATED | NS_TASK_COMPLETED | NS_TASK_FAILED | NS_COMPLETED
  | NS_SUBWORKFLOW_COMPLETED

record node_execution =
  ne_node_id :: ident
  ne_node_type :: workflow_node_type
  ne_status :: node_execution_status
  ne_task_id :: "ident option"
  ne_skipped_reason :: "string option"

definition TASK_LINKED_STATUSES :: "node_execution_status list" where
  "TASK_LINKED_STATUSES = [NS_TASK_CREATED, NS_TASK_COMPLETED, NS_TASK_FAILED]"

definition node_execution_ok :: "node_execution \<Rightarrow> bool" where
  "node_execution_ok ne \<longleftrightarrow>
     not_blank (ne_node_id ne) \<and> opt_all not_blank (ne_task_id ne) \<and> opt_all not_blank (ne_skipped_reason ne) \<and>
     (if ne_status ne \<in> set TASK_LINKED_STATUSES
      then ne_node_type ne = NT_TASK \<and> ne_task_id ne \<noteq> None else ne_task_id ne = None) \<and>
     (if ne_status ne = NS_SKIPPED then ne_skipped_reason ne \<noteq> None else ne_skipped_reason ne = None)"

record workflow_execution =
  xe_id :: ident
  xe_definition_id :: ident
  xe_definition_revision :: int
  xe_status :: workflow_execution_status
  xe_node_executions :: "node_execution list"
  xe_activated_by :: string
  xe_project :: string
  xe_created_at :: int
  xe_updated_at :: int
  xe_completed_at :: "int option"
  xe_error :: "string option"
  xe_version :: int

definition TERMINAL_EXECUTION_STATUSES :: "workflow_execution_status list" where
  "TERMINAL_EXECUTION_STATUSES = [XS_COMPLETED, XS_FAILED, XS_CANCELLED]"

definition execution_ok :: "workflow_execution \<Rightarrow> bool" where
  "execution_ok x \<longleftrightarrow>
     not_blank (xe_definition_id x) \<and> 1 \<le> xe_definition_revision x \<and> not_blank (xe_activated_by x) \<and>
     not_blank (xe_project x) \<and> opt_all not_blank (xe_error x) \<and> 1 \<le> xe_version x \<and>
     list_all node_execution_ok (xe_node_executions x) \<and>
     (if xe_status x \<in> set TERMINAL_EXECUTION_STATUSES then xe_completed_at x \<noteq> None else xe_completed_at x = None) \<and>
     (if xe_status x = XS_FAILED then xe_error x \<noteq> None else xe_error x = None) \<and>
     distinct (map ne_node_id (xe_node_executions x))"

section \<open>Frames\<close>

datatype execution_frame = Frame
  (fr_workflow_id: ident) (fr_workflow_version: string) (fr_variables: variables)
  (fr_parent: "execution_frame option") (fr_depth: int)

text \<open>\<open>_validate_depth_matches_parent\<close> and the declared bounds.\<close>

fun frame_ok :: "execution_frame \<Rightarrow> bool" where
  "frame_ok (Frame i v vars parent depth) =
     (not_blank i \<and> not_blank v \<and> 0 \<le> depth \<and>
      (case parent of None \<Rightarrow> depth = 0 | Some p \<Rightarrow> frame_ok p \<and> depth = fr_depth p + 1))"

definition root_frame :: "workflow_definition \<Rightarrow> variables \<Rightarrow> execution_frame" where
  "root_frame d ctx = Frame (wd_id d) (wd_version d) ctx None 0"

definition child_frame :: "execution_frame \<Rightarrow> workflow_definition \<Rightarrow> variables \<Rightarrow> execution_frame" where
  "child_frame frame d inputs = Frame (wd_id d) (wd_version d) inputs (Some frame) (fr_depth frame + 1)"

section \<open>Bindings of a subworkflow call\<close>

datatype io_error =
    Unknown_Bindings "string list"
  | Unresolved_Binding string
  | No_Child_Scope
  | Unsupported_Prefix string
  | Io_Type_Mismatch string workflow_value_type
  | Missing_Binding string

datatype lookup_error = Key_Missing | Io io_error

fun lookup_parts :: "py_value \<Rightarrow> string list \<Rightarrow> (lookup_error, py_value) outcome" where
  "lookup_parts current [] = Inr current"
| "lookup_parts (V_Map text entries) (part # parts) =
     (case map_of entries part of None \<Rightarrow> Inl Key_Missing | Some v \<Rightarrow> lookup_parts v parts)"
| "lookup_parts current (part # parts) = Inl Key_Missing"

text \<open>The variables of a frame are the outermost mapping.\<close>

definition lookup_path :: "variables \<Rightarrow> string \<Rightarrow> (lookup_error, py_value) outcome" where
  "lookup_path source path =
     (if path = [] then Inl Key_Missing
      else case split_at_char CHR ''.'' path of
             [] \<Rightarrow> Inl Key_Missing
           | part # parts \<Rightarrow>
               (case source part of None \<Rightarrow> Inl Key_Missing | Some v \<Rightarrow> lookup_parts v parts))"

definition PARENT_PREFIX :: string where "PARENT_PREFIX = ''@parent.''"
definition CHILD_PREFIX :: string where "CHILD_PREFIX = ''@child.''"

definition starts_with :: "string \<Rightarrow> string \<Rightarrow> bool" where
  "starts_with p s \<longleftrightarrow> take (length p) s = p"

fun resolve_expression :: "py_value \<Rightarrow> variables \<Rightarrow> variables option \<Rightarrow> (lookup_error, py_value) outcome" where
  "resolve_expression (V_Str s) parent_vars child_vars =
     (if starts_with PARENT_PREFIX s then lookup_path parent_vars (drop (length PARENT_PREFIX) s)
      else if starts_with CHILD_PREFIX s then
        (case child_vars of
           None \<Rightarrow> Inl (Io No_Child_Scope)
         | Some vars \<Rightarrow> lookup_path vars (drop (length CHILD_PREFIX) s))
      else if starts_with ''@'' s then Inl (Io (Unsupported_Prefix s))
      else Inr (V_Str s))"
| "resolve_expression v parent_vars child_vars = Inr v"

definition value_matches :: "(string \<Rightarrow> bool) \<Rightarrow> py_value \<Rightarrow> workflow_value_type \<Rightarrow> bool" where
  "value_matches is_iso v vt =
     (case vt of
        VT_STRING \<Rightarrow> is_str v
      | VT_INTEGER \<Rightarrow> is_int v
      | VT_FLOAT \<Rightarrow> is_int v \<or> is_kind KIND_FLOAT v
      | VT_BOOLEAN \<Rightarrow> is_bool v
      | VT_DATETIME \<Rightarrow> (case v of V_Str s \<Rightarrow> is_iso s | _ \<Rightarrow> is_kind KIND_DATETIME v)
      | VT_TASK_REF \<Rightarrow> is_str v \<and> \<not> blank_text v
      | VT_AGENT_REF \<Rightarrow> is_str v \<and> \<not> blank_text v
      | VT_JSON \<Rightarrow> True)"

definition validate_value_type ::
  "(string \<Rightarrow> bool) \<Rightarrow> string \<Rightarrow> py_value \<Rightarrow> workflow_value_type \<Rightarrow> (io_error, unit) outcome" where
  "validate_value_type is_iso name v vt = (if value_matches is_iso v vt then Inr () else Inl (Io_Type_Mismatch name vt))"

text \<open>The loop over the declarations, the same for inputs and outputs but for the resolver.\<close>

fun bind_declarations ::
  "(string \<Rightarrow> bool) \<Rightarrow> (py_value \<Rightarrow> (lookup_error, py_value) outcome) \<Rightarrow> (string \<times> py_value) list \<Rightarrow>
   io_declaration list \<Rightarrow> variables \<Rightarrow> (io_error, variables) outcome" where
  "bind_declarations is_iso eval_in bindings [] resolved = Inr resolved"
| "bind_declarations is_iso eval_in bindings (decl # decls) resolved =
     (case map_of bindings (io_name decl) of
        Some expression \<Rightarrow>
          (case eval_in expression of
             Inl Key_Missing \<Rightarrow> Inl (Unresolved_Binding (io_name decl))
           | Inl (Io e) \<Rightarrow> Inl e
           | Inr v \<Rightarrow>
               and_then (validate_value_type is_iso (io_name decl) v (io_type decl)) (\<lambda>_.
                 bind_declarations is_iso eval_in bindings decls (resolved(io_name decl \<mapsto> v))))
      | None \<Rightarrow>
          if io_required decl then Inl (Missing_Binding (io_name decl))
          else if io_default decl \<noteq> V_None then
            and_then (validate_value_type is_iso (io_name decl) (io_default decl) (io_type decl)) (\<lambda>_.
              bind_declarations is_iso eval_in bindings decls (resolved(io_name decl \<mapsto> io_default decl)))
          else bind_declarations is_iso eval_in bindings decls resolved)"

definition unknown_names :: "(string \<times> py_value) list \<Rightarrow> io_declaration list \<Rightarrow> string list" where
  "unknown_names bindings decls = sort (filter (\<lambda>k. k \<notin> io_name ` set decls) (map fst bindings))"

definition resolve_input_bindings ::
  "(string \<Rightarrow> bool) \<Rightarrow> (string \<times> py_value) list \<Rightarrow> variables \<Rightarrow> io_declaration list \<Rightarrow> (io_error, variables) outcome" where
  "resolve_input_bindings is_iso bindings parent_vars decls =
     (if unknown_names bindings decls \<noteq> [] then Inl (Unknown_Bindings (unknown_names bindings decls))
      else bind_declarations is_iso (\<lambda>e. resolve_expression e parent_vars None) bindings decls Map.empty)"

definition project_output_bindings ::
  "(string \<Rightarrow> bool) \<Rightarrow> (string \<times> py_value) list \<Rightarrow> variables \<Rightarrow> io_declaration list \<Rightarrow> variables \<Rightarrow>
   (io_error, variables) outcome" where
  "project_output_bindings is_iso bindings child_vars decls parent_vars =
     (if unknown_names bindings decls \<noteq> [] then Inl (Unknown_Bindings (unknown_names bindings decls))
      else bind_declarations is_iso (\<lambda>e. resolve_expression e parent_vars (Some child_vars)) bindings decls Map.empty)"

section \<open>The walk state\<close>

definition QUALIFIED_ID_SEPARATOR :: string where "QUALIFIED_ID_SEPARATOR = ''::''"

definition qualify_id :: "string \<Rightarrow> ident \<Rightarrow> ident" where
  "qualify_id pre node_id = (if pre = [] then node_id else pre @ QUALIFIED_ID_SEPARATOR @ node_id)"

datatype task_entry = One_Task ident | Several_Tasks "ident list"

fun flatten_task_ids :: "task_entry \<Rightarrow> ident list" where
  "flatten_task_ids (One_Task i) = [i]"
| "flatten_task_ids (Several_Tasks is) = is"

text \<open>With the accumulators go the engine and how often it was asked.\<close>

record walk_state =
  wk_node_exec :: "ident \<rightharpoonup> node_execution"
  wk_task_ids :: "(ident \<times> task_entry) list"
  wk_ordered_keys :: "ident list"
  wk_engine :: engine
  wk_calls :: nat

definition node_map :: "workflow_definition \<Rightarrow> ident \<rightharpoonup> wf_node" where
  "node_map d = map_of (rev (map (\<lambda>n. (wn_id n, n)) (wd_nodes d)))"

definition node_types :: "workflow_definition \<Rightarrow> ident \<rightharpoonup> workflow_node_type" where
  "node_types d i = map_option wn_type (node_map d i)"

text \<open>\<open>None\<close>: a successor is not a node.\<close>

fun terminal_task_ids ::
  "adjacency_map \<Rightarrow> (ident \<rightharpoonup> workflow_node_type) \<Rightarrow> string \<Rightarrow> (ident \<rightharpoonup> task_entry) \<Rightarrow> wf_node list \<Rightarrow> ident list option" where
  "terminal_task_ids adj types pre ids [] = Some []"
| "terminal_task_ids adj types pre ids (n # ns) =
     (if wn_type n \<notin> {NT_TASK, NT_SUBWORKFLOW} then terminal_task_ids adj types pre ids ns
      else case find (\<lambda>s. types s \<noteq> Some NT_END) (targets adj (wn_id n)) of
             Some s \<Rightarrow> if types s = None then None else terminal_task_ids adj types pre ids ns
           | None \<Rightarrow> map_option (\<lambda>rest.
               (case ids (qualify_id pre (wn_id n)) of
                  None \<Rightarrow> []
                | Some (One_Task i) \<Rightarrow> [i]
                | Some (Several_Tasks is) \<Rightarrow> if wn_type n = NT_TASK then [] else is) @ rest)
               (terminal_task_ids adj types pre ids ns))"

definition collect_terminal_task_ids :: "workflow_definition \<Rightarrow> string \<Rightarrow> walk_state \<Rightarrow> ident list option" where
  "collect_terminal_task_ids d pre st =
     terminal_task_ids (fst (build_adjacency_maps d)) (node_types d) pre (map_of (wk_task_ids st)) (wd_nodes d)"

section \<open>The tasks after and before a node\<close>

definition CONTROL_NODE_TYPES :: "workflow_node_type list" where
  "CONTROL_NODE_TYPES =
     [NT_START, NT_END, NT_AGENT_ASSIGNMENT, NT_CONDITIONAL, NT_PARALLEL_SPLIT, NT_PARALLEL_JOIN, NT_VERIFICATION]"

text \<open>\<open>None\<close>: a node id that the definition does not have.\<close>

function downstream_loop ::
  "adjacency_map \<Rightarrow> (ident \<rightharpoonup> workflow_node_type) \<Rightarrow> ident list \<Rightarrow> ident set \<Rightarrow> ident list \<Rightarrow> ident list option" where
  "downstream_loop adj types [] visited result = Some result"
| "downstream_loop adj types (x # q) visited result =
     (if x \<in> visited then downstream_loop adj types q visited result
      else case types x of
             None \<Rightarrow> None
           | Some t \<Rightarrow>
               if t = NT_TASK then downstream_loop adj types q (insert x visited) (result @ [x])
               else if t = NT_AGENT_ASSIGNMENT then downstream_loop adj types q (insert x visited) result
               else if t \<in> set CONTROL_NODE_TYPES
               then downstream_loop adj types (q @ targets adj x) (insert x visited) result
               else downstream_loop adj types q (insert x visited) result)"
  by pat_completeness auto
termination
  by (relation "measures [\<lambda>(adj, types, q, V, r). search_left adj q V, \<lambda>(adj, types, q, V, r). length q]")
    (use search_left_skip in \<open>auto intro!: search_left_visit search_left_visit[where extra = "[]", simplified]\<close>)

definition find_downstream_task_ids ::
  "ident \<Rightarrow> adjacency_map \<Rightarrow> (ident \<rightharpoonup> workflow_node_type) \<Rightarrow> ident list option" where
  "find_downstream_task_ids nid adj types = downstream_loop adj types (targets adj nid) {} []"

function upstream_loop ::
  "adjacency_map \<Rightarrow> (ident \<rightharpoonup> workflow_node_type) \<Rightarrow> (ident \<rightharpoonup> task_entry) \<Rightarrow> ident set \<Rightarrow>
   ident list \<Rightarrow> ident set \<Rightarrow> ident list \<Rightarrow> ident list option" where
  "upstream_loop radj types ids skipped [] visited result = Some result"
| "upstream_loop radj types ids skipped (x # q) visited result =
     (if x \<in> visited \<or> x \<in> skipped then upstream_loop radj types ids skipped q visited result
      else case types x of
             None \<Rightarrow> None
           | Some t \<Rightarrow>
               if t \<in> {NT_TASK, NT_SUBWORKFLOW} then
                 (case ids x of
                    Some entry \<Rightarrow>
                      upstream_loop radj types ids skipped q (insert x visited) (result @ flatten_task_ids entry)
                  | None \<Rightarrow> upstream_loop radj types ids skipped (q @ targets radj x) (insert x visited) result)
               else if t \<in> set CONTROL_NODE_TYPES
               then upstream_loop radj types ids skipped (q @ targets radj x) (insert x visited) result
               else upstream_loop radj types ids skipped q (insert x visited) result)"
  by pat_completeness auto
termination
  by (relation "measures [\<lambda>(radj, types, ids, skipped, q, V, r). search_left radj q V,
      \<lambda>(radj, types, ids, skipped, q, V, r). length q]")
    (use search_left_skip in \<open>auto intro!: search_left_visit search_left_visit[where extra = "[]", simplified]\<close>)

definition find_upstream_task_ids ::
  "ident \<Rightarrow> adjacency_map \<Rightarrow> (ident \<rightharpoonup> workflow_node_type) \<Rightarrow> (ident \<rightharpoonup> task_entry) \<Rightarrow> ident set \<Rightarrow> ident list option" where
  "find_upstream_task_ids nid radj types ids skipped =
     map_option (\<lambda>result. sort (remdups result)) (upstream_loop radj types ids skipped (targets radj nid) {} [])"

subsection \<open>What they find\<close>

declare downstream_loop.simps(2) [simp del] upstream_loop.simps(2) [simp del]

lemma control_types: "t \<in> set CONTROL_NODE_TYPES \<longleftrightarrow> t \<notin> {NT_TASK, NT_SUBWORKFLOW}"
  by (cases t) (simp_all add: CONTROL_NODE_TYPES_def)

lemma downstream_loop_append:
  "downstream_loop adj types q V (r @ s) = map_option ((@) r) (downstream_loop adj types q V s)"
  by (induction adj types q V s rule: downstream_loop.induct)
    (auto simp: downstream_loop.simps(2) split: option.splits)

lemma upstream_loop_append:
  "upstream_loop radj types ids skipped q V (r @ s) = map_option ((@) r) (upstream_loop radj types ids skipped q V s)"
  by (induction radj types ids skipped q V s rule: upstream_loop.induct)
    (auto simp: upstream_loop.simps(2) split: option.splits)

definition passes_on :: "(ident \<rightharpoonup> workflow_node_type) \<Rightarrow> ident \<Rightarrow> bool" where
  "passes_on types x \<longleftrightarrow> (\<exists>t. types x = Some t \<and> t \<noteq> NT_TASK \<and> t \<noteq> NT_AGENT_ASSIGNMENT \<and> t \<in> set CONTROL_NODE_TYPES)"

definition produces :: "(ident \<rightharpoonup> workflow_node_type) \<Rightarrow> (ident \<rightharpoonup> task_entry) \<Rightarrow> ident \<Rightarrow> bool" where
  "produces types ids x \<longleftrightarrow> types x \<in> {Some NT_TASK, Some NT_SUBWORKFLOW} \<and> ids x \<noteq> None"

interpretation downstream: worklist "\<lambda>q V. map_option set (downstream_loop adj types q V [])"
    "\<lambda>x. if passes_on types x then set (targets adj x) else {}" "\<lambda>_. False" "\<lambda>x. types x = None"
    "\<lambda>x. if types x = Some NT_TASK then {x} else {}" "led_to adj" for adj types
proof unfold_locales
  fix x :: ident and q V assume x: "x \<notin> V" "types x \<noteq> None"
  let ?extra = "if passes_on types x then targets adj x else []"
  have "map_option set (downstream_loop adj types (x # q) V []) =
      map_option ((\<union>) (if types x = Some NT_TASK then {x} else {}))
        (map_option set (downstream_loop adj types (q @ ?extra) (insert x V) []))"
    using x downstream_loop_append[of adj types q "insert x V" "[x]" "[]"]
    by (auto simp: downstream_loop.simps(2) passes_on_def option.map_comp comp_def)
  then show "\<exists>extra. set extra \<subseteq> (if passes_on types x then set (targets adj x) else {}) \<and>
      (if passes_on types x then set (targets adj x) else {}) \<subseteq> set extra \<union> insert x V \<and>
      map_option set (downstream_loop adj types (x # q) V []) =
      map_option ((\<union>) (if types x = Some NT_TASK then {x} else {}))
        (map_option set (downstream_loop adj types (q @ extra) (insert x V) []))"
    by (intro exI[of _ ?extra]) auto
qed (auto simp: targets_led_to downstream_loop.simps(2))

interpretation upstream: worklist "\<lambda>q V. map_option set (upstream_loop radj types ids skipped q V [])"
    "\<lambda>x. if produces types ids x then {} else set (targets radj x)" "\<lambda>x. x \<in> skipped" "\<lambda>x. types x = None"
    "\<lambda>x. if produces types ids x then set (flatten_task_ids (the (ids x))) else {}" "led_to radj" for radj types ids skipped
proof unfold_locales
  fix x :: ident and q V assume x: "x \<notin> V" "x \<notin> skipped" "types x \<noteq> None"
  let ?extra = "if produces types ids x then [] else targets radj x"
  have "map_option set (upstream_loop radj types ids skipped (x # q) V []) =
      map_option ((\<union>) (if produces types ids x then set (flatten_task_ids (the (ids x))) else {}))
        (map_option set (upstream_loop radj types ids skipped (q @ ?extra) (insert x V) []))"
    using x upstream_loop_append[of radj types ids skipped q "insert x V" "flatten_task_ids (the (ids x))" "[]"]
    by (auto simp: upstream_loop.simps(2) produces_def option.map_comp comp_def control_types split: option.splits)
  then show "\<exists>extra. set extra \<subseteq> (if produces types ids x then {} else set (targets radj x)) \<and>
      (if produces types ids x then {} else set (targets radj x)) \<subseteq> set extra \<union> insert x V \<and>
      map_option set (upstream_loop radj types ids skipped (x # q) V []) =
      map_option ((\<union>) (if produces types ids x then set (flatten_task_ids (the (ids x))) else {}))
        (map_option set (upstream_loop radj types ids skipped (q @ extra) (insert x V) []))"
    by (intro exI[of _ ?extra]) auto
qed (auto simp: targets_led_to upstream_loop.simps(2))

text \<open>
  The nodes that the upstream search of a node settles on: those with tasks, reached
  backwards over nodes that are neither skipped nor have tasks of their own.
\<close>

inductive upstream_of :: "workflow_definition \<Rightarrow> (ident \<rightharpoonup> task_entry) \<Rightarrow> ident set \<Rightarrow> ident \<Rightarrow> ident \<Rightarrow> bool"
  for d ids skipped nid where
  direct: "(p, nid) \<in> edge_rel d \<Longrightarrow> p \<notin> skipped \<Longrightarrow> upstream_of d ids skipped nid p"
| through: "upstream_of d ids skipped nid p \<Longrightarrow> \<not> produces (node_types d) ids p \<Longrightarrow> (p', p) \<in> edge_rel d \<Longrightarrow>
    p' \<notin> skipped \<Longrightarrow> upstream_of d ids skipped nid p'"

definition upstream_tasks :: "workflow_definition \<Rightarrow> (ident \<rightharpoonup> task_entry) \<Rightarrow> ident set \<Rightarrow> ident \<Rightarrow> ident set" where
  "upstream_tasks d ids skipped nid =
     {i. \<exists>p entry. upstream_of d ids skipped nid p \<and> node_types d p \<in> {Some NT_TASK, Some NT_SUBWORKFLOW} \<and>
        ids p = Some entry \<and> i \<in> set (flatten_task_ids entry)}"

lemma node_map_facts:
  assumes "wf_definition d"
  shows "node_map d i = Some n \<longleftrightarrow> n \<in> set (wd_nodes d) \<and> wn_id n = i"
    and "node_types d i \<noteq> None \<longleftrightarrow> i \<in> wn_id ` set (wd_nodes d)"
proof -
  have "map fst (rev (map (\<lambda>n. (wn_id n, n)) ns)) = rev (map wn_id ns)" for ns by (simp add: rev_map comp_def)
  from this[of "wd_nodes d"] have "distinct (map fst (rev (map (\<lambda>n. (wn_id n, n)) (wd_nodes d))))"
    using assms by (simp only: distinct_rev) (simp add: wf_definition_def)
  then show some: "node_map d i = Some n \<longleftrightarrow> n \<in> set (wd_nodes d) \<and> wn_id n = i" for n
    unfolding node_map_def by (subst map_of_eq_Some_iff) auto
  then show "node_types d i \<noteq> None \<longleftrightarrow> i \<in> wn_id ` set (wd_nodes d)"
    by (metis (no_types, lifting) image_iff node_types_def not_None_eq option.map_disc_iff)
qed

lemma find_upstream_spec:
  assumes "wf_definition d"
  shows "find_upstream_task_ids nid (group_edges ed_target ed_source (wd_edges d)) (node_types d) ids skipped =
    Some (sorted_list_of_set (upstream_tasks d ids skipped nid)) \<and> finite (upstream_tasks d ids skipped nid)"
proof -
  define radj where "radj = group_edges ed_target ed_source (wd_edges d)"
  have src: "m \<in> set (targets radj n) \<longleftrightarrow> (m, n) \<in> edge_rel d" for m n
    by (auto simp: radj_def edge_rel_def)
  let ?hop = "worklist.hop (\<lambda>x. if produces (node_types d) ids x then {} else set (targets radj x)) (\<lambda>x. x \<in> skipped)"
  let ?found = "upstream.found (node_types d) ids radj skipped (targets radj nid)"
  have hop: "(x, y) \<in> ?hop \<longleftrightarrow> \<not> produces (node_types d) ids x \<and> (y, x) \<in> edge_rel d \<and> y \<notin> skipped" for x y
    unfolding upstream.hop_def by (simp add: src)
  have found: "y \<in> ?found \<longleftrightarrow> upstream_of d ids skipped nid y" for y
  proof
    assume "y \<in> ?found"
    then obtain x where x: "(x, nid) \<in> edge_rel d" "x \<notin> skipped" "(x, y) \<in> ?hop\<^sup>*"
      unfolding upstream.found_def by (auto simp: src)
    from x(3) show "upstream_of d ids skipped nid y"
      by (induction rule: rtrancl_induct) (use x(1,2) in \<open>auto simp: hop intro: upstream_of.intros\<close>)
  next
    assume "upstream_of d ids skipped nid y"
    then show "y \<in> ?found"
    proof (induction rule: upstream_of.induct)
      case (direct p)
      then show ?case unfolding upstream.found_def by (auto simp: src)
    next
      case (through p p')
      then have "(p, p') \<in> ?hop" by (simp add: hop)
      with through(5) show ?case unfolding upstream.found_def by (auto intro: rtrancl_into_rtrancl)
    qed
  qed
  have typed: "node_types d y \<noteq> None" if "y \<in> ?found" for y
  proof -
    from that have "upstream_of d ids skipped nid y" by (simp only: found)
    then obtain z where "(y, z) \<in> edge_rel d" by (auto elim: upstream_of.cases)
    then show ?thesis using node_map_facts(2)[OF assms] assms by (auto simp: edge_rel_def wf_definition_def)
  qed
  then obtain r where r: "upstream_loop radj (node_types d) ids skipped (targets radj nid) {} [] = Some r"
    and set_r: "set r = (\<Union>x \<in> ?found. if produces (node_types d) ids x then set (flatten_task_ids (the (ids x))) else {})"
    using upstream.gain_start[where q = "targets radj nid" and types = "node_types d" and ids = ids and radj = radj and skipped = skipped]
    by auto
  have "set r = upstream_tasks d ids skipped nid"
  proof -
    have "set r = (\<Union>x \<in> Collect (upstream_of d ids skipped nid).
        if produces (node_types d) ids x then set (flatten_task_ids (the (ids x))) else {})"
      unfolding set_r by (rule SUP_cong) (use found in blast)+
    then show ?thesis by (auto simp: upstream_tasks_def produces_def split: if_splits)
  qed
  then show ?thesis
    using r sorted_list_of_set_sort_remdups[of r] finite_set[of r]
    by (simp add: find_upstream_task_ids_def radj_def[symmetric])
qed

end
