(* ===== verification/Workflow_Activation.thy ===== *)
theory Workflow_Activation
  imports Workflow_Frames Task_Engine_Properties
begin

text \<open>
  Turning a workflow into tasks: the node handlers
  (\<open>engine/workflow/execution_activation_helpers.py\<close>, \<open>execution_node_dispatch.py\<close>), the
  walk of a graph and of the graphs it calls, and the activation itself
  (\<open>execution_service.py\<close>).

  A handler that raises leaves what it did to the engine, so a step returns its outcome
  and the walk state. The calls to the task engine are numbered; the environment says for
  each what the engine meets: the generated ids, a refusal to take the call, and what other
  writers had applied before it. Log records, spans and metrics are not modelled.
\<close>

section \<open>Creating a task\<close>

datatype create_failure =
    Create_Malformed | Not_Submitted submit_error | Mutation_Refused "task_error_code option" | No_Task_Returned

record service_call =
  sc_request_id :: string
  sc_refused :: "submit_error option"
  sc_others :: "(call_env \<times> task_mutation) list"
  sc_env :: call_env

definition create_task ::
  "(string \<Rightarrow> bool) \<Rightarrow> service_call \<Rightarrow> create_task_data \<Rightarrow> string \<Rightarrow> engine \<Rightarrow> (create_failure, task) outcome \<times> engine" where
  "create_task is_iso call data requested_by e =
     (case construct_mutation (Create_Task \<lparr>cm_request_id = sc_request_id call, cm_requested_by = requested_by,
             cm_task_data = data\<rparr>) of
        Inl _ \<Rightarrow> (Inl Create_Malformed, e)
      | Inr m \<Rightarrow>
          (case sc_refused call of
             Some r \<Rightarrow> (Inl (Not_Submitted r), e)
           | None \<Rightarrow>
               (case dispatch is_iso (sc_env call) m (run_mutations is_iso (sc_others call) e) of
                  (r, e') \<Rightarrow>
                    let res = answer m r
                    in if \<not> mr_success res then (Inl (Mutation_Refused (mr_error_code res)), e')
                       else case mr_task res of None \<Rightarrow> (Inl No_Task_Returned, e') | Some t \<Rightarrow> (Inr t, e'))))"

section \<open>Node handlers\<close>

datatype walk_failure =
    Missing_Node ident
  | Graph_Cycle
  | Condition_Failed ident condition_error
  | Bad_Task_Config ident string
  | Bad_Task_Data ident
  | Task_Not_Created ident create_failure
  | No_Registry ident
  | Bad_Subworkflow_Config ident string
  | Depth_Exceeded int int
  | Subworkflow_Not_Found string string
  | Binding_Failed io_error

record walk_env =
  wv_is_iso :: "string \<Rightarrow> bool"
  wv_calls :: "nat \<Rightarrow> service_call"
  wv_registry :: "(string \<times> string \<rightharpoonup> workflow_definition) option"
  wv_project :: string
  wv_activated_by :: string
  wv_max_depth :: int

text \<open>What one frame keeps while its graph is walked.\<close>

record frame_locals =
  fl_task_ids :: "ident \<rightharpoonup> task_entry"
  fl_skipped :: "ident set"
  fl_pending :: "ident \<rightharpoonup> string"
  fl_vars :: variables

type_synonym typed_outgoing = "(ident \<times> (ident \<times> workflow_edge_type) list) list"

definition completed_node :: "ident \<Rightarrow> workflow_node_type \<Rightarrow> node_execution" where
  "completed_node i t =
     \<lparr>ne_node_id = i, ne_node_type = t, ne_status = NS_COMPLETED, ne_task_id = None, ne_skipped_reason = None\<rparr>"

text \<open>The loop over the outgoing edges: a later edge of the same type wins.\<close>

definition edge_target :: "(ident \<times> workflow_edge_type) list \<Rightarrow> workflow_edge_type \<Rightarrow> ident option" where
  "edge_target out t = fold (\<lambda>(m, k) acc. if k = t then Some m else acc) out None"

subsection \<open>Conditions and verdicts\<close>

definition process_conditional_node ::
  "wf_node \<Rightarrow> typed_outgoing \<Rightarrow> adjacency_map \<Rightarrow> variables \<Rightarrow> ident set \<Rightarrow>
   (walk_failure, node_execution \<times> ident set) outcome" where
  "process_conditional_node n outgoing adj vars skipped =
     (let expr = (case wn_config n ''condition_expression'' of None \<Rightarrow> ''false'' | Some v \<Rightarrow> py_str v)
      in case evaluate_condition expr vars of
           Inl e \<Rightarrow> Inl (Condition_Failed (wn_id n) e)
         | Inr result \<Rightarrow>
             let true_target = edge_target (targets outgoing (wn_id n)) ET_CONDITIONAL_TRUE;
                 false_target = edge_target (targets outgoing (wn_id n)) ET_CONDITIONAL_FALSE;
                 (taken, untaken) = (if result then (true_target, false_target) else (false_target, true_target))
             in Inr (completed_node (wn_id n) (wn_type n),
                     case (taken, untaken) of
                       (Some t, Some u) \<Rightarrow> skipped \<union> find_skipped_nodes u t adj
                     | _ \<Rightarrow> skipped))"

datatype verification_verdict = VERDICT_PASS | VERDICT_FAIL | VERDICT_REFER

fun verdict_edge :: "verification_verdict \<Rightarrow> workflow_edge_type" where
  "verdict_edge VERDICT_PASS = ET_VERIFICATION_PASS"
| "verdict_edge VERDICT_FAIL = ET_VERIFICATION_FAIL"
| "verdict_edge VERDICT_REFER = ET_VERIFICATION_REFER"

definition parse_verdict :: "string \<Rightarrow> verification_verdict" where
  "parse_verdict s =
     (if s = ''pass'' then VERDICT_PASS else if s = ''fail'' then VERDICT_FAIL else VERDICT_REFER)"

definition process_verification_node ::
  "wf_node \<Rightarrow> typed_outgoing \<Rightarrow> adjacency_map \<Rightarrow> ident set \<Rightarrow> verification_verdict \<Rightarrow> node_execution \<times> ident set" where
  "process_verification_node n outgoing adj skipped verdict =
     (let target = (\<lambda>v. edge_target (targets outgoing (wn_id n)) (verdict_edge v));
          untaken = List.map_filter target (filter (\<lambda>v. v \<noteq> verdict) [VERDICT_PASS, VERDICT_FAIL, VERDICT_REFER])
      in (completed_node (wn_id n) (wn_type n),
          case target verdict of
            None \<Rightarrow> skipped
          | Some t \<Rightarrow> fold (\<lambda>u sk. sk \<union> find_skipped_nodes u t adj) untaken skipped))"

definition handle_verification ::
  "wf_node \<Rightarrow> typed_outgoing \<Rightarrow> adjacency_map \<Rightarrow> ident set \<Rightarrow> node_execution \<times> ident set" where
  "handle_verification n outgoing adj skipped =
     (let verdict_str = (case wn_config n ''_verdict_override'' of None \<Rightarrow> ''refer'' | Some v \<Rightarrow> py_str v)
      in process_verification_node n outgoing adj skipped (parse_verdict verdict_str))"

subsection \<open>Assignments and tasks\<close>

definition handle_agent_assignment ::
  "wf_node \<Rightarrow> adjacency_map \<Rightarrow> (ident \<rightharpoonup> workflow_node_type) \<Rightarrow> (ident \<rightharpoonup> string) \<Rightarrow>
   (walk_failure, ident \<rightharpoonup> string) outcome" where
  "handle_agent_assignment n adj types assigned =
     (let agent_name = config_get n ''agent_name''
      in if \<not> truthy agent_name then Inr assigned
         else case find_downstream_task_ids (wn_id n) adj types of
                None \<Rightarrow> Inl (Missing_Node (wn_id n))
              | Some ts \<Rightarrow> Inr (fold (\<lambda>t p. p(t \<mapsto> py_str agent_name)) ts assigned))"

definition TASK_TYPE_MAP :: "(string \<times> task_type) list" where
  "TASK_TYPE_MAP = [(''development'', DEVELOPMENT), (''design'', DESIGN), (''research'', RESEARCH), (''review'', REVIEW),
     (''admin'', ADMIN), (''analysis'', ANALYSIS)]"

definition PRIORITY_MAP :: "(string \<times> priority) list" where
  "PRIORITY_MAP = [(''critical'', PRIORITY_CRITICAL), (''high'', PRIORITY_HIGH), (''medium'', PRIORITY_MEDIUM),
     (''low'', PRIORITY_LOW)]"

definition COMPLEXITY_MAP :: "(string \<times> complexity) list" where
  "COMPLEXITY_MAP = [(''simple'', SIMPLE), (''medium'', COMPLEXITY_MEDIUM), (''complex'', COMPLEX), (''epic'', EPIC)]"

text \<open>\<open>str(config.get(key, default))\<close>\<close>

definition config_text :: "wf_node \<Rightarrow> string \<Rightarrow> string \<Rightarrow> string" where
  "config_text n k default_text = (case wn_config n k of None \<Rightarrow> default_text | Some v \<Rightarrow> py_str v)"

record task_config =
  tc_title :: string
  tc_description :: string
  tc_type :: task_type
  tc_priority :: priority
  tc_complexity :: complexity

definition parse_task_config :: "wf_node \<Rightarrow> (walk_failure, task_config) outcome" where
  "parse_task_config n =
     (case map_of TASK_TYPE_MAP (config_text n ''task_type'' ''development'') of
        None \<Rightarrow> Inl (Bad_Task_Config (wn_id n) ''task_type'')
      | Some ty \<Rightarrow>
          (case map_of PRIORITY_MAP (config_text n ''priority'' ''medium'') of
             None \<Rightarrow> Inl (Bad_Task_Config (wn_id n) ''priority'')
           | Some pr \<Rightarrow>
               (case map_of COMPLEXITY_MAP (config_text n ''complexity'' ''medium'') of
                  None \<Rightarrow> Inl (Bad_Task_Config (wn_id n) ''complexity'')
                | Some c \<Rightarrow>
                    Inr \<lparr>tc_title = config_text n ''title'' (wn_label n),
                         tc_description = config_text n ''description'' (''Task from workflow node '' @ wn_id n),
                         tc_type = ty, tc_priority = pr, tc_complexity = c\<rparr>)))"

definition task_data :: "walk_env \<Rightarrow> task_config \<Rightarrow> string option \<Rightarrow> ident list \<Rightarrow> create_task_data" where
  "task_data env c assigned_to upstream =
     \<lparr>cd_title = tc_title c, cd_description = tc_description c, cd_type = tc_type c, cd_priority = tc_priority c,
      cd_project = wv_project env, cd_created_by = wv_activated_by env, cd_assigned_to = assigned_to,
      cd_dependencies = upstream, cd_estimated_complexity = tc_complexity c, cd_acceptance_criteria = [],
      cd_budget_limit = 0\<rparr>"

definition process_task_node ::
  "walk_env \<Rightarrow> wf_node \<Rightarrow> adjacency_map \<Rightarrow> (ident \<rightharpoonup> workflow_node_type) \<Rightarrow> frame_locals \<Rightarrow> walk_state \<Rightarrow>
   (walk_failure, node_execution \<times> frame_locals) outcome \<times> walk_state" where
  "process_task_node env n radj types loc st =
     (case parse_task_config n of
        Inl e \<Rightarrow> (Inl e, st)
      | Inr c \<Rightarrow>
          let assigned_to = fl_pending loc (wn_id n);
              loc' = loc\<lparr>fl_pending := (fl_pending loc)(wn_id n := None)\<rparr>
          in case find_upstream_task_ids (wn_id n) radj types (fl_task_ids loc') (fl_skipped loc') of
               None \<Rightarrow> (Inl (Missing_Node (wn_id n)), st)
             | Some upstream \<Rightarrow>
                 let data = task_data env c assigned_to upstream
                 in if \<not> create_data_ok data then (Inl (Bad_Task_Data (wn_id n)), st)
                    else case create_task (wv_is_iso env) (wv_calls env (wk_calls st)) data ''workflow-engine'' (wk_engine st) of
                           (r, e') \<Rightarrow>
                             let st' = st\<lparr>wk_engine := e', wk_calls := Suc (wk_calls st)\<rparr>
                             in case r of
                                  Inl f \<Rightarrow> (Inl (Task_Not_Created (wn_id n) f), st')
                                | Inr t \<Rightarrow>
                                    (Inr (\<lparr>ne_node_id = wn_id n, ne_node_type = wn_type n, ne_status = NS_TASK_CREATED,
                                           ne_task_id = Some (t_id t), ne_skipped_reason = None\<rparr>,
                                          loc'\<lparr>fl_task_ids := (fl_task_ids loc')(wn_id n \<mapsto> One_Task (t_id t))\<rparr>), st'))"

text \<open>The registered handler of every node type but SUBWORKFLOW, its node under its qualified id.\<close>

definition handle_plain_node ::
  "walk_env \<Rightarrow> string \<Rightarrow> workflow_definition \<Rightarrow> wf_node \<Rightarrow> frame_locals \<Rightarrow> walk_state \<Rightarrow>
   (walk_failure, node_execution \<times> frame_locals) outcome \<times> walk_state" where
  "handle_plain_node env pre d n loc st =
     (case build_adjacency_maps d of (adj, radj, outgoing) \<Rightarrow>
        (case wn_type n of
           NT_AGENT_ASSIGNMENT \<Rightarrow>
             (case handle_agent_assignment n adj (node_types d) (fl_pending loc) of
                Inl e \<Rightarrow> (Inl e, st)
              | Inr assigned \<Rightarrow>
                  (Inr (completed_node (qualify_id pre (wn_id n)) (wn_type n), loc\<lparr>fl_pending := assigned\<rparr>), st))
         | NT_VERIFICATION \<Rightarrow>
             (case handle_verification n outgoing adj (fl_skipped loc) of (ne, skipped) \<Rightarrow>
                (Inr (ne\<lparr>ne_node_id := qualify_id pre (wn_id n)\<rparr>, loc\<lparr>fl_skipped := skipped\<rparr>), st))
         | NT_CONDITIONAL \<Rightarrow>
             (case process_conditional_node n outgoing adj (fl_vars loc) (fl_skipped loc) of
                Inl e \<Rightarrow> (Inl e, st)
              | Inr (ne, skipped) \<Rightarrow>
                  (Inr (ne\<lparr>ne_node_id := qualify_id pre (wn_id n)\<rparr>, loc\<lparr>fl_skipped := skipped\<rparr>), st))
         | NT_TASK \<Rightarrow>
             (case process_task_node env n radj (node_types d) loc st of
                (Inl e, st') \<Rightarrow> (Inl e, st')
              | (Inr (ne, loc'), st') \<Rightarrow> (Inr (ne\<lparr>ne_node_id := qualify_id pre (wn_id n)\<rparr>, loc'), st'))
         | _ \<Rightarrow> (Inr (completed_node (qualify_id pre (wn_id n)) (wn_type n), loc), st)))"

section \<open>The walk\<close>

definition record_node :: "ident \<Rightarrow> node_execution \<Rightarrow> walk_state \<Rightarrow> walk_state" where
  "record_node q ne st =
     st\<lparr>wk_ordered_keys := (if wk_node_exec st q = None then wk_ordered_keys st @ [q] else wk_ordered_keys st),
        wk_node_exec := (wk_node_exec st)(q \<mapsto> ne),
        wk_task_ids := (case ne_task_id ne of None \<Rightarrow> wk_task_ids st | Some t \<Rightarrow> AList.update q (One_Task t) (wk_task_ids st))\<rparr>"

definition skipped_node :: "ident \<Rightarrow> workflow_node_type \<Rightarrow> node_execution" where
  "skipped_node q t =
     \<lparr>ne_node_id = q, ne_node_type = t, ne_status = NS_SKIPPED, ne_task_id = None,
      ne_skipped_reason = Some ''Conditional branch not taken''\<rparr>"

definition initial_locals :: "execution_frame \<Rightarrow> frame_locals" where
  "initial_locals frame =
     \<lparr>fl_task_ids = Map.empty, fl_skipped = {}, fl_pending = Map.empty, fl_vars = fr_variables frame\<rparr>"

record subworkflow_call =
  sw_definition :: workflow_definition
  sw_frame :: execution_frame
  sw_output_bindings :: "(string \<times> py_value) list"

text \<open>What \<open>_process_subworkflow_node\<close> does before it walks the child graph, and after.\<close>

definition enter_subworkflow ::
  "walk_env \<Rightarrow> execution_frame \<Rightarrow> wf_node \<Rightarrow> frame_locals \<Rightarrow> (walk_failure, subworkflow_call) outcome" where
  "enter_subworkflow env frame n loc =
     (case wv_registry env of
        None \<Rightarrow> Inl (No_Registry (wn_id n))
      | Some registry \<Rightarrow>
          if \<not> is_str (config_get n ''subworkflow_id'') \<or> blank_text (config_get n ''subworkflow_id'')
          then Inl (Bad_Subworkflow_Config (wn_id n) ''subworkflow_id'')
          else if \<not> is_str (config_get n ''version'') \<or> blank_text (config_get n ''version'')
          then Inl (Bad_Subworkflow_Config (wn_id n) ''version'')
          else (case config_get n ''input_bindings'' of
                  V_Map _ inputs \<Rightarrow>
                    (case config_get n ''output_bindings'' of
                       V_Map _ outputs \<Rightarrow>
                         if wv_max_depth env < fr_depth frame + 1
                         then Inl (Depth_Exceeded (fr_depth frame + 1) (wv_max_depth env))
                         else (case registry (py_str (config_get n ''subworkflow_id''), py_str (config_get n ''version'')) of
                                 None \<Rightarrow> Inl (Subworkflow_Not_Found (py_str (config_get n ''subworkflow_id''))
                                   (py_str (config_get n ''version'')))
                               | Some child \<Rightarrow>
                                   (case resolve_input_bindings (wv_is_iso env) inputs (fl_vars loc) (wd_inputs child) of
                                      Inl e \<Rightarrow> Inl (Binding_Failed e)
                                    | Inr resolved \<Rightarrow>
                                        Inr \<lparr>sw_definition = child, sw_frame = child_frame frame child resolved,
                                             sw_output_bindings = outputs\<rparr>))
                     | _ \<Rightarrow> Inl (Bad_Subworkflow_Config (wn_id n) ''output_bindings''))
                | _ \<Rightarrow> Inl (Bad_Subworkflow_Config (wn_id n) ''input_bindings'')))"

definition leave_subworkflow ::
  "walk_env \<Rightarrow> string \<Rightarrow> wf_node \<Rightarrow> subworkflow_call \<Rightarrow> variables \<Rightarrow> frame_locals \<Rightarrow> walk_state \<Rightarrow>
   (walk_failure, node_execution \<times> frame_locals) outcome" where
  "leave_subworkflow env pre n call child_vars loc st =
     (case project_output_bindings (wv_is_iso env) (sw_output_bindings call) child_vars
             (wd_outputs (sw_definition call)) (fl_vars loc) of
        Inl e \<Rightarrow> Inl (Binding_Failed e)
      | Inr projected \<Rightarrow>
          (case collect_terminal_task_ids (sw_definition call) (qualify_id pre (wn_id n)) st of
             None \<Rightarrow> Inl (Missing_Node (wn_id n))
           | Some terminal \<Rightarrow>
               Inr (\<lparr>ne_node_id = qualify_id pre (wn_id n), ne_node_type = NT_SUBWORKFLOW,
                     ne_status = NS_SUBWORKFLOW_COMPLETED, ne_task_id = None, ne_skipped_reason = None\<rparr>,
                    loc\<lparr>fl_vars := fl_vars loc ++ projected,
                        fl_task_ids := (if terminal = [] then fl_task_ids loc
                          else (fl_task_ids loc)(wn_id n \<mapsto> Several_Tasks terminal))\<rparr>)))"

lemma enter_subworkflow_depth:
  "enter_subworkflow env frame n loc = Inr call \<Longrightarrow>
   fr_depth (sw_frame call) = fr_depth frame + 1 \<and> fr_depth frame + 1 \<le> wv_max_depth env"
  by (auto simp: enter_subworkflow_def child_frame_def split: option.splits if_splits py_value.splits sum.splits)

function walk_frame ::
    "walk_env \<Rightarrow> workflow_definition \<Rightarrow> execution_frame \<Rightarrow> string \<Rightarrow> walk_state \<Rightarrow>
     (walk_failure, variables) outcome \<times> walk_state"
  and walk_nodes ::
    "walk_env \<Rightarrow> workflow_definition \<Rightarrow> execution_frame \<Rightarrow> string \<Rightarrow> ident list \<Rightarrow> frame_locals \<Rightarrow> walk_state \<Rightarrow>
     (walk_failure, variables) outcome \<times> walk_state" where
  "walk_frame env d frame pre st =
     (case wf_topological_sort (map wn_id (wd_nodes d)) (fst (build_adjacency_maps d)) of
        Inl _ \<Rightarrow> (Inl Graph_Cycle, st)
      | Inr sorted_ids \<Rightarrow> walk_nodes env d frame pre sorted_ids (initial_locals frame) st)"
| "walk_nodes env d frame pre [] loc st = (Inr (fl_vars loc), st)"
| "walk_nodes env d frame pre (nid # nids) loc st =
     (case node_map d nid of
        None \<Rightarrow> (Inl (Missing_Node nid), st)
      | Some n \<Rightarrow>
          if nid \<in> fl_skipped loc
          then walk_nodes env d frame pre nids loc
                 (record_node (qualify_id pre nid) (skipped_node (qualify_id pre nid) (wn_type n)) st)
          else if wn_type n = NT_SUBWORKFLOW
          then (case enter_subworkflow env frame n loc of
                  Inl e \<Rightarrow> (Inl e, st)
                | Inr call \<Rightarrow>
                    (case walk_frame env (sw_definition call) (sw_frame call) (qualify_id pre nid) st of
                       (Inl e, st') \<Rightarrow> (Inl e, st')
                     | (Inr child_vars, st') \<Rightarrow>
                         (case leave_subworkflow env pre n call child_vars loc st' of
                            Inl e \<Rightarrow> (Inl e, st')
                          | Inr (ne, loc') \<Rightarrow>
                              walk_nodes env d frame pre nids loc' (record_node (qualify_id pre nid) ne st'))))
          else (case handle_plain_node env pre d n loc st of
                  (Inl e, st') \<Rightarrow> (Inl e, st')
                | (Inr (ne, loc'), st') \<Rightarrow>
                    walk_nodes env d frame pre nids loc' (record_node (qualify_id pre nid) ne st')))"
  by pat_completeness auto
termination
  by (relation "measures
      [\<lambda>x. case x of Inl (env, d, frame, pre, st) \<Rightarrow> nat (wv_max_depth env - fr_depth frame)
                   | Inr (env, d, frame, pre, nids, loc, st) \<Rightarrow> nat (wv_max_depth env - fr_depth frame),
       \<lambda>x. case x of Inl _ \<Rightarrow> 1 | Inr _ \<Rightarrow> 0,
       \<lambda>x. case x of Inl _ \<Rightarrow> 0 | Inr (env, d, frame, pre, nids, loc, st) \<Rightarrow> length nids]")
    (auto dest!: enter_subworkflow_depth)

section \<open>Activation\<close>

type_synonym execution_store = "ident \<rightharpoonup> workflow_execution"

datatype save_error = Duplicate_Execution | Execution_Conflict | Execution_Gone | Query_Failed

text \<open>
  The repository's \<open>save\<close>: version 1 inserts, any other version updates the row whose
  version is one less. \<open>fails\<close> is a failure of the database.
\<close>

definition save_execution :: "bool \<Rightarrow> workflow_execution \<Rightarrow> execution_store \<Rightarrow> (save_error, execution_store) outcome" where
  "save_execution fails x store =
     (if fails then Inl Query_Failed
      else if xe_version x = 1 then
        (if store (xe_id x) = None then Inr (store(xe_id x \<mapsto> x)) else Inl Duplicate_Execution)
      else case store (xe_id x) of
             None \<Rightarrow> Inl Execution_Gone
           | Some row \<Rightarrow> if xe_version row = xe_version x - 1 then Inr (store(xe_id x \<mapsto> x)) else Inl Execution_Conflict)"

datatype activation_failure =
    Definition_Not_Found ident
  | Definition_Invalid "wf_validation_error list"
  | Walk_Failed walk_failure
  | Execution_Invalid
  | Save_Failed save_error

text \<open>The request's own environment: the enumeration of the node ids, the new id, the clock.\<close>

record activation_env =
  ac_walk :: walk_env
  ac_id_order :: "workflow_definition \<Rightarrow> ident list"
  ac_execution_id :: ident
  ac_now :: int
  ac_save_fails :: bool

record activation_world =
  aw_engine :: engine
  aw_executions :: execution_store

definition load_and_validate ::
  "activation_env \<Rightarrow> (ident \<rightharpoonup> workflow_definition) \<Rightarrow> ident \<Rightarrow> (activation_failure, workflow_definition) outcome" where
  "load_and_validate env definitions definition_id =
     (case definitions definition_id of
        None \<Rightarrow> Inl (Definition_Not_Found definition_id)
      | Some d \<Rightarrow>
          let errors = validate_workflow (ac_id_order env d) d
          in if errors \<noteq> [] then Inl (Definition_Invalid errors) else Inr d)"

definition start_state :: "engine \<Rightarrow> walk_state" where
  "start_state e =
     \<lparr>wk_node_exec = Map.empty, wk_task_ids = [], wk_ordered_keys = [], wk_engine = e, wk_calls = 0\<rparr>"

text \<open>The row of a finished walk.\<close>

definition built_execution :: "activation_env \<Rightarrow> workflow_definition \<Rightarrow> walk_state \<Rightarrow> workflow_execution" where
  "built_execution env d st =
     (let idle = wk_task_ids st = []
      in \<lparr>xe_id = ac_execution_id env, xe_definition_id = wd_id d, xe_definition_revision = wd_revision d,
          xe_status = (if idle then XS_COMPLETED else XS_RUNNING),
          xe_node_executions = map (\<lambda>k. the (wk_node_exec st k)) (wk_ordered_keys st),
          xe_activated_by = wv_activated_by (ac_walk env), xe_project = wv_project (ac_walk env),
          xe_created_at = ac_now env, xe_updated_at = ac_now env,
          xe_completed_at = (if idle then Some (ac_now env) else None), xe_error = None, xe_version = 1\<rparr>)"

definition activate ::
  "activation_env \<Rightarrow> (ident \<rightharpoonup> workflow_definition) \<Rightarrow> ident \<Rightarrow> variables \<Rightarrow> activation_world \<Rightarrow>
   (activation_failure, workflow_execution) outcome \<times> activation_world" where
  "activate env definitions definition_id ctx w =
     (case load_and_validate env definitions definition_id of
        Inl e \<Rightarrow> (Inl e, w)
      | Inr d \<Rightarrow>
          (case walk_frame (ac_walk env) d (root_frame d ctx) [] (start_state (aw_engine w)) of
             (Inl e, st) \<Rightarrow> (Inl (Walk_Failed e), w\<lparr>aw_engine := wk_engine st\<rparr>)
           | (Inr vars, st) \<Rightarrow>
               let x = built_execution env d st
               in if \<not> execution_ok x then (Inl Execution_Invalid, w\<lparr>aw_engine := wk_engine st\<rparr>)
                  else case save_execution (ac_save_fails env) x (aw_executions w) of
                    Inl e \<Rightarrow> (Inl (Save_Failed e), w\<lparr>aw_engine := wk_engine st\<rparr>)
                  | Inr store \<Rightarrow> (Inr x, \<lparr>aw_engine = wk_engine st, aw_executions = store\<rparr>)))"

section \<open>What the engine is asked for\<close>

lemma create_task_Inr:
  assumes "create_task is_iso call data requested_by e = (Inr t, e')"
  shows "t = create_row (sc_env call) data" and "task_valid is_iso t" and "create_data_ok data"
    and "cd_assigned_to data = None" and "t_id t \<notin> set (cd_dependencies data)"
    and "tasks e' = (tasks (run_mutations is_iso (sc_others call) e))(t_id t \<mapsto> t)"
proof -
  define m where "m = \<lparr>cm_request_id = sc_request_id call, cm_requested_by = requested_by, cm_task_data = data\<rparr>"
  have c: "construct_mutation (Create_Task m) = Inr (Create_Task m)" and ok: "create_data_ok data"
    using assms by (auto simp: create_task_def m_def split: if_splits sum.splits)
  have d: "(case dispatch is_iso (sc_env call) (Create_Task m) (run_mutations is_iso (sc_others call) e) of
      (r, e') \<Rightarrow> let res = answer (Create_Task m) r
        in if \<not> mr_success res then (Inl (Mutation_Refused (mr_error_code res)), e')
           else case mr_task res of None \<Rightarrow> (Inl No_Task_Returned, e') | Some t \<Rightarrow> (Inr t, e')) = (Inr t, e')"
    using assms c unfolding create_task_def m_def[symmetric] by (simp split: option.splits)
  have valid: "model_validate is_iso (create_row (sc_env call) data, []) = Inr t \<and>
      tasks e' = (tasks (run_mutations is_iso (sc_others call) e))(t_id t \<mapsto> t)"
    using d unfolding m_def
    by (auto simp: apply_create_def answer_def internal_result_def failure_result_def success_result_def
        vt_set_initial_def repo_save_def split: sum.splits if_splits)
  note v = model_validate_Inr[OF conjunct1[OF valid]]
  show t: "t = create_row (sc_env call) data" using v by simp
  then show "task_valid is_iso t" using v by simp
  show "create_data_ok data" by (rule ok)
  show "cd_assigned_to data = None" "t_id t \<notin> set (cd_dependencies data)"
    using create_row_valid_iff[OF ok, of is_iso "sc_env call"] v t by simp_all
  show "tasks e' = (tasks (run_mutations is_iso (sc_others call) e))(t_id t \<mapsto> t)" using valid by simp
qed

lemma create_task_succeeds:
  assumes "not_blank (sc_request_id call)" and "not_blank requested_by" and "create_data_ok data"
    and "sc_refused call = None" and "\<not> env_save_raises (sc_env call)"
    and "cd_assigned_to data = None" and "env_new_id (sc_env call) \<notin> set (cd_dependencies data)"
    and "distinct (cd_dependencies data)"
  shows "\<exists>e'. create_task is_iso call data requested_by e = (Inr (create_row (sc_env call) data), e')"
proof -
  have "task_valid is_iso (create_row (sc_env call) data)"
    using create_row_valid_iff[OF assms(3)] assms(6-8) by blast
  with assms show ?thesis
    by (simp add: create_task_def task_valid_def apply_create_def vt_set_initial_def answer_def success_result_def)
qed

lemma process_task_node_Inr:
  assumes "process_task_node env n radj types loc st = (Inr (ne, loc'), st')"
  shows "\<exists>t up e'. find_upstream_task_ids (wn_id n) radj types (fl_task_ids loc) (fl_skipped loc) = Some up \<and>
    create_task (wv_is_iso env) (wv_calls env (wk_calls st)) (task_data env (projr (parse_task_config n)) None up)
      ''workflow-engine'' (wk_engine st) = (Inr t, e') \<and>
    fl_pending loc (wn_id n) = None \<and> (\<exists>c. parse_task_config n = Inr c) \<and>
    ne = \<lparr>ne_node_id = wn_id n, ne_node_type = wn_type n, ne_status = NS_TASK_CREATED, ne_task_id = Some (t_id t),
          ne_skipped_reason = None\<rparr> \<and>
    loc' = loc\<lparr>fl_task_ids := (fl_task_ids loc)(wn_id n \<mapsto> One_Task (t_id t)), fl_pending := (fl_pending loc)(wn_id n := None)\<rparr> \<and>
    st' = st\<lparr>wk_engine := e', wk_calls := Suc (wk_calls st)\<rparr>"
proof -
  obtain c up t e' where h: "parse_task_config n = Inr c"
    "find_upstream_task_ids (wn_id n) radj types (fl_task_ids loc) (fl_skipped loc) = Some up"
    "create_task (wv_is_iso env) (wv_calls env (wk_calls st)) (task_data env c (fl_pending loc (wn_id n)) up)
      ''workflow-engine'' (wk_engine st) = (Inr t, e')"
    "ne = \<lparr>ne_node_id = wn_id n, ne_node_type = wn_type n, ne_status = NS_TASK_CREATED, ne_task_id = Some (t_id t),
          ne_skipped_reason = None\<rparr>"
    "loc' = loc\<lparr>fl_task_ids := (fl_task_ids loc)(wn_id n \<mapsto> One_Task (t_id t)), fl_pending := (fl_pending loc)(wn_id n := None)\<rparr>"
    "st' = st\<lparr>wk_engine := e', wk_calls := Suc (wk_calls st)\<rparr>"
    using assms by (auto simp: process_task_node_def Let_def split: sum.splits option.splits if_splits prod.splits)
  have "fl_pending loc (wn_id n) = None" using create_task_Inr(4)[OF h(3)] by (simp add: task_data_def)
  with h show ?thesis by auto
qed

section \<open>Invariants of a walk\<close>

text \<open>
  \<open>S\<close> is kept of the walk state, \<open>J\<close> of what a frame keeps, over states that only grow
  while child frames run; \<open>entry\<close> says what may be recorded.
\<close>

locale walk_invariant =
  fixes env_ok :: "walk_env \<Rightarrow> bool" and good :: "workflow_definition \<Rightarrow> bool"
    and S :: "walk_env \<Rightarrow> walk_state \<Rightarrow> bool" and J :: "walk_env \<Rightarrow> frame_locals \<Rightarrow> walk_state \<Rightarrow> bool"
    and grows :: "walk_state \<Rightarrow> walk_state \<Rightarrow> bool"
    and entry :: "walk_env \<Rightarrow> walk_state \<Rightarrow> string \<Rightarrow> wf_node \<Rightarrow> node_execution \<Rightarrow> bool"
  assumes grows_refl: "grows st st"
    and grows_trans: "grows st st' \<Longrightarrow> grows st' st'' \<Longrightarrow> grows st st''"
    and J_grows: "J env loc st \<Longrightarrow> grows st st' \<Longrightarrow> J env loc st'"
    and J_initial: "J env (initial_locals frame) st"
    and plain: "env_ok env \<Longrightarrow> good d \<Longrightarrow> node_map d nid = Some n \<Longrightarrow> wn_type n \<noteq> NT_SUBWORKFLOW \<Longrightarrow> S env st \<Longrightarrow>
      J env loc st \<Longrightarrow> handle_plain_node env pre d n loc st = (Inr (ne, loc'), st') \<Longrightarrow>
      S env st' \<and> J env loc' st' \<and> grows st st' \<and> entry env st' pre n ne"
    and plain_fails: "env_ok env \<Longrightarrow> S env st \<Longrightarrow> J env loc st \<Longrightarrow>
      handle_plain_node env pre d n loc st = (Inl e, st') \<Longrightarrow> S env st' \<and> grows st st'"
    and leave: "env_ok env \<Longrightarrow> good d \<Longrightarrow> node_map d nid = Some n \<Longrightarrow> wn_type n = NT_SUBWORKFLOW \<Longrightarrow> S env st \<Longrightarrow>
      J env loc st \<Longrightarrow> leave_subworkflow env pre n call vars loc st = Inr (ne, loc') \<Longrightarrow>
      J env loc' st \<and> entry env st pre n ne"
    and skipping: "good d \<Longrightarrow> node_map d nid = Some n \<Longrightarrow>
      entry env st pre n (skipped_node (qualify_id pre (wn_id n)) (wn_type n))"
    and recording: "env_ok env \<Longrightarrow> S env st \<Longrightarrow> entry env st pre n ne \<Longrightarrow>
      S env (record_node (qualify_id pre (wn_id n)) ne st) \<and> grows st (record_node (qualify_id pre (wn_id n)) ne st)"
begin

definition registered_ok :: "walk_env \<Rightarrow> bool" where
  "registered_ok env \<longleftrightarrow> (\<forall>registry key d. wv_registry env = Some registry \<longrightarrow> registry key = Some d \<longrightarrow> good d)"

lemma entered_good: "registered_ok env \<Longrightarrow> enter_subworkflow env frame n loc = Inr call \<Longrightarrow> good (sw_definition call)"
  by (auto simp: enter_subworkflow_def registered_ok_def split: option.splits if_splits py_value.splits sum.splits)

lemma node_map_id: "node_map d nid = Some n \<Longrightarrow> wn_id n = nid"
  by (auto simp: node_map_def dest!: map_of_SomeD)

lemma record_step:
  assumes "env_ok env" and "S env st" and "J env loc st" and "entry env st pre n ne" and "wn_id n = nid"
  shows "S env (record_node (qualify_id pre nid) ne st) \<and> grows st (record_node (qualify_id pre nid) ne st) \<and>
    J env loc (record_node (qualify_id pre nid) ne st)"
  using recording[OF assms(1,2,4)] assms(5) J_grows[OF assms(3)] by blast

lemma walk_keeps:
  "env_ok env \<Longrightarrow> registered_ok env \<Longrightarrow> good d \<Longrightarrow> S env st \<Longrightarrow> walk_frame env d frame pre st = (r, st') \<Longrightarrow>
    S env st' \<and> grows st st'"
  "env_ok env \<Longrightarrow> registered_ok env \<Longrightarrow> good d \<Longrightarrow> S env st \<Longrightarrow> J env loc st \<Longrightarrow>
    walk_nodes env d frame pre nids loc st = (r, st') \<Longrightarrow> S env st' \<and> grows st st'"
proof (induction env d frame pre st and env d frame pre nids loc st arbitrary: r st' and r st'
    rule: walk_frame_walk_nodes.induct)
  case (1 env d frame pre st)
  show ?case
  proof (cases "wf_topological_sort (map wn_id (wd_nodes d)) (fst (build_adjacency_maps d))")
    case (Inl e)
    with 1(6) "1.prems" grows_refl show ?thesis by simp
  next
    case (Inr nids)
    with "1.IH"[OF Inr "1.prems"(1-4) J_initial] "1.prems"(5) show ?thesis by simp
  qed
next
  case (2 env d frame pre loc st)
  then show ?case using grows_refl by simp
next
  case (3 env d frame pre nid nids loc st)
  show ?case
  proof (cases "node_map d nid")
    case None
    with "3.prems" grows_refl show ?thesis by simp
  next
    case n: (Some n)
    note id = node_map_id[OF n] and ok = "3.prems"(1-3)
    show ?thesis
    proof (cases "nid \<in> fl_skipped loc")
      case True
      note rec = record_step[OF ok(1) "3.prems"(4,5) skipping[OF ok(3) n, of env st pre, unfolded id] id]
      have "walk_nodes env d frame pre nids loc (record_node (qualify_id pre nid) (skipped_node (qualify_id pre nid) (wn_type n)) st) = (r, st')"
        using "3.prems"(6) n True by simp
      from "3.IH"(1)[OF n True ok _ _ this] rec show ?thesis using grows_trans by blast
    next
      case unskipped: False
      show ?thesis
      proof (cases "wn_type n = NT_SUBWORKFLOW")
        case sub: True
        show ?thesis
        proof (cases "enter_subworkflow env frame n loc")
          case (Inl e)
          with "3.prems"(4,6) n unskipped sub grows_refl show ?thesis by simp
        next
          case call: (Inr call)
          obtain cr st1 where child: "walk_frame env (sw_definition call) (sw_frame call) (qualify_id pre nid) st = (cr, st1)"
            by fastforce
          have st1: "S env st1 \<and> grows st st1"
            using "3.IH"(2)[OF n unskipped sub call ok(1,2) entered_good[OF ok(2) call] "3.prems"(4) child] .
          show ?thesis
          proof (cases cr)
            case (Inl e)
            with "3.prems"(6) n unskipped sub call child st1 show ?thesis by simp
          next
            case vars: (Inr vars)
            note J1 = J_grows[OF "3.prems"(5) conjunct2[OF st1]]
            show ?thesis
            proof (cases "leave_subworkflow env pre n call vars loc st1")
              case (Inl e)
              with "3.prems"(6) n unskipped sub call child vars st1 show ?thesis by simp
            next
              case left: (Inr p)
              obtain ne loc' where p: "p = (ne, loc')" by fastforce
              note lv = leave[OF ok(1,3) n sub conjunct1[OF st1] J1 left[unfolded p]]
              note rec = record_step[OF ok(1) conjunct1[OF st1] conjunct1[OF lv] conjunct2[OF lv] id]
              have "walk_nodes env d frame pre nids loc' (record_node (qualify_id pre nid) ne st1) = (r, st')"
                using "3.prems"(6) n unskipped sub call child vars left p by simp
              from "3.IH"(3)[OF n unskipped sub call child[symmetric] vars left p[symmetric] ok _ _ this] rec st1
              show ?thesis using grows_trans by blast
            qed
          qed
        qed
      next
        case nosub: False
        obtain hr st1 where h: "handle_plain_node env pre d n loc st = (hr, st1)" by fastforce
        show ?thesis
        proof (cases hr)
          case (Inl e)
          with "3.prems" n unskipped nosub h plain_fails[OF ok(1) "3.prems"(4,5)] show ?thesis by auto
        next
          case (Inr p)
          obtain ne loc' where p: "p = (ne, loc')" by fastforce
          have pl: "S env st1 \<and> J env loc' st1 \<and> grows st st1 \<and> entry env st1 pre n ne"
            using plain[OF ok(1,3) n nosub "3.prems"(4,5)] h Inr p by simp
          then have rec: "S env (record_node (qualify_id pre nid) ne st1) \<and> grows st1 (record_node (qualify_id pre nid) ne st1) \<and>
              J env loc' (record_node (qualify_id pre nid) ne st1)"
            using record_step[OF ok(1) _ _ _ id] by blast
          have "walk_nodes env d frame pre nids loc' (record_node (qualify_id pre nid) ne st1) = (r, st')"
            using "3.prems"(6) n unskipped nosub h Inr p by simp
          from "3.IH"(4)[OF n unskipped nosub h[symmetric] Inr p[symmetric] ok _ _ this] rec pl
          show ?thesis using grows_trans by blast
        qed
      qed
    qed
  qed
qed

end

subsection \<open>The row\<close>

definition new_id :: "walk_env \<Rightarrow> nat \<Rightarrow> ident" where
  "new_id env k = env_new_id (sc_env (wv_calls env k))"

definition ids_given :: "walk_env \<Rightarrow> bool" where
  "ids_given env \<longleftrightarrow> (\<forall>k. not_blank (new_id env k))"

definition nodes_named :: "workflow_definition \<Rightarrow> bool" where
  "nodes_named d \<longleftrightarrow> (\<forall>n \<in> set (wd_nodes d). not_blank (wn_id n))"

definition just_filed :: "node_execution \<Rightarrow> bool" where
  "just_filed ne \<longleftrightarrow> (ne_status ne \<noteq> NS_SKIPPED \<longrightarrow> (ne_node_type ne = NT_TASK \<longrightarrow> ne_status ne = NS_TASK_CREATED) \<and>
     (ne_node_type ne = NT_SUBWORKFLOW \<longrightarrow> ne_status ne = NS_SUBWORKFLOW_COMPLETED))"

definition entry_ok :: "string \<Rightarrow> wf_node \<Rightarrow> node_execution \<Rightarrow> bool" where
  "entry_ok pre n ne \<longleftrightarrow> ne_node_id ne = qualify_id pre (wn_id n) \<and> node_execution_ok ne \<and> just_filed ne"

definition rows_ok :: "walk_state \<Rightarrow> bool" where
  "rows_ok st \<longleftrightarrow> distinct (wk_ordered_keys st) \<and> set (wk_ordered_keys st) = dom (wk_node_exec st) \<and>
     (\<forall>q ne. wk_node_exec st q = Some ne \<longrightarrow> ne_node_id ne = q \<and> node_execution_ok ne \<and> just_filed ne)"

lemma not_blank_suffix: "not_blank s \<Longrightarrow> not_blank (r @ s)"
  by (simp add: not_blank_def blank_def)

lemma qualify_not_blank: "not_blank i \<Longrightarrow> not_blank (qualify_id pre i)"
  by (simp add: qualify_id_def not_blank_suffix)

lemma create_task_id: "create_task is_iso call data rb e = (Inr t, e') \<Longrightarrow> t_id t = env_new_id (sc_env call)"
  using create_task_Inr(1) by fastforce

lemma node_named: "nodes_named d \<Longrightarrow> node_map d nid = Some n \<Longrightarrow> not_blank (qualify_id pre (wn_id n))"
  by (auto simp: nodes_named_def node_map_def dest!: map_of_SomeD intro!: qualify_not_blank)

lemma plain_entry_ok:
  assumes "ids_given env" and "not_blank (qualify_id pre (wn_id n))" and "wn_type n \<noteq> NT_SUBWORKFLOW"
    and "handle_plain_node env pre d n loc st = (Inr (ne, loc'), st')"
  shows "entry_ok pre n ne"
proof (cases "wn_type n = NT_TASK")
  case True
  obtain adj radj out where maps: "build_adjacency_maps d = (adj, radj, out)" by (cases "build_adjacency_maps d")
  obtain ne0 where ne0: "process_task_node env n radj (node_types d) loc st = (Inr (ne0, loc'), st')"
    "ne = ne0\<lparr>ne_node_id := qualify_id pre (wn_id n)\<rparr>"
    using assms(4) True maps by (auto simp: handle_plain_node_def split: prod.splits sum.splits)
  from process_task_node_Inr[OF ne0(1)] have t:
    "ne0 = \<lparr>ne_node_id = wn_id n, ne_node_type = wn_type n, ne_status = NS_TASK_CREATED,
       ne_task_id = Some (new_id env (wk_calls st)), ne_skipped_reason = None\<rparr>"
    by (auto dest: create_task_id simp: new_id_def)
  then show ?thesis
    using assms(1,2) True
    by (auto simp: entry_ok_def node_execution_ok_def just_filed_def ne0(2) TASK_LINKED_STATUSES_def ids_given_def)
next
  case False
  with assms show ?thesis
    by (cases "wn_type n")
      (auto simp: handle_plain_node_def entry_ok_def node_execution_ok_def just_filed_def completed_node_def TASK_LINKED_STATUSES_def
        handle_verification_def process_verification_node_def process_conditional_node_def Let_def
        split: prod.splits sum.splits)
qed

lemma handle_plain_node_keys:
  "handle_plain_node env pre d n loc st = (r, st') \<Longrightarrow>
   wk_ordered_keys st' = wk_ordered_keys st \<and> wk_node_exec st' = wk_node_exec st \<and> wk_task_ids st' = wk_task_ids st"
  by (auto simp: handle_plain_node_def process_task_node_def Let_def
      split: prod.splits sum.splits option.splits workflow_node_type.splits if_splits)

interpretation rows: walk_invariant ids_given nodes_named "\<lambda>env. rows_ok" "\<lambda>env loc st. True"
    "\<lambda>st st'. set (wk_ordered_keys st) \<subseteq> set (wk_ordered_keys st')" "\<lambda>env st. entry_ok"
proof (unfold_locales, goal_cases)
  case (5 env d nid n st loc pre ne loc' st')
  from handle_plain_node_keys[OF 5(7)] plain_entry_ok[OF 5(1) node_named[OF 5(2,3)] 5(4,7)] 5(5)
  show ?case by (auto simp: rows_ok_def)
next
  case (6 env st loc pre d n e st')
  from handle_plain_node_keys[OF 6(4)] 6(2) show ?case by (auto simp: rows_ok_def)
next
  case (7 env d nid n st loc pre call vars ne loc')
  from 7(7) have "ne = \<lparr>ne_node_id = qualify_id pre (wn_id n), ne_node_type = NT_SUBWORKFLOW,
      ne_status = NS_SUBWORKFLOW_COMPLETED, ne_task_id = None, ne_skipped_reason = None\<rparr>"
    by (auto simp: leave_subworkflow_def split: sum.splits option.splits)
  with node_named[OF 7(2,3)] show ?case
    by (simp add: entry_ok_def node_execution_ok_def just_filed_def TASK_LINKED_STATUSES_def)
next
  case (8 d nid n env st pre)
  have "not_blank ''Conditional branch not taken''" by code_simp
  with node_named[OF 8] show ?case
    by (simp add: entry_ok_def node_execution_ok_def just_filed_def TASK_LINKED_STATUSES_def skipped_node_def)
next
  case (9 env st pre n ne)
  then show ?case
    by (auto simp: rows_ok_def record_node_def entry_ok_def)
qed auto

lemma record_node_keys: "q \<in> set (wk_ordered_keys (record_node q ne st)) \<or> wk_node_exec st q \<noteq> None"
  by (simp add: record_node_def)

lemma record_node_key: "rows_ok st \<Longrightarrow> q \<in> set (wk_ordered_keys (record_node q ne st))"
  by (auto simp: record_node_def rows_ok_def)

text \<open>Whatever else a walk records, it records its own nodes.\<close>

lemma walk_nodes_recorded:
  assumes "ids_given env" and "rows.registered_ok env" and "nodes_named d" and "rows_ok st"
    and "walk_nodes env d frame pre nids loc st = (Inr vars, st')"
  shows "\<forall>nid \<in> set nids. qualify_id pre nid \<in> set (wk_ordered_keys st')"
  using assms(4,5)
proof (induction nids arbitrary: loc st)
  case (Cons nid nids)
  then obtain ne loc1 st1 n where n: "node_map d nid = Some n" and st1: "rows_ok st1" "entry_ok pre n ne"
    and rest: "walk_nodes env d frame pre nids loc1 (record_node (qualify_id pre nid) ne st1) = (Inr vars, st')"
  proof (cases "node_map d nid")
    case (Some n)
    note that = that[OF Some] and id = rows.node_map_id[OF Some]
    consider (skip) "nid \<in> fl_skipped loc" | (sub) "nid \<notin> fl_skipped loc" "wn_type n = NT_SUBWORKFLOW"
      | (plain) "nid \<notin> fl_skipped loc" "wn_type n \<noteq> NT_SUBWORKFLOW" by blast
    then show ?thesis
    proof cases
      case skip
      with Cons.prems Some rows.skipping[OF assms(3) Some, of pre] show ?thesis by (intro that) (auto simp: id)
    next
      case sub
      with Cons.prems(2) Some obtain call child_vars ne loc' st1 where
        call: "enter_subworkflow env frame n loc = Inr call"
        "walk_frame env (sw_definition call) (sw_frame call) (qualify_id pre nid) st = (Inr child_vars, st1)"
        "leave_subworkflow env pre n call child_vars loc st1 = Inr (ne, loc')"
        "walk_nodes env d frame pre nids loc' (record_node (qualify_id pre nid) ne st1) = (Inr vars, st')"
        by (auto split: sum.splits prod.splits)
      have "rows_ok st1" using rows.walk_keeps(1)[OF assms(1,2) rows.entered_good[OF assms(2) call(1)] Cons.prems(1) call(2)] by blast
      with call(4) rows.leave[OF assms(1,3) Some sub(2) _ _ call(3)] show ?thesis by (intro that) auto
    next
      case plain
      with Cons.prems(2) Some obtain ne loc' st1 where h: "handle_plain_node env pre d n loc st = (Inr (ne, loc'), st1)"
        "walk_nodes env d frame pre nids loc' (record_node (qualify_id pre nid) ne st1) = (Inr vars, st')"
        by (auto split: sum.splits prod.splits)
      with rows.plain[OF assms(1,3) Some plain(2) Cons.prems(1) _ h(1)] show ?thesis by (intro that) auto
    qed
  qed (use Cons.prems in simp)
  note rec = rows.record_step[OF assms(1) st1(1) _ st1(2) rows.node_map_id[OF n]]
  have keys: "set (wk_ordered_keys (record_node (qualify_id pre nid) ne st1)) \<subseteq> set (wk_ordered_keys st')"
    using rows.walk_keeps(2)[OF assms(1-3) _ _ rest] rec by blast
  from Cons.IH[OF _ rest] rec record_node_key[OF st1(1), of "qualify_id pre nid" ne] keys show ?case by auto
qed simp

text \<open>Without subworkflows it records nothing else, in the order it walks.\<close>

lemma qualify_inj: "qualify_id pre i = qualify_id pre j \<longleftrightarrow> i = j"
  by (simp add: qualify_id_def)

definition linked :: "walk_state \<Rightarrow> bool" where
  "linked st \<longleftrightarrow> (wk_task_ids st \<noteq> [] \<longleftrightarrow> (\<exists>ne \<in> ran (wk_node_exec st). ne_task_id ne \<noteq> None))"

lemma record_linked:
  assumes "linked st" and "wk_node_exec st q = None"
  shows "linked (record_node q ne st)"
proof -
  have "AList.update q v xs \<noteq> []" for v and xs :: "(ident \<times> task_entry) list" by (cases xs) auto
  with assms show ?thesis by (auto simp: linked_def record_node_def ran_map_upd split: option.splits)
qed

lemma walk_nodes_keys:
  assumes "\<forall>n \<in> set (wd_nodes d). wn_type n \<noteq> NT_SUBWORKFLOW" and "rows_ok st" and "distinct nids"
    and "\<forall>nid \<in> set nids. qualify_id pre nid \<notin> set (wk_ordered_keys st)" and "linked st"
    and "ids_given env" and "nodes_named d" and "walk_nodes env d frame pre nids loc st = (Inr vars, st')"
  shows "wk_ordered_keys st' = wk_ordered_keys st @ map (qualify_id pre) nids \<and> linked st' \<and> rows_ok st'"
  using assms(2-5,8)
proof (induction nids arbitrary: loc st)
  case (Cons nid nids)
  then obtain n where n: "node_map d nid = Some n" by (cases "node_map d nid") auto
  then have plain: "wn_type n \<noteq> NT_SUBWORKFLOW" using assms(1) by (auto simp: node_map_def dest!: map_of_SomeD)
  obtain ne loc1 st1 where st1: "rows_ok st1" "entry_ok pre n ne" "wk_ordered_keys st1 = wk_ordered_keys st" "linked st1"
    and rest: "walk_nodes env d frame pre nids loc1 (record_node (qualify_id pre nid) ne st1) = (Inr vars, st')"
  proof (cases "nid \<in> fl_skipped loc")
    case True
    with Cons.prems n rows.skipping[OF assms(7) n, of pre] rows.node_map_id[OF n] show ?thesis by (intro that) auto
  next
    case False
    with Cons.prems(5) n plain obtain ne loc' st1 where h: "handle_plain_node env pre d n loc st = (Inr (ne, loc'), st1)"
      "walk_nodes env d frame pre nids loc' (record_node (qualify_id pre nid) ne st1) = (Inr vars, st')"
      by (auto split: sum.splits prod.splits)
    with rows.plain[OF assms(6,7) n plain Cons.prems(1) _ h(1)] handle_plain_node_keys[OF h(1)] Cons.prems(4) show ?thesis
      by (intro that) (auto simp: linked_def)
  qed
  have fresh: "wk_node_exec st1 (qualify_id pre nid) = None"
    using Cons.prems(3) st1(1,3) by (auto simp: rows_ok_def)
  note rec = rows.record_step[OF assms(6) st1(1) _ st1(2) rows.node_map_id[OF n]]
  have keys: "wk_ordered_keys (record_node (qualify_id pre nid) ne st1) = wk_ordered_keys st @ [qualify_id pre nid]"
    using fresh st1(3) by (simp add: record_node_def)
  from Cons.IH[OF _ _ _ record_linked[OF st1(4) fresh] rest] rec keys Cons.prems(2,3) show ?case by (auto simp: qualify_inj)
qed simp

subsection \<open>Dependencies\<close>

text \<open>
  The other writers stay away from the tasks of this activation, and generated ids differ.
\<close>

definition undisturbed :: "walk_env \<Rightarrow> bool" where
  "undisturbed env \<longleftrightarrow> inj (new_id env) \<and>
     (\<forall>k. list_all (\<lambda>(cenv, m). construct_mutation m = Inr m \<and> (\<forall>j. mutation_target cenv m \<noteq> new_id env j))
        (sc_others (wv_calls env k)))"

definition made :: "walk_env \<Rightarrow> nat \<Rightarrow> ident set" where
  "made env k = {new_id env j |j. j < k}"

definition entries_made :: "walk_env \<Rightarrow> nat \<Rightarrow> (ident \<rightharpoonup> task_entry) \<Rightarrow> bool" where
  "entries_made env k ids \<longleftrightarrow> (\<forall>x e. ids x = Some e \<longrightarrow> set (flatten_task_ids e) \<subseteq> made env k)"

definition waits_on_earlier :: "walk_env \<Rightarrow> walk_state \<Rightarrow> bool" where
  "waits_on_earlier env st \<longleftrightarrow>
     store_ok (wv_is_iso env) (wk_engine st) \<and> entries_made env (wk_calls st) (map_of (wk_task_ids st)) \<and>
     (\<forall>k t. tasks (wk_engine st) (new_id env k) = Some t \<longrightarrow> k < wk_calls st \<and> set (t_dependencies t) \<subseteq> made env k)"

lemma made_mono: "k \<le> l \<Longrightarrow> made env k \<subseteq> made env l"
  by (auto simp: made_def)

lemma entries_made_mono: "entries_made env k ids \<Longrightarrow> k \<le> l \<Longrightarrow> entries_made env l ids"
  unfolding entries_made_def using made_mono by blast

lemma upstream_entries:
  "upstream_loop radj types ids skipped q V r = Some r' \<Longrightarrow> entries_made env k ids \<Longrightarrow> set r \<subseteq> made env k \<Longrightarrow>
   set r' \<subseteq> made env k"
  by (induction radj types ids skipped q V r rule: upstream_loop.induct)
    (auto simp: upstream_loop.simps(2) entries_made_def split: if_splits option.splits)

lemma find_upstream_made:
  assumes "find_upstream_task_ids nid radj types ids skipped = Some up" and "entries_made env k ids"
  shows "set up \<subseteq> made env k"
  using assms upstream_entries[of radj types ids skipped "targets radj nid" "{}" "[]" _ env k]
  by (auto simp: find_upstream_task_ids_def)

lemma others_keep:
  assumes "undisturbed env" and "store_ok is_iso e"
  shows "store_ok is_iso (run_mutations is_iso (sc_others (wv_calls env k)) e) \<and>
    (\<forall>j. tasks (run_mutations is_iso (sc_others (wv_calls env k)) e) (new_id env j) = tasks e (new_id env j))"
proof -
  let ?P = "\<lambda>e'. store_ok is_iso e' \<and> (\<forall>j. tasks e' (new_id env j) = tasks e (new_id env j))"
  have c: "constructed (sc_others (wv_calls env k))"
    using assms(1) unfolding undisturbed_def constructed_def list_all_iff by fast
  show ?thesis
  proof (rule run_mutations_induct[OF c, where P = ?P])
    fix cenv m e' assume m: "(cenv, m) \<in> set (sc_others (wv_calls env k))" "construct_mutation m = Inr m" and P: "?P e'"
    then have "mutation_target cenv m \<noteq> new_id env j" for j
      using assms(1) by (fastforce simp: undisturbed_def list_all_iff)
    with P store_ok_step[OF dispatch_step[OF m(2)]] step_other_task(1)[OF dispatch_step[OF m(2)]]
    show "?P (snd (dispatch is_iso cenv m e'))" by metis
  qed (use assms(2) in simp)
qed

lemma create_task_Inl:
  assumes "create_task is_iso call data rb e = (Inl f, e')"
  shows "e' = e \<or> tasks e' = tasks (run_mutations is_iso (sc_others call) e)"
  using assms
  by (auto simp: create_task_def Let_def apply_create_def answer_def internal_result_def failure_result_def
      success_result_def vt_set_initial_def split: sum.splits if_splits option.splits prod.splits)

lemma store_ok_tasks: "tasks e' = tasks e \<Longrightarrow> store_ok is_iso e \<Longrightarrow> store_ok is_iso e'"
  by (simp add: store_ok_def)

lemma created_task_waits:
  assumes "undisturbed env" and "waits_on_earlier env st" and "set up \<subseteq> made env (wk_calls st)"
    and c: "create_task (wv_is_iso env) (wv_calls env (wk_calls st)) (task_data env conf a up) rb (wk_engine st) = (Inr t, e')"
  shows "waits_on_earlier env (st\<lparr>wk_engine := e', wk_calls := Suc (wk_calls st)\<rparr>)"
proof -
  let ?e = "run_mutations (wv_is_iso env) (sc_others (wv_calls env (wk_calls st))) (wk_engine st)"
  note o = others_keep[OF assms(1), of "wv_is_iso env" "wk_engine st" "wk_calls st"] and t = create_task_Inr[OF c]
  have ok: "store_ok (wv_is_iso env) (wk_engine st)" using assms(2) by (simp add: waits_on_earlier_def)
  have id: "t_id t = new_id env (wk_calls st)" using create_task_id[OF c] by (simp add: new_id_def)
  have deps: "t_dependencies t = up" using t(1) by (simp add: create_row_def task_data_def)
  have "store_ok (wv_is_iso env) e'" using store_ok_save[OF conjunct1[OF o[OF ok]] t(2,6)] .
  moreover have "entries_made env (Suc (wk_calls st)) (map_of (wk_task_ids st))"
    using assms(2) by (auto simp: waits_on_earlier_def intro: entries_made_mono)
  moreover have "k < Suc (wk_calls st) \<and> set (t_dependencies t') \<subseteq> made env k"
    if "tasks e' (new_id env k) = Some t'" for k t'
  proof (cases "k = wk_calls st")
    case True
    with that t(6) id deps assms(3) show ?thesis by simp
  next
    case False
    with assms(1) id have "new_id env k \<noteq> t_id t" by (auto simp: undisturbed_def dest: injD)
    with that t(6) o[OF ok] have "tasks (wk_engine st) (new_id env k) = Some t'" by simp
    with assms(2) show ?thesis by (auto simp: waits_on_earlier_def intro: less_SucI)
  qed
  ultimately show ?thesis by (simp add: waits_on_earlier_def)
qed

lemma refused_task_waits:
  assumes "undisturbed env" and "waits_on_earlier env st"
    and "create_task (wv_is_iso env) (wv_calls env (wk_calls st)) data rb (wk_engine st) = (Inl f, e')"
  shows "waits_on_earlier env (st\<lparr>wk_engine := e', wk_calls := Suc (wk_calls st)\<rparr>)"
proof -
  have ok: "store_ok (wv_is_iso env) (wk_engine st)" using assms(2) by (simp add: waits_on_earlier_def)
  note o = others_keep[OF assms(1) ok, of "wk_calls st"]
  have same: "store_ok (wv_is_iso env) e' \<and> (\<forall>j. tasks e' (new_id env j) = tasks (wk_engine st) (new_id env j))"
    using create_task_Inl[OF assms(3)] o ok store_ok_tasks by metis
  have "entries_made env (Suc (wk_calls st)) (map_of (wk_task_ids st))"
    using assms(2) by (auto simp: waits_on_earlier_def intro: entries_made_mono)
  with same assms(2) show ?thesis by (auto simp: waits_on_earlier_def intro: less_SucI)
qed

lemma handle_task_waits:
  assumes "undisturbed env" and "waits_on_earlier env st" and "entries_made env (wk_calls st) (fl_task_ids loc)"
    and "process_task_node env n radj types loc st = (r, st')"
  shows "waits_on_earlier env st' \<and> wk_calls st \<le> wk_calls st' \<and>
    (case r of Inl _ \<Rightarrow> True | Inr (ne, loc') \<Rightarrow> entries_made env (wk_calls st') (fl_task_ids loc') \<and>
       (\<forall>i. ne_task_id ne = Some i \<longrightarrow> i \<in> made env (wk_calls st')))"
proof (cases r)
  case (Inr p)
  obtain ne loc' where p: "p = (ne, loc')" by fastforce
  from process_task_node_Inr[OF assms(4)[unfolded Inr p]] obtain t up e' where h:
    "find_upstream_task_ids (wn_id n) radj types (fl_task_ids loc) (fl_skipped loc) = Some up"
    "create_task (wv_is_iso env) (wv_calls env (wk_calls st)) (task_data env (projr (parse_task_config n)) None up)
      ''workflow-engine'' (wk_engine st) = (Inr t, e')"
    "ne_task_id ne = Some (t_id t)" "fl_task_ids loc' = (fl_task_ids loc)(wn_id n \<mapsto> One_Task (t_id t))"
    "st' = st\<lparr>wk_engine := e', wk_calls := Suc (wk_calls st)\<rparr>" by auto
  have id: "t_id t \<in> made env (Suc (wk_calls st))" using create_task_id[OF h(2)] by (auto simp: made_def new_id_def)
  have "entries_made env (Suc (wk_calls st)) (fl_task_ids loc')"
    using entries_made_mono[OF assms(3), of "Suc (wk_calls st)"] id h(4) by (auto simp: entries_made_def)
  with created_task_waits[OF assms(1,2) find_upstream_made[OF h(1) assms(3)] h(2)] h id show ?thesis
    by (simp add: Inr p)
next
  case (Inl e)
  show ?thesis
  proof (cases "st' = st")
    case True
    with Inl assms(2) show ?thesis by simp
  next
    case False
    with assms(4)[unfolded Inl] obtain data f e' where
      "create_task (wv_is_iso env) (wv_calls env (wk_calls st)) data ''workflow-engine'' (wk_engine st) = (Inl f, e')"
      "st' = st\<lparr>wk_engine := e', wk_calls := Suc (wk_calls st)\<rparr>"
      by (auto simp: process_task_node_def Let_def split: sum.splits option.splits if_splits prod.splits)
    with refused_task_waits[OF assms(1,2)] Inl show ?thesis by simp
  qed
qed

text \<open>The other handlers touch neither the engine nor the tasks of the frame.\<close>

lemma handle_verification_node: "fst (handle_verification n outgoing adj skipped) = completed_node (wn_id n) (wn_type n)"
  by (simp add: handle_verification_def process_verification_node_def Let_def)

lemma process_conditional_node_Inr:
  "process_conditional_node n outgoing adj vars skipped = Inr (ne, skipped') \<Longrightarrow> ne = completed_node (wn_id n) (wn_type n)"
  by (auto simp: process_conditional_node_def Let_def split: sum.splits if_splits)

lemma handle_other_node:
  assumes "wn_type n \<noteq> NT_TASK" and "handle_plain_node env pre d n loc st = (r, st')"
  shows "st' = st \<and> (case r of Inl _ \<Rightarrow> True | Inr (ne, loc') \<Rightarrow> fl_task_ids loc' = fl_task_ids loc \<and> ne_task_id ne = None)"
proof -
  obtain adj radj out where maps: "build_adjacency_maps d = (adj, radj, out)" by (cases "build_adjacency_maps d")
  show ?thesis
  proof (cases "wn_type n")
    case NT_CONDITIONAL
    with assms(2) maps show ?thesis
      by (auto simp: handle_plain_node_def completed_node_def dest!: process_conditional_node_Inr split: sum.splits)
  next
    case NT_VERIFICATION
    with assms(2) maps handle_verification_node[of n out adj "fl_skipped loc"] show ?thesis
      by (auto simp: handle_plain_node_def completed_node_def split: prod.splits)
  qed (use assms maps in \<open>auto simp: handle_plain_node_def completed_node_def split: sum.splits\<close>)
qed

lemma handle_plain_waits:
  assumes "undisturbed env" and "waits_on_earlier env st" and "entries_made env (wk_calls st) (fl_task_ids loc)"
    and "handle_plain_node env pre d n loc st = (r, st')"
  shows "waits_on_earlier env st' \<and> wk_calls st \<le> wk_calls st' \<and>
    (case r of Inl _ \<Rightarrow> True | Inr (ne, loc') \<Rightarrow> entries_made env (wk_calls st') (fl_task_ids loc') \<and>
       (\<forall>i. ne_task_id ne = Some i \<longrightarrow> i \<in> made env (wk_calls st')))"
proof (cases "wn_type n = NT_TASK")
  case True
  obtain adj radj out where maps: "build_adjacency_maps d = (adj, radj, out)" by (cases "build_adjacency_maps d")
  obtain r0 where r0: "process_task_node env n radj (node_types d) loc st = (r0, st')"
    and r: "r = (case r0 of Inl e \<Rightarrow> Inl e | Inr (ne, loc') \<Rightarrow> Inr (ne\<lparr>ne_node_id := qualify_id pre (wn_id n)\<rparr>, loc'))"
    using assms(4) True maps by (auto simp: handle_plain_node_def split: prod.splits sum.splits)
  from handle_task_waits[OF assms(1-3) r0] show ?thesis unfolding r by (auto split: sum.splits prod.splits)
next
  case False
  from handle_other_node[OF this assms(4)] assms(2,3) show ?thesis by (auto split: sum.splits)
qed

lemma terminal_made:
  "terminal_task_ids adj types pre ids ns = Some is \<Longrightarrow> entries_made env k ids \<Longrightarrow> set is \<subseteq> made env k"
proof (induction ns arbitrary: "is")
  case (Cons n ns)
  then obtain is0 where is0: "terminal_task_ids adj types pre ids ns = Some is0"
    and sub: "set is \<subseteq> set is0 \<union> (case ids (qualify_id pre (wn_id n)) of None \<Rightarrow> {} | Some e \<Rightarrow> set (flatten_task_ids e))"
    by (auto split: if_splits option.splits task_entry.splits)
  have "(case ids (qualify_id pre (wn_id n)) of None \<Rightarrow> {} | Some e \<Rightarrow> set (flatten_task_ids e)) \<subseteq> made env k"
    using Cons.prems(2) by (auto simp: entries_made_def split: option.splits)
  with Cons.IH[OF is0 Cons.prems(2)] sub show ?case by blast
qed simp

interpretation waits: walk_invariant undisturbed "\<lambda>_. True" waits_on_earlier
    "\<lambda>env loc st. entries_made env (wk_calls st) (fl_task_ids loc)" "\<lambda>st st'. wk_calls st \<le> wk_calls st'"
    "\<lambda>env st pre n ne. \<forall>i. ne_task_id ne = Some i \<longrightarrow> i \<in> made env (wk_calls st)"
proof (unfold_locales, goal_cases)
  case (5 env d nid n st loc pre ne loc' st')
  from handle_plain_waits[OF 5(1,5,6,7)] show ?case by simp
next
  case (6 env st loc pre d n e st')
  from handle_plain_waits[OF 6] show ?case by simp
next
  case (7 env d nid n st loc pre call vars ne loc')
  then obtain terminal where t: "collect_terminal_task_ids (sw_definition call) (qualify_id pre (wn_id n)) st = Some terminal"
    "fl_task_ids loc' = (if terminal = [] then fl_task_ids loc else (fl_task_ids loc)(wn_id n \<mapsto> Several_Tasks terminal))"
    "ne_task_id ne = None"
    by (auto simp: leave_subworkflow_def split: sum.splits option.splits)
  have "set terminal \<subseteq> made env (wk_calls st)"
    using terminal_made[OF t(1)[unfolded collect_terminal_task_ids_def], of env "wk_calls st"] 7(5)
    by (simp add: waits_on_earlier_def)
  with t 7(6) show ?case by (auto simp: entries_made_def)
next
  case (9 env st pre n ne)
  then show ?case
    by (auto simp: waits_on_earlier_def record_node_def entries_made_def update_conv' split: option.splits)
qed (auto simp: skipped_node_def initial_locals_def entries_made_def intro: made_mono[THEN subsetD])

section \<open>What an activation does\<close>

lemma load_and_validate_Inr:
  "load_and_validate env definitions i = Inr d \<longleftrightarrow> definitions i = Some d \<and> validate_workflow (ac_id_order env d) d = []"
  by (auto simp: load_and_validate_def Let_def split: option.splits)

lemma rows_start: "rows_ok (start_state e)"
  by (simp add: rows_ok_def start_state_def)

lemma built_execution_ok:
  assumes "rows_ok st" and "not_blank (wd_id d)" and "1 \<le> wd_revision d" and "not_blank (wv_activated_by (ac_walk env))"
    and "not_blank (wv_project (ac_walk env))"
  shows "execution_ok (built_execution env d st)"
    and "\<forall>ne \<in> set (xe_node_executions (built_execution env d st)). just_filed ne"
    and "map ne_node_id (xe_node_executions (built_execution env d st)) = wk_ordered_keys st"
    and "set (xe_node_executions (built_execution env d st)) = ran (wk_node_exec st)"
proof -
  have row: "\<exists>ne. wk_node_exec st q = Some ne \<and> ne_node_id ne = q \<and> node_execution_ok ne \<and> just_filed ne"
    if "q \<in> set (wk_ordered_keys st)" for q
    using assms(1) that by (auto simp: rows_ok_def)
  then have ids: "map (\<lambda>q. ne_node_id (the (wk_node_exec st q))) (wk_ordered_keys st) = wk_ordered_keys st"
    using row by (intro map_idI) (metis option.sel)
  then show "map ne_node_id (xe_node_executions (built_execution env d st)) = wk_ordered_keys st"
    by (simp add: built_execution_def Let_def comp_def)
  show "\<forall>ne \<in> set (xe_node_executions (built_execution env d st)). just_filed ne"
    using row by (force simp: built_execution_def Let_def)
  show "set (xe_node_executions (built_execution env d st)) = ran (wk_node_exec st)"
    using assms(1) by (force simp: built_execution_def Let_def rows_ok_def ran_def dom_def)
  have "list_all node_execution_ok (xe_node_executions (built_execution env d st))"
    using row by (force simp: built_execution_def Let_def list_all_iff)
  moreover have "distinct (map ne_node_id (xe_node_executions (built_execution env d st)))"
    using assms(1) ids by (simp add: built_execution_def Let_def comp_def rows_ok_def)
  ultimately show "execution_ok (built_execution env d st)"
    using assms(2-5) by (simp add: execution_ok_def built_execution_def Let_def TERMINAL_EXECUTION_STATUSES_def)
qed

lemma activate_Inr:
  assumes "activate env definitions i ctx w = (Inr x, w')"
  obtains d vars st where "definitions i = Some d" "validate_workflow (ac_id_order env d) d = []"
    "walk_frame (ac_walk env) d (root_frame d ctx) [] (start_state (aw_engine w)) = (Inr vars, st)"
    "x = built_execution env d st" "execution_ok x" "aw_executions w (xe_id x) = None"
    "w' = \<lparr>aw_engine = wk_engine st, aw_executions = (aw_executions w)(xe_id x \<mapsto> x)\<rparr>" "xe_id x = ac_execution_id env"
proof -
  obtain d where d: "load_and_validate env definitions i = Inr d"
    using assms by (auto simp: activate_def split: sum.splits)
  obtain r st where walk: "walk_frame (ac_walk env) d (root_frame d ctx) [] (start_state (aw_engine w)) = (r, st)" by fastforce
  obtain vars where r: "r = Inr vars" using assms d walk by (auto simp: activate_def split: sum.splits)
  have "xe_version (built_execution env d st) = 1" "xe_id (built_execution env d st) = ac_execution_id env"
    by (simp_all add: built_execution_def Let_def)
  with assms d walk r that[of d vars st] show thesis
    by (auto simp: activate_def Let_def save_execution_def load_and_validate_Inr split: if_splits)
qed

lemma constructed_named: "construct_definition is_iso d = Inr () \<Longrightarrow> nodes_named d \<and> 1 \<le> wd_revision d"
  by (auto simp: construct_definition_def nodes_named_def not_blank_def list_ex_iff and_then_Inr split: if_splits)

lemma activation_spec:
  assumes "activate env definitions i ctx w = (Inr x, w')" and "definitions i = Some d"
    and "construct_definition is_iso d = Inr ()" and "ids_given (ac_walk env)" and "rows.registered_ok (ac_walk env)"
  shows "execution_ok x" and "(\<forall>ne \<in> set (xe_node_executions x). just_filed ne)"
    and "wn_id ` set (wd_nodes d) \<subseteq> set (map ne_node_id (xe_node_executions x))"
    and "\<forall>n \<in> set (wd_nodes d). wn_type n \<noteq> NT_SUBWORKFLOW \<Longrightarrow>
      wf_topological_sort (map wn_id (wd_nodes d)) (fst (build_adjacency_maps d)) = Inr (map ne_node_id (xe_node_executions x)) \<and>
      xe_status x = (if \<exists>ne \<in> set (xe_node_executions x). ne_task_id ne \<noteq> None then XS_RUNNING else XS_COMPLETED)"
proof -
  from assms(1) obtain vars st where a:
    "walk_frame (ac_walk env) d (root_frame d ctx) [] (start_state (aw_engine w)) = (Inr vars, st)"
    "x = built_execution env d st" "execution_ok x"
    by (rule activate_Inr) (use assms(2) in auto)
  note named = constructed_named[OF assms(3)] and inv = rows.walk_keeps(1)[OF assms(4,5) _ rows_start a(1)]
  have st: "rows_ok st" using inv named by blast
  note x = a(3)[unfolded a(2)]
  from x have fields: "not_blank (wd_id d)" "1 \<le> wd_revision d" "not_blank (wv_activated_by (ac_walk env))"
    "not_blank (wv_project (ac_walk env))"
    by (simp_all add: execution_ok_def built_execution_def Let_def)
  note b = built_execution_ok[OF st fields]
  obtain nids where sort: "wf_topological_sort (map wn_id (wd_nodes d)) (fst (build_adjacency_maps d)) = Inr nids"
    and nodes: "walk_nodes (ac_walk env) d (root_frame d ctx) [] nids (initial_locals (root_frame d ctx)) (start_state (aw_engine w)) = (Inr vars, st)"
    using a(1) by (auto split: sum.splits)
  have wf: "wf_definition d" using construct_definition_Inr[OF assms(3)] .
  then have mset: "mset nids = mset (map wn_id (wd_nodes d))"
    using wf_topological_sort_spec[OF wf_adjacency_group[OF wf]] sort by (simp add: build_adjacency_maps_def)
  have q: "qualify_id [] i = i" for i by (simp add: qualify_id_def)
  show "execution_ok x" by (rule a(3))
  show "\<forall>ne \<in> set (xe_node_executions x). just_filed ne" using b(2) a(2) by simp
  have "set nids \<subseteq> set (wk_ordered_keys st)"
    using walk_nodes_recorded[OF assms(4,5) conjunct1[OF named] rows_start nodes] by (auto simp: q)
  then show "wn_id ` set (wd_nodes d) \<subseteq> set (map ne_node_id (xe_node_executions x))"
    unfolding a(2) b(3) using mset_eq_setD[OF mset] by simp
  assume nosub: "\<forall>n \<in> set (wd_nodes d). wn_type n \<noteq> NT_SUBWORKFLOW"
  have "distinct nids" using wf mset_eq_imp_distinct_iff[OF mset] by (simp add: wf_definition_def)
  from walk_nodes_keys[OF nosub rows_start this _ _ assms(4) conjunct1[OF named] nodes]
  have keys: "wk_ordered_keys st = nids" and linked: "linked st"
    by (simp_all add: start_state_def linked_def q map_idI)
  have "(\<exists>ne \<in> set (xe_node_executions x). ne_task_id ne \<noteq> None) \<longleftrightarrow> wk_task_ids st \<noteq> []"
    using linked b(4) by (simp add: a(2) linked_def)
  then show "wf_topological_sort (map wn_id (wd_nodes d)) (fst (build_adjacency_maps d)) = Inr (map ne_node_id (xe_node_executions x)) \<and>
      xe_status x = (if \<exists>ne \<in> set (xe_node_executions x). ne_task_id ne \<noteq> None then XS_RUNNING else XS_COMPLETED)"
    using sort b(3) keys by (simp add: a(2) built_execution_def Let_def)
qed

subsection \<open>What it waits for\<close>

definition fresh_ids :: "walk_env \<Rightarrow> engine \<Rightarrow> bool" where
  "fresh_ids env e \<longleftrightarrow> (\<forall>k. tasks e (new_id env k) = None)"

lemma waits_start: "store_ok (wv_is_iso env) e \<Longrightarrow> fresh_ids env e \<Longrightarrow> waits_on_earlier env (start_state e)"
  by (simp add: waits_on_earlier_def start_state_def entries_made_def fresh_ids_def)

lemma activate_engine:
  assumes "activate env definitions i ctx w = (r, w')"
  shows "aw_engine w' = aw_engine w \<or> (\<exists>d r' st. definitions i = Some d \<and>
    walk_frame (ac_walk env) d (root_frame d ctx) [] (start_state (aw_engine w)) = (r', st) \<and> aw_engine w' = wk_engine st)"
  using assms
  by (auto simp: activate_def Let_def load_and_validate_Inr split: sum.splits prod.splits if_splits)

lemma activation_waits_spec:
  assumes "activate env definitions i ctx w = (r, w')" and "undisturbed (ac_walk env)"
    and "store_ok (wv_is_iso (ac_walk env)) (aw_engine w)" and "fresh_ids (ac_walk env) (aw_engine w)"
  shows "store_ok (wv_is_iso (ac_walk env)) (aw_engine w')"
    and "tasks (aw_engine w') (new_id (ac_walk env) k) = Some t \<Longrightarrow> set (t_dependencies t) \<subseteq> made (ac_walk env) k"
proof -
  have reg: "waits.registered_ok (ac_walk env)" by (simp add: waits.registered_ok_def)
  have "store_ok (wv_is_iso (ac_walk env)) (aw_engine w') \<and>
     (\<forall>k t. tasks (aw_engine w') (new_id (ac_walk env) k) = Some t \<longrightarrow> set (t_dependencies t) \<subseteq> made (ac_walk env) k)"
    using activate_engine[OF assms(1)]
  proof (elim disjE exE conjE)
    assume "aw_engine w' = aw_engine w"
    with assms(3,4) show ?thesis by (simp add: fresh_ids_def)
  next
    fix d r' st assume walk: "walk_frame (ac_walk env) d (root_frame d ctx) [] (start_state (aw_engine w)) = (r', st)"
      and e: "aw_engine w' = wk_engine st"
    from waits.walk_keeps(1)[OF assms(2) reg _ waits_start[OF assms(3,4)] walk] e show ?thesis
      by (simp add: waits_on_earlier_def)
  qed
  then show "store_ok (wv_is_iso (ac_walk env)) (aw_engine w')"
    and "tasks (aw_engine w') (new_id (ac_walk env) k) = Some t \<Longrightarrow> set (t_dependencies t) \<subseteq> made (ac_walk env) k"
    by blast+
qed

subsection \<open>That it succeeds\<close>

text \<open>The engine accepts every call.\<close>

definition accepting :: "walk_env \<Rightarrow> bool" where
  "accepting env \<longleftrightarrow> ids_given env \<and> undisturbed env \<and> not_blank (wv_project env) \<and> not_blank (wv_activated_by env) \<and>
     (\<forall>k. not_blank (sc_request_id (wv_calls env k)) \<and> sc_refused (wv_calls env k) = None \<and>
        \<not> env_save_raises (sc_env (wv_calls env k)))"

text \<open>A node that no handler refuses.\<close>

definition runnable_node :: "variables \<Rightarrow> wf_node \<Rightarrow> bool" where
  "runnable_node ctx n \<longleftrightarrow> wn_type n \<noteq> NT_SUBWORKFLOW \<and> wn_type n \<noteq> NT_AGENT_ASSIGNMENT \<and>
     (wn_type n = NT_CONDITIONAL \<longrightarrow>
        (\<exists>b. evaluate_condition (case wn_config n ''condition_expression'' of None \<Rightarrow> ''false'' | Some v \<Rightarrow> py_str v) ctx = Inr b)) \<and>
     (wn_type n = NT_TASK \<longrightarrow> (\<exists>c. parse_task_config n = Inr c \<and> not_blank (tc_title c) \<and>
        length (tc_title c) \<le> MAX_TASK_TITLE_LENGTH \<and> not_blank (tc_description c) \<and>
        length (tc_description c) \<le> MAX_TASK_DESCRIPTION_LENGTH))"

definition unassigned :: "variables \<Rightarrow> frame_locals \<Rightarrow> bool" where
  "unassigned ctx loc \<longleftrightarrow> fl_pending loc = Map.empty \<and> fl_vars loc = ctx"

lemma task_node_succeeds:
  assumes "accepting env" and "wf_definition d" and "runnable_node ctx n" and "wn_type n = NT_TASK" and "unassigned ctx loc"
    and "waits_on_earlier env st" and "entries_made env (wk_calls st) (fl_task_ids loc)"
  shows "\<exists>ne loc' st'. process_task_node env n (group_edges ed_target ed_source (wd_edges d)) (node_types d) loc st =
    (Inr (ne, loc'), st') \<and> unassigned ctx loc'"
proof -
  obtain c where c: "parse_task_config n = Inr c" "not_blank (tc_title c)" "length (tc_title c) \<le> MAX_TASK_TITLE_LENGTH"
    "not_blank (tc_description c)" "length (tc_description c) \<le> MAX_TASK_DESCRIPTION_LENGTH"
    using assms(3,4) by (auto simp: runnable_node_def)
  have pending: "fl_pending loc = Map.empty" using assms(5) by (simp add: unassigned_def)
  let ?up = "sorted_list_of_set (upstream_tasks d (fl_task_ids loc) (fl_skipped loc) (wn_id n))"
  have up: "find_upstream_task_ids (wn_id n) (group_edges ed_target ed_source (wd_edges d)) (node_types d) (fl_task_ids loc) (fl_skipped loc) = Some ?up"
    using find_upstream_spec[OF assms(2)] by blast
  have made: "set ?up \<subseteq> made env (wk_calls st)" by (rule find_upstream_made[OF up assms(7)])
  have "new_id env (wk_calls st) \<notin> made env (wk_calls st)"
    using assms(1) by (auto simp: made_def accepting_def undisturbed_def dest: injD)
  with made have fresh: "env_new_id (sc_env (wv_calls env (wk_calls st))) \<notin> set ?up" by (auto simp: new_id_def)
  have named: "list_all not_blank ?up"
    using made assms(1) by (fastforce simp: list_all_iff made_def accepting_def ids_given_def)
  let ?data = "task_data env c None ?up"
  have ok: "create_data_ok ?data"
    using c(2-5) named assms(1) by (simp add: create_data_ok_def task_data_def accepting_def)
  have "not_blank ''workflow-engine''" by code_simp
  then obtain e' where "create_task (wv_is_iso env) (wv_calls env (wk_calls st)) ?data ''workflow-engine'' (wk_engine st) =
      (Inr (create_row (sc_env (wv_calls env (wk_calls st))) ?data), e')"
    using create_task_succeeds[OF _ _ ok, of "wv_calls env (wk_calls st)" "''workflow-engine''"] assms(1) fresh
    by (force simp: accepting_def task_data_def)
  then show ?thesis using c(1) up ok pending assms(5) by (simp add: process_task_node_def Let_def unassigned_def)
qed

lemma plain_node_succeeds:
  assumes "accepting env" and "wf_definition d" and "runnable_node ctx n" and "unassigned ctx loc"
    and "waits_on_earlier env st" and "entries_made env (wk_calls st) (fl_task_ids loc)"
  shows "\<exists>ne loc' st'. handle_plain_node env pre d n loc st = (Inr (ne, loc'), st') \<and> unassigned ctx loc'"
proof (cases "wn_type n")
  case NT_TASK
  from task_node_succeeds[OF assms(1-3) NT_TASK assms(4-6)] NT_TASK show ?thesis
    by (auto simp: handle_plain_node_def build_adjacency_maps_def)
next
  case NT_CONDITIONAL
  with assms(3) obtain b where "evaluate_condition
      (case wn_config n ''condition_expression'' of None \<Rightarrow> ''false'' | Some v \<Rightarrow> py_str v) (fl_vars loc) = Inr b"
    using assms(4) by (auto simp: runnable_node_def unassigned_def)
  then show ?thesis using NT_CONDITIONAL assms(4)
    by (auto simp: handle_plain_node_def build_adjacency_maps_def process_conditional_node_def Let_def unassigned_def)
qed (use assms(3,4) in \<open>auto simp: handle_plain_node_def build_adjacency_maps_def runnable_node_def unassigned_def
      split: prod.splits\<close>)

lemma walk_nodes_succeeds:
  assumes "accepting env" and "wf_definition d" and "\<forall>n \<in> set (wd_nodes d). runnable_node ctx n"
    and "set nids \<subseteq> wn_id ` set (wd_nodes d)" and "unassigned ctx loc"
    and "waits_on_earlier env st" and "entries_made env (wk_calls st) (fl_task_ids loc)"
  shows "\<exists>vars st'. walk_nodes env d frame pre nids loc st = (Inr vars, st')"
  using assms(4-7)
proof (induction nids arbitrary: loc st)
  case (Cons nid nids)
  have und: "undisturbed env" using assms(1) by (simp add: accepting_def)
  obtain n where n: "node_map d nid = Some n" "n \<in> set (wd_nodes d)"
    using Cons.prems(1) node_map_facts(1)[OF assms(2), of nid] by auto
  have run: "runnable_node ctx n" using assms(3) n(2) by blast
  note id = waits.node_map_id[OF n(1)]
  show ?case
  proof (cases "nid \<in> fl_skipped loc")
    case True
    note rec = waits.record_step[OF und Cons.prems(3,4) waits.skipping[where env = env and st = st and pre = pre, OF TrueI n(1), unfolded id] id]
    from Cons.IH[OF _ Cons.prems(2), of "record_node (qualify_id pre nid) (skipped_node (qualify_id pre nid) (wn_type n)) st"] rec
      Cons.prems(1) True n(1) show ?thesis by simp
  next
    case False
    obtain ne loc' st1 where h: "handle_plain_node env pre d n loc st = (Inr (ne, loc'), st1)" "unassigned ctx loc'"
      using plain_node_succeeds[OF assms(1,2) run Cons.prems(2-4)] by blast
    from handle_plain_waits[OF und Cons.prems(3,4) h(1)]
    have st1: "waits_on_earlier env st1" "entries_made env (wk_calls st1) (fl_task_ids loc')"
      "\<forall>i. ne_task_id ne = Some i \<longrightarrow> i \<in> made env (wk_calls st1)" by auto
    note rec = waits.record_step[OF und st1(1,2,3) id, of pre]
    have "wn_type n \<noteq> NT_SUBWORKFLOW" using run by (simp add: runnable_node_def)
    with Cons.IH[OF _ h(2), of "record_node (qualify_id pre nid) ne st1"] rec Cons.prems(1) False n(1) h(1)
    show ?thesis by simp
  qed
qed simp

lemma walk_succeeds:
  assumes "accepting env" and "wf_definition d" and "\<forall>n \<in> set (wd_nodes d). runnable_node ctx n"
    and "wf_topological_sort (map wn_id (wd_nodes d)) (fst (build_adjacency_maps d)) = Inr nids"
    and "store_ok (wv_is_iso env) e" and "fresh_ids env e"
  shows "\<exists>vars st. walk_frame env d (root_frame d ctx) [] (start_state e) = (Inr vars, st)"
proof -
  have "mset nids = mset (map wn_id (wd_nodes d))"
    using wf_topological_sort_spec[OF wf_adjacency_group[OF assms(2)]] assms(4) by (simp add: build_adjacency_maps_def)
  from mset_eq_setD[OF this] have ids: "set nids \<subseteq> wn_id ` set (wd_nodes d)" by simp
  have "unassigned ctx (initial_locals (root_frame d ctx))" by (simp add: unassigned_def initial_locals_def root_frame_def)
  from walk_nodes_succeeds[OF assms(1-3) ids this waits_start[OF assms(5,6)]] assms(4) show ?thesis
    by (simp add: initial_locals_def entries_made_def)
qed

lemma activation_succeeds_spec:
  assumes "definitions i = Some d" and "construct_definition is_iso d = Inr ()" and "not_blank (wd_id d)"
    and "set (ac_id_order env d) = wn_id ` set (wd_nodes d)" and "ready_to_run d"
    and "\<forall>n \<in> set (wd_nodes d). runnable_node ctx n" and "accepting (ac_walk env)"
    and "store_ok (wv_is_iso (ac_walk env)) (aw_engine w)" and "fresh_ids (ac_walk env) (aw_engine w)"
    and "aw_executions w (ac_execution_id env) = None" and "\<not> ac_save_fails env"
  shows "\<exists>x w'. activate env definitions i ctx w = (Inr x, w') \<and>
    aw_executions w' = (aw_executions w)(ac_execution_id env \<mapsto> x)"
proof -
  note wf = construct_definition_Inr[OF assms(2)] and named = constructed_named[OF assms(2)]
  have load: "load_and_validate env definitions i = Inr d"
    using validate_workflow_spec[OF wf assms(4)] assms(1,5) by (simp add: load_and_validate_Inr)
  have "acyclic (arcs_in (map wn_id (wd_nodes d)) (fst (build_adjacency_maps d)))"
    using assms(5) wf by (simp add: ready_to_run_def build_adjacency_maps_def arcs_in_group)
  then obtain nids where sort: "wf_topological_sort (map wn_id (wd_nodes d)) (fst (build_adjacency_maps d)) = Inr nids"
    using wf_topological_sort_spec[OF wf_adjacency_group[OF wf]]
    by (cases "wf_topological_sort (map wn_id (wd_nodes d)) (fst (build_adjacency_maps d))") (auto simp: build_adjacency_maps_def)
  obtain vars st where walk: "walk_frame (ac_walk env) d (root_frame d ctx) [] (start_state (aw_engine w)) = (Inr vars, st)"
    using walk_succeeds[OF assms(7) wf assms(6) sort assms(8,9)] by blast
  have env: "ids_given (ac_walk env)" "not_blank (wv_activated_by (ac_walk env))" "not_blank (wv_project (ac_walk env))"
    using assms(7) by (simp_all add: accepting_def)
  have nodes: "walk_nodes (ac_walk env) d (root_frame d ctx) [] nids (initial_locals (root_frame d ctx)) (start_state (aw_engine w)) = (Inr vars, st)"
    using walk sort by simp
  have "mset nids = mset (map wn_id (wd_nodes d))"
    using wf_topological_sort_spec[OF wf_adjacency_group[OF wf]] sort by (simp add: build_adjacency_maps_def)
  then have "distinct nids" using wf mset_eq_imp_distinct_iff by (metis wf_definition_def)
  moreover have "\<forall>n \<in> set (wd_nodes d). wn_type n \<noteq> NT_SUBWORKFLOW" using assms(6) by (simp add: runnable_node_def)
  ultimately have "rows_ok st"
    using walk_nodes_keys[OF _ rows_start _ _ _ env(1) conjunct1[OF named] nodes] by (simp add: start_state_def linked_def)
  from built_execution_ok(1)[OF this assms(3) _ env(2,3)] named
  have "execution_ok (built_execution env d st)" by blast
  moreover have "xe_version (built_execution env d st) = 1" "xe_id (built_execution env d st) = ac_execution_id env"
    by (simp_all add: built_execution_def Let_def)
  ultimately show ?thesis using load walk assms(10,11) by (simp add: activate_def Let_def save_execution_def)
qed

section \<open>A sample activation\<close>

definition demo_call :: "nat \<Rightarrow> service_call" where
  "demo_call k = \<lparr>sc_request_id = ''r'', sc_refused = None, sc_others = [],
     sc_env = demo_env\<lparr>env_new_id := replicate (Suc k) (CHR ''t'')\<rparr>\<rparr>"

definition demo_walk_env :: walk_env where
  "demo_walk_env = \<lparr>wv_is_iso = (\<lambda>_. True), wv_calls = demo_call, wv_registry = None, wv_project = ''p'',
     wv_activated_by = ''ceo'', wv_max_depth = 8\<rparr>"

definition demo_activation :: activation_env where
  "demo_activation = \<lparr>ac_walk = demo_walk_env, ac_id_order = (\<lambda>d. map wn_id (wd_nodes d)), ac_execution_id = ''x1'',
     ac_now = 9, ac_save_fails = False\<rparr>"

definition demo_world :: activation_world where
  "demo_world = \<lparr>aw_engine = empty_engine, aw_executions = Map.empty\<rparr>"

definition demo_vars :: variables where "demo_vars = [''env'' \<mapsto> V_Str ''dev'']"

lemma demo_new_id: "new_id demo_walk_env k = replicate (Suc k) (CHR ''t'')"
  by (simp add: new_id_def demo_walk_env_def demo_call_def)

lemma demo_ids_given: "ids_given demo_walk_env"
  unfolding ids_given_def demo_new_id by (simp add: not_blank_def blank_def py_space_def)

lemma demo_undisturbed: "undisturbed demo_walk_env"
proof -
  have "inj (new_id demo_walk_env)" by (rule injI) (metis demo_new_id length_replicate nat.inject)
  then show ?thesis by (simp add: undisturbed_def demo_walk_env_def demo_call_def)
qed

lemma demo_accepting: "accepting demo_walk_env"
proof -
  have "not_blank ''p''" "not_blank ''ceo''" "not_blank ''r''" by code_simp+
  with demo_ids_given demo_undisturbed show ?thesis
    by (simp add: accepting_def demo_walk_env_def demo_call_def demo_env_def)
qed

lemma demo_engine: "store_ok is_iso empty_engine" "fresh_ids env empty_engine"
  by (simp_all add: store_ok_def fresh_ids_def empty_engine_def repo_get_def)

lemma demo_constructed: "construct_definition (\<lambda>_. False) demo_workflow = Inr ()"
  by code_simp

lemma demo_ready: "ready_to_run demo_workflow"
proof -
  have "validate_workflow (map wn_id (wd_nodes demo_workflow)) demo_workflow = []" by code_simp
  then show ?thesis using validate_workflow_spec[OF construct_definition_Inr[OF demo_constructed]] by auto
qed

definition legal_task :: "wf_node \<Rightarrow> bool" where
  "legal_task n \<longleftrightarrow> (case parse_task_config n of Inl _ \<Rightarrow> False | Inr c \<Rightarrow> not_blank (tc_title c) \<and>
     length (tc_title c) \<le> MAX_TASK_TITLE_LENGTH \<and> not_blank (tc_description c) \<and>
     length (tc_description c) \<le> MAX_TASK_DESCRIPTION_LENGTH)"

lemma legal_task_iff:
  "legal_task n \<longleftrightarrow> (\<exists>c. parse_task_config n = Inr c \<and> not_blank (tc_title c) \<and>
     length (tc_title c) \<le> MAX_TASK_TITLE_LENGTH \<and> not_blank (tc_description c) \<and>
     length (tc_description c) \<le> MAX_TASK_DESCRIPTION_LENGTH)"
  by (auto simp: legal_task_def split: sum.splits)

lemma demo_runnable: "\<forall>n \<in> set (wd_nodes demo_workflow). runnable_node demo_vars n"
proof -
  have tasks: "list_all (\<lambda>n. wn_type n = NT_TASK \<longrightarrow> legal_task n) (wd_nodes demo_workflow)" by code_simp
  have kinds: "list_all (\<lambda>n. wn_type n \<noteq> NT_SUBWORKFLOW \<and> wn_type n \<noteq> NT_AGENT_ASSIGNMENT) (wd_nodes demo_workflow)" by code_simp
  have conds: "list_all (\<lambda>n. wn_type n = NT_CONDITIONAL \<longrightarrow>
      evaluate_condition (case wn_config n ''condition_expression'' of None \<Rightarrow> ''false'' | Some v \<Rightarrow> py_str v) demo_vars = Inr True)
      (wd_nodes demo_workflow)" by code_simp
  show ?thesis
    using tasks kinds conds by (auto simp: list_all_iff runnable_node_def legal_task_iff)
qed

lemma demo_activates:
  "\<exists>x w'. activate demo_activation [''w1'' \<mapsto> demo_workflow] ''w1'' demo_vars demo_world = (Inr x, w') \<and>
    aw_executions w' = [''x1'' \<mapsto> x]"
proof -
  have "not_blank ''w1''" by code_simp
  with activation_succeeds_spec[of "[''w1'' \<mapsto> demo_workflow]" "''w1''" demo_workflow "\<lambda>_. False" demo_activation demo_vars demo_world]
    demo_constructed demo_ready demo_runnable demo_accepting demo_engine
  show ?thesis by (simp add: demo_activation_def demo_world_def) (simp add: demo_workflow_def)
qed

text \<open>Two tasks in a row.\<close>

definition line_workflow :: workflow_definition where
  "line_workflow =
     \<lparr>wd_id = ''w3'', wd_version = ''1.0.0'', wd_inputs = [], wd_outputs = [], wd_is_subworkflow = False,
      wd_nodes =
        [demo_node ''start'' NT_START [], demo_node ''build'' NT_TASK [(''title'', V_Str ''Build'')],
         demo_node ''ship'' NT_TASK [(''title'', V_Str ''Ship'')], demo_node ''end'' NT_END []],
      wd_edges =
        [demo_edge ''e1'' ''start'' ''build'' ET_SEQUENTIAL, demo_edge ''e2'' ''build'' ''ship'' ET_SEQUENTIAL,
         demo_edge ''e3'' ''ship'' ''end'' ET_SEQUENTIAL],
      wd_revision = 1\<rparr>"

section \<open>The claims\<close>

text \<open>C8. A workflow that is valid for execution, whose tasks are well formed and whose conditions can be
  evaluated, is always activated: with an engine that takes its requests, no condition,
  order of edges or shape of the graph makes the walk fail, and the execution is stored under its new id.
  Subworkflow calls and agent assignments are the exceptions.\<close>

theorem ready_workflow_activates:
  assumes "definitions i = Some d" and "construct_definition is_iso d = Inr ()" and "not_blank (wd_id d)"
    and "set (ac_id_order env d) = wn_id ` set (wd_nodes d)" and "ready_to_run d"
    and "\<forall>n \<in> set (wd_nodes d). runnable_node ctx n" and "accepting (ac_walk env)"
    and "store_ok (wv_is_iso (ac_walk env)) (aw_engine w)" and "fresh_ids (ac_walk env) (aw_engine w)"
    and "aw_executions w (ac_execution_id env) = None" and "\<not> ac_save_fails env"
  shows "\<exists>x w'. activate env definitions i ctx w = (Inr x, w') \<and>
    aw_executions w' = (aw_executions w)(ac_execution_id env \<mapsto> x)"
  using assms by (rule activation_succeeds_spec)

theorem ready_workflow_activates_witness:
  "\<exists>x w'. activate demo_activation [''w1'' \<mapsto> demo_workflow] ''w1'' demo_vars demo_world = (Inr x, w') \<and>
    aw_executions w' ''x1'' = Some x"
proof -
  have "not_blank ''w1''" by code_simp
  with ready_workflow_activates[of "[''w1'' \<mapsto> demo_workflow]" "''w1''" demo_workflow "\<lambda>_. False" demo_activation demo_vars demo_world]
    demo_constructed demo_ready demo_runnable demo_accepting demo_engine
  show ?thesis by (simp add: demo_activation_def demo_world_def) (auto simp: demo_workflow_def)
qed

text \<open>C10. A successful activation stores a valid execution that accounts for every node of the
  definition once. Without subworkflows its records are exactly the nodes in the order of the sort, and it
  is RUNNING exactly when it has a task, COMPLETED at once otherwise.\<close>

theorem activation_accounts_for_every_node:
  assumes "activate env definitions i ctx w = (Inr x, w')" and "definitions i = Some d"
    and "construct_definition is_iso d = Inr ()" and "ids_given (ac_walk env)"
    and "\<forall>registry key child. wv_registry (ac_walk env) = Some registry \<longrightarrow> registry key = Some child \<longrightarrow>
      (\<exists>is_iso. construct_definition is_iso child = Inr ())"
  shows "execution_ok x \<and> xe_definition_id x = wd_id d \<and> xe_version x = 1 \<and>
    aw_executions w (xe_id x) = None \<and> aw_executions w' = (aw_executions w)(xe_id x \<mapsto> x) \<and>
    (\<forall>n \<in> set (wd_nodes d). \<exists>!ne. ne \<in> set (xe_node_executions x) \<and> ne_node_id ne = wn_id n) \<and>
    ((\<forall>n \<in> set (wd_nodes d). wn_type n \<noteq> NT_SUBWORKFLOW) \<longrightarrow>
      wf_topological_sort (map wn_id (wd_nodes d)) (fst (build_adjacency_maps d)) = Inr (map ne_node_id (xe_node_executions x)) \<and>
      xe_status x = (if \<exists>ne \<in> set (xe_node_executions x). ne_task_id ne \<noteq> None then XS_RUNNING else XS_COMPLETED))"
proof -
  have reg: "rows.registered_ok (ac_walk env)"
    using assms(5) constructed_named unfolding rows.registered_ok_def by blast
  note spec = activation_spec[OF assms(1-4) reg]
  from assms(1) obtain st where b: "x = built_execution env d st" "aw_executions w (xe_id x) = None"
    "aw_executions w' = (aw_executions w)(xe_id x \<mapsto> x)"
    by (rule activate_Inr) (use assms(2) in auto)
  have "distinct (map ne_node_id (xe_node_executions x))" using spec(1) by (simp add: execution_ok_def)
  then have "inj_on ne_node_id (set (xe_node_executions x))" by (simp add: distinct_map)
  moreover have "\<exists>ne \<in> set (xe_node_executions x). ne_node_id ne = wn_id n" if "n \<in> set (wd_nodes d)" for n
    using spec(3) that by (force simp: image_iff)
  ultimately have "\<forall>n \<in> set (wd_nodes d). \<exists>!ne. ne \<in> set (xe_node_executions x) \<and> ne_node_id ne = wn_id n"
    by (metis inj_onD)
  moreover have "xe_definition_id x = wd_id d" "xe_version x = 1" by (simp_all add: b(1) built_execution_def Let_def)
  ultimately show ?thesis using spec(1,4) b(2,3) by blast
qed

theorem activation_accounts_for_every_node_witness:
  "\<exists>x w'. activate demo_activation [''w1'' \<mapsto> demo_workflow] ''w1'' demo_vars demo_world = (Inr x, w') \<and>
    map ne_node_id (xe_node_executions x) = [''start'', ''check'', ''fork'', ''report'', ''build'', ''test'', ''join'', ''end'']"
proof -
  obtain x w' where a: "activate demo_activation [''w1'' \<mapsto> demo_workflow] ''w1'' demo_vars demo_world = (Inr x, w')"
    using demo_activates by blast
  have env: "ids_given (ac_walk demo_activation)" "wv_registry (ac_walk demo_activation) = None"
    using demo_ids_given by (simp_all add: demo_activation_def demo_walk_env_def)
  have "\<forall>n \<in> set (wd_nodes demo_workflow). wn_type n \<noteq> NT_SUBWORKFLOW" using demo_runnable by (simp add: runnable_node_def)
  moreover have "wf_topological_sort (map wn_id (wd_nodes demo_workflow)) (fst (build_adjacency_maps demo_workflow)) =
      Inr [''start'', ''check'', ''fork'', ''report'', ''build'', ''test'', ''join'', ''end'']" by code_simp
  ultimately show ?thesis
    using activation_accounts_for_every_node[OF a _ demo_constructed env(1)] env(2) a by fastforce
qed

text \<open>C9. Whatever an activation meets, success or failure, and whatever others do to other tasks
  meanwhile, the tasks it has filed wait only for tasks it filed before them: the tasks of a
  workflow never wait for each other in a circle.\<close>

theorem activation_waits_only_on_earlier:
  assumes "activate env definitions i ctx w = (r, w')" and "undisturbed (ac_walk env)"
    and "store_ok (wv_is_iso (ac_walk env)) (aw_engine w)" and "fresh_ids (ac_walk env) (aw_engine w)"
    and "tasks (aw_engine w') (new_id (ac_walk env) k) = Some t"
  shows "task_valid (wv_is_iso (ac_walk env)) t \<and> (\<forall>dep \<in> set (t_dependencies t). \<exists>j < k. dep = new_id (ac_walk env) j)"
proof -
  have "task_valid (wv_is_iso (ac_walk env)) t"
    using activation_waits_spec(1)[OF assms(1-4)] assms(5) unfolding store_ok_def repo_get_def by blast
  with activation_waits_spec(2)[OF assms(1-5)] show ?thesis by (auto simp: made_def)
qed

theorem activation_waits_only_on_earlier_witness:
  "\<exists>t. tasks (aw_engine (snd (activate demo_activation [''w3'' \<mapsto> line_workflow] ''w3'' Map.empty demo_world)))
       (new_id demo_walk_env 1) = Some t \<and> t_dependencies t = [new_id demo_walk_env 0] \<and>
     task_valid (\<lambda>_. True) t"
proof -
  let ?run = "activate demo_activation [''w3'' \<mapsto> line_workflow] ''w3'' Map.empty demo_world"
  have "map_option t_dependencies (tasks (aw_engine (snd ?run)) ''tt'') = Some [''t'']" by code_simp
  then obtain t where t: "tasks (aw_engine (snd ?run)) ''tt'' = Some t" "t_dependencies t = [''t'']" by auto
  have ids: "new_id (ac_walk demo_activation) 1 = ''tt''" "new_id demo_walk_env 1 = ''tt''" "new_id demo_walk_env 0 = ''t''"
    using demo_new_id[of 1] demo_new_id[of 0] by (simp_all add: demo_activation_def)
  have env: "ac_walk demo_activation = demo_walk_env" "aw_engine demo_world = empty_engine" "wv_is_iso demo_walk_env = (\<lambda>_. True)"
    by (simp_all add: demo_activation_def demo_world_def demo_walk_env_def)
  have "task_valid (\<lambda>_. True) t"
    using activation_waits_only_on_earlier[where env = demo_activation and w = demo_world, OF prod.collapse[symmetric], of _ _ _ 1 t]
      demo_undisturbed demo_engine t(1) ids(1) env by fastforce
  with t show ?thesis unfolding ids by blast
qed



text \<open>A condition skips exactly the untaken branch: besides what was skipped before, the nodes that can be
  reached from the target of the other edge and not from the target of the edge taken.\<close>

theorem condition_skips_untaken_branch:
  assumes "build_adjacency_maps d = (adj, radj, outgoing)"
    and "evaluate_condition (case wn_config n ''condition_expression'' of None \<Rightarrow> ''false'' | Some v \<Rightarrow> py_str v) vars = Inr b"
    and "edge_target (targets outgoing (wn_id n)) (if b then ET_CONDITIONAL_TRUE else ET_CONDITIONAL_FALSE) = Some taken"
    and "edge_target (targets outgoing (wn_id n)) (if b then ET_CONDITIONAL_FALSE else ET_CONDITIONAL_TRUE) = Some untaken"
  shows "process_conditional_node n outgoing adj vars skipped =
    Inr (completed_node (wn_id n) (wn_type n),
      skipped \<union> {m. (untaken, m) \<in> (edge_rel d)\<^sup>* \<and> (taken, m) \<notin> (edge_rel d)\<^sup>*})"
proof -
  have "arcs adj = edge_rel d" using assms(1) by (auto simp: build_adjacency_maps_def arcs_group)
  then show ?thesis
    using assms(2-4) by (cases b) (simp_all add: process_conditional_node_def find_skipped_nodes_spec)
qed

section \<open>Where the code departs from its documentation\<close>

text \<open>An assignment in front of a task: the workflow is valid, and no activation of it succeeds.\<close>

definition assigned_workflow :: workflow_definition where
  "assigned_workflow =
     \<lparr>wd_id = ''w2'', wd_version = ''1.0.0'', wd_inputs = [], wd_outputs = [], wd_is_subworkflow = False,
      wd_nodes =
        [demo_node ''start'' NT_START [], demo_node ''pick'' NT_AGENT_ASSIGNMENT [(''agent_name'', V_Str ''ada'')],
         demo_node ''build'' NT_TASK [(''title'', V_Str ''Build'')], demo_node ''end'' NT_END []],
      wd_edges =
        [demo_edge ''e1'' ''start'' ''pick'' ET_SEQUENTIAL, demo_edge ''e2'' ''pick'' ''build'' ET_SEQUENTIAL,
         demo_edge ''e3'' ''build'' ''end'' ET_SEQUENTIAL],
      wd_revision = 1\<rparr>"

lemma assigned_task_never_filed:
  "fl_pending loc (wn_id n) = Some a \<Longrightarrow> process_task_node env n radj types loc st \<noteq> (Inr (ne, loc'), st')"
  using process_task_node_Inr by fastforce

lemma assigned_workflow_never_runs:
  "construct_definition (\<lambda>_. False) assigned_workflow = Inr ()"
  "validate_workflow (map wn_id (wd_nodes assigned_workflow)) assigned_workflow = []"
  "fst (activate demo_activation [''w2'' \<mapsto> assigned_workflow] ''w2'' demo_vars demo_world) =
     Inl (Walk_Failed (Task_Not_Created ''build'' (Mutation_Refused (Some VALIDATION))))"
  by code_simp+

text \<open>A node of a parallel branch, reachable without the condition, is skipped all the same.\<close>

definition parallel_edges :: "wf_edge list" where
  "parallel_edges =
     [demo_edge ''e1'' ''fork'' ''check'' ET_PARALLEL_BRANCH, demo_edge ''e2'' ''fork'' ''build'' ET_PARALLEL_BRANCH,
      demo_edge ''e3'' ''check'' ''fast'' ET_CONDITIONAL_TRUE, demo_edge ''e4'' ''check'' ''ship'' ET_CONDITIONAL_FALSE,
      demo_edge ''e5'' ''build'' ''ship'' ET_SEQUENTIAL]"

lemma other_branch_skipped:
  "''ship'' \<in> find_skipped_nodes ''ship'' ''fast'' (group_edges ed_source ed_target parallel_edges)"
  by code_simp

text \<open>The last tasks of a subworkflow are missed when they meet in a join before END.\<close>

lemma joined_tasks_missed:
  "collect_terminal_task_ids demo_workflow ''s''
     ((start_state empty_engine)\<lparr>wk_task_ids := [(''s::build'', One_Task ''t1''), (''s::test'', One_Task ''t2'')]\<rparr>) = Some []"
  by code_simp

text \<open>Qualified and plain node ids can be the same text.\<close>

lemma qualified_ids_collide: "qualify_id [] ''a::b'' = qualify_id ''a'' ''b''"
  by code_simp

end
