(* ===== verification/Workflow_Lifecycle.thy ===== *)
theory Workflow_Lifecycle
  imports Workflow_Activation
begin

text \<open>
  The life of an execution row after its activation
  (\<open>engine/workflow/execution_lifecycle.py\<close>) over the rows of the repository
  (\<open>persistence/sqlite/workflow_execution_repo.py\<close>): cancelling, completing and failing it, and
  what a task event of the engine does to it.

  A handler reads a row, computes its successor and saves it; what others do to the store
  between the two is a function of the handler's environment. The step relation at the
  end takes the reads and the saves of all handlers apart: a save may rest on any row
  ever read. Logs, spans and metrics are not modelled.
\<close>

section \<open>Reading\<close>

datatype lifecycle_error =
    Execution_Missing ident
  | Execution_Terminal ident workflow_execution_status
  | Execution_Not_Running ident workflow_execution_status
  | Row_Malformed ident
  | Read_Failed
  | Write_Failed save_error
  | Task_Unknown ident

record io_env =
  io_read_fails :: bool
  io_others :: "execution_store \<Rightarrow> execution_store"
  io_save_fails :: bool
  io_reread_fails :: bool
  io_now :: int
  io_later :: int

text \<open>\<open>get\<close>: a row is validated when it is read.\<close>

definition get_execution :: "bool \<Rightarrow> ident \<Rightarrow> execution_store \<Rightarrow> (lifecycle_error, workflow_execution option) outcome" where
  "get_execution fails i rows =
     (if fails then Inl Read_Failed
      else case rows i of
             None \<Rightarrow> Inr None
           | Some row \<Rightarrow> if execution_ok row then Inr (Some row) else Inl (Row_Malformed i))"

definition linked_task :: "ident \<Rightarrow> workflow_execution \<Rightarrow> bool" where
  "linked_task task_id x \<longleftrightarrow> list_ex (\<lambda>ne. ne_task_id ne = Some task_id) (xe_node_executions x)"

text \<open>The row a scan of the table meets first; \<open>scan\<close> is the order of the scan.\<close>

definition find_by_task_id ::
  "bool \<Rightarrow> ident list \<Rightarrow> ident \<Rightarrow> execution_store \<Rightarrow> (lifecycle_error, workflow_execution option) outcome" where
  "find_by_task_id fails scan task_id rows =
     (if fails then Inl Read_Failed
      else case find (\<lambda>i. case rows i of None \<Rightarrow> False | Some x \<Rightarrow> xe_status x = XS_RUNNING \<and> linked_task task_id x) scan of
             None \<Rightarrow> Inr None
           | Some i \<Rightarrow> get_execution False i rows)"

definition load_running :: "bool \<Rightarrow> ident \<Rightarrow> execution_store \<Rightarrow> (lifecycle_error, workflow_execution) outcome" where
  "load_running fails i rows =
     (case get_execution fails i rows of
        Inl e \<Rightarrow> Inl e
      | Inr None \<Rightarrow> Inl (Execution_Missing i)
      | Inr (Some x) \<Rightarrow> if xe_status x \<noteq> XS_RUNNING then Inl (Execution_Not_Running i (xe_status x)) else Inr x)"

section \<open>Ending an execution\<close>

definition cancelled_row :: "int \<Rightarrow> workflow_execution \<Rightarrow> workflow_execution" where
  "cancelled_row now x =
     x\<lparr>xe_status := XS_CANCELLED, xe_updated_at := now, xe_completed_at := Some now, xe_version := xe_version x + 1\<rparr>"

definition completed_row :: "int \<Rightarrow> workflow_execution \<Rightarrow> workflow_execution" where
  "completed_row now x =
     x\<lparr>xe_status := XS_COMPLETED, xe_updated_at := now, xe_completed_at := Some now, xe_version := xe_version x + 1\<rparr>"

definition failed_row :: "int \<Rightarrow> string \<Rightarrow> workflow_execution \<Rightarrow> workflow_execution" where
  "failed_row now err x =
     x\<lparr>xe_status := XS_FAILED, xe_error := Some err, xe_updated_at := now, xe_completed_at := Some now,
       xe_version := xe_version x + 1\<rparr>"

definition save_row :: "io_env \<Rightarrow> workflow_execution \<Rightarrow> execution_store \<Rightarrow> (lifecycle_error, workflow_execution) outcome \<times> execution_store" where
  "save_row env x rows =
     (case save_execution (io_save_fails env) x (io_others env rows) of
        Inl e \<Rightarrow> (Inl (Write_Failed e), io_others env rows)
      | Inr rows' \<Rightarrow> (Inr x, rows'))"

definition cancel_execution ::
  "io_env \<Rightarrow> ident \<Rightarrow> execution_store \<Rightarrow> (lifecycle_error, workflow_execution) outcome \<times> execution_store" where
  "cancel_execution env i rows =
     (case get_execution (io_read_fails env) i rows of
        Inl e \<Rightarrow> (Inl e, rows)
      | Inr None \<Rightarrow> (Inl (Execution_Missing i), rows)
      | Inr (Some x) \<Rightarrow>
          if xe_status x \<in> set TERMINAL_EXECUTION_STATUSES then (Inl (Execution_Terminal i (xe_status x)), rows)
          else (case save_row env (cancelled_row (io_now env) x) rows of
                  (Inl (Write_Failed Execution_Conflict), rows') \<Rightarrow>
                    (case get_execution (io_reread_fails env) i rows' of
                       Inl e \<Rightarrow> (Inl e, rows')
                     | Inr _ \<Rightarrow> (Inl (Write_Failed Execution_Conflict), rows'))
                | result \<Rightarrow> result))"

definition complete_execution ::
  "io_env \<Rightarrow> ident \<Rightarrow> execution_store \<Rightarrow> (lifecycle_error, workflow_execution) outcome \<times> execution_store" where
  "complete_execution env i rows =
     (case load_running (io_read_fails env) i rows of
        Inl e \<Rightarrow> (Inl e, rows)
      | Inr x \<Rightarrow> save_row env (completed_row (io_now env) x) rows)"

definition fail_execution ::
  "io_env \<Rightarrow> ident \<Rightarrow> string \<Rightarrow> execution_store \<Rightarrow> (lifecycle_error, workflow_execution) outcome \<times> execution_store" where
  "fail_execution env i err rows =
     (case load_running (io_read_fails env) i rows of
        Inl e \<Rightarrow> (Inl e, rows)
      | Inr x \<Rightarrow> save_row env (failed_row (io_now env) err x) rows)"

section \<open>Task events\<close>

definition TERMINAL_TASK_STATUSES :: "task_status list" where
  "TERMINAL_TASK_STATUSES = [COMPLETED, FAILED, CANCELLED]"

definition task_failed_event :: "task_state_changed \<Rightarrow> bool" where
  "task_failed_event ev \<longleftrightarrow> ev_new_status ev \<in> {Some FAILED, Some CANCELLED}"

definition expected_terminal_node_status :: "task_state_changed \<Rightarrow> node_execution_status" where
  "expected_terminal_node_status ev = (if task_failed_event ev then NS_TASK_FAILED else NS_TASK_COMPLETED)"

fun node_status_for_task :: "node_execution list \<Rightarrow> ident \<Rightarrow> node_execution_status option" where
  "node_status_for_task [] task_id = None"
| "node_status_for_task (ne # nes) task_id =
     (if ne_task_id ne = Some task_id then Some (ne_status ne) else node_status_for_task nes task_id)"

definition set_node_status :: "ident \<Rightarrow> node_execution_status \<Rightarrow> node_execution \<Rightarrow> node_execution" where
  "set_node_status task_id status ne = (if ne_task_id ne = Some task_id then ne\<lparr>ne_status := status\<rparr> else ne)"

definition update_node_status ::
  "int \<Rightarrow> workflow_execution \<Rightarrow> ident \<Rightarrow> node_execution_status \<Rightarrow> (lifecycle_error, workflow_execution) outcome" where
  "update_node_status now x task_id status =
     (if \<not> linked_task task_id x then Inl (Task_Unknown task_id)
      else Inr (x\<lparr>xe_node_executions := map (set_node_status task_id status) (xe_node_executions x),
                  xe_updated_at := now, xe_version := xe_version x + 1\<rparr>))"

fun all_tasks_completed :: "node_execution list \<Rightarrow> bool" where
  "all_tasks_completed [] = True"
| "all_tasks_completed (ne # nes) =
     (if ne_status ne = NS_SKIPPED then all_tasks_completed nes
      else if ne_node_type ne = NT_TASK \<and> ne_status ne \<noteq> NS_TASK_COMPLETED then False
      else if ne_node_type ne = NT_SUBWORKFLOW \<and> ne_status ne \<noteq> NS_SUBWORKFLOW_COMPLETED then False
      else all_tasks_completed nes)"

text \<open>The row that \<open>_handle_task_failed\<close> and \<open>_handle_task_completed\<close> save.\<close>

definition task_failed_row :: "io_env \<Rightarrow> workflow_execution \<Rightarrow> task_state_changed \<Rightarrow> (lifecycle_error, workflow_execution) outcome" where
  "task_failed_row env x ev =
     map_sum id (\<lambda>updated. updated\<lparr>xe_status := XS_FAILED,
         xe_error := Some (''Task '' @ ev_task_id ev @ (if ev_new_status ev = Some CANCELLED then '' cancelled'' else '' failed'')),
         xe_updated_at := io_later env, xe_completed_at := Some (io_later env)\<rparr>)
       (update_node_status (io_now env) x (ev_task_id ev) NS_TASK_FAILED)"

definition task_completed_row :: "io_env \<Rightarrow> workflow_execution \<Rightarrow> task_state_changed \<Rightarrow> (lifecycle_error, workflow_execution) outcome" where
  "task_completed_row env x ev =
     map_sum id (\<lambda>updated.
         if all_tasks_completed (xe_node_executions updated)
         then updated\<lparr>xe_status := XS_COMPLETED, xe_updated_at := io_later env, xe_completed_at := Some (io_later env)\<rparr>
         else updated)
       (update_node_status (io_now env) x (ev_task_id ev) NS_TASK_COMPLETED)"

definition task_event_row :: "io_env \<Rightarrow> workflow_execution \<Rightarrow> task_state_changed \<Rightarrow> (lifecycle_error, workflow_execution) outcome" where
  "task_event_row env x ev = (if task_failed_event ev then task_failed_row env x ev else task_completed_row env x ev)"

definition dispatch_task_handler ::
  "io_env \<Rightarrow> workflow_execution \<Rightarrow> task_state_changed \<Rightarrow> execution_store \<Rightarrow> (lifecycle_error, unit) outcome \<times> execution_store" where
  "dispatch_task_handler env x ev rows =
     (case task_event_row env x ev of
        Inl e \<Rightarrow> (Inl e, rows)
      | Inr row \<Rightarrow> (case save_row env row rows of (r, rows') \<Rightarrow> (map_sum id (\<lambda>_. ()) r, rows')))"

definition retry_after_version_conflict ::
  "io_env \<Rightarrow> workflow_execution \<Rightarrow> task_state_changed \<Rightarrow> execution_store \<Rightarrow> (lifecycle_error, unit) outcome \<times> execution_store" where
  "retry_after_version_conflict env x ev rows =
     (case get_execution (io_read_fails env) (xe_id x) rows of
        Inl e \<Rightarrow> (Inl e, rows)
      | Inr None \<Rightarrow> (Inr (), rows)
      | Inr (Some refreshed) \<Rightarrow>
          if xe_status refreshed \<in> set [XS_COMPLETED, XS_FAILED, XS_CANCELLED] then (Inr (), rows)
          else if node_status_for_task (xe_node_executions refreshed) (ev_task_id ev) = Some (expected_terminal_node_status ev)
          then (Inr (), rows)
          else (case dispatch_task_handler env refreshed ev rows of
                  (Inl (Write_Failed Execution_Gone), rows') \<Rightarrow> (Inr (), rows')
                | (Inl (Write_Failed Execution_Conflict), rows') \<Rightarrow> (Inr (), rows')
                | result \<Rightarrow> result))"

text \<open>The scan of the first read, the environments of the two attempts, and what others do between them.\<close>

record event_env =
  ee_scan :: "ident list"
  ee_first :: io_env
  ee_between :: "execution_store \<Rightarrow> execution_store"
  ee_retry :: io_env

definition handle_task_state_changed ::
  "event_env \<Rightarrow> task_state_changed \<Rightarrow> execution_store \<Rightarrow> (lifecycle_error, unit) outcome \<times> execution_store" where
  "handle_task_state_changed env ev rows =
     (if ev_mutation_type ev \<noteq> MT_TRANSITION then (Inr (), rows)
      else if ev_new_status ev \<notin> Some ` set TERMINAL_TASK_STATUSES then (Inr (), rows)
      else case find_by_task_id (io_read_fails (ee_first env)) (ee_scan env) (ev_task_id ev) rows of
             Inl e \<Rightarrow> (Inl e, rows)
           | Inr None \<Rightarrow> (Inr (), rows)
           | Inr (Some x) \<Rightarrow>
               (case dispatch_task_handler (ee_first env) x ev rows of
                  (Inl (Write_Failed Execution_Gone), rows') \<Rightarrow> (Inr (), rows')
                | (Inl (Write_Failed Execution_Conflict), rows') \<Rightarrow> 
                    retry_after_version_conflict (ee_retry env) x ev (ee_between env rows')
                | result \<Rightarrow> result))"

section \<open>All interleavings\<close>

text \<open>What a handler decides for a row it has read, after its guards.\<close>

definition decided :: "workflow_execution \<Rightarrow> workflow_execution \<Rightarrow> bool" where
  "decided old new \<longleftrightarrow> xe_status old \<notin> set TERMINAL_EXECUTION_STATUSES \<and>
     ((\<exists>now. new = cancelled_row now old) \<or>
      xe_status old = XS_RUNNING \<and> (\<exists>now. new = completed_row now old) \<or>
      xe_status old = XS_RUNNING \<and> (\<exists>now err. not_blank err \<and> new = failed_row now err old) \<or>
      (\<exists>env ev. task_event_row env old ev = Inr new))"

type_synonym lifecycle_history = "execution_store \<times> workflow_execution set"

inductive lifecycle_step :: "lifecycle_history \<Rightarrow> lifecycle_history \<Rightarrow> bool" where
  activated: "execution_ok x \<Longrightarrow> xe_version x = 1 \<Longrightarrow> \<forall>y \<in> seen. xe_id y \<noteq> xe_id x \<Longrightarrow>
    save_execution False x rows = Inr rows' \<Longrightarrow> lifecycle_step (rows, seen) (rows', insert x seen)"
| saved: "old \<in> seen \<Longrightarrow> decided old new \<Longrightarrow> save_execution False new rows = Inr rows' \<Longrightarrow>
    lifecycle_step (rows, seen) (rows', insert new seen)"
| deleted: "lifecycle_step (rows, seen) (rows(i := None), seen)"

inductive_cases lifecycle_stepE: "lifecycle_step s s'"

definition lifecycle_reachable :: "lifecycle_history \<Rightarrow> bool" where
  "lifecycle_reachable s \<longleftrightarrow> lifecycle_step\<^sup>*\<^sup>* (Map.empty, {}) s"

definition history_ok :: "lifecycle_history \<Rightarrow> bool" where
  "history_ok s \<longleftrightarrow> (case s of (rows, seen) \<Rightarrow>
     (\<forall>i x. rows i = Some x \<longrightarrow> x \<in> seen \<and> xe_id x = i \<and> (\<forall>y \<in> seen. xe_id y = i \<longrightarrow> xe_version y \<le> xe_version x)) \<and>
     (\<forall>x \<in> seen. execution_ok x) \<and>
     (\<forall>x \<in> seen. \<forall>y \<in> seen. xe_id x = xe_id y \<longrightarrow> xe_version x = xe_version y \<longrightarrow> x = y))"

lemma update_node_status_Inr:
  "update_node_status now x task_id status = Inr y \<Longrightarrow> linked_task task_id x \<and>
   y = x\<lparr>xe_node_executions := map (set_node_status task_id status) (xe_node_executions x),
        xe_updated_at := now, xe_version := xe_version x + 1\<rparr>"
  by (simp add: update_node_status_def split: if_splits)

lemma task_event_row_Inr:
  assumes "task_event_row env x ev = Inr y"
  shows "linked_task (ev_task_id ev) x"
    and "\<exists>t. y = x\<lparr>xe_node_executions := map (set_node_status (ev_task_id ev) (expected_terminal_node_status ev)) (xe_node_executions x),
        xe_status := xe_status y, xe_error := xe_error y, xe_updated_at := t, xe_completed_at := xe_completed_at y,
        xe_version := xe_version x + 1\<rparr>"
    and "xe_status y = XS_FAILED \<and> (\<exists>r. xe_error y = Some (''Task '' @ r)) \<and> xe_completed_at y \<noteq> None \<or>
      xe_status y = XS_COMPLETED \<and> xe_error y = xe_error x \<and> xe_completed_at y \<noteq> None \<or>
      xe_status y = xe_status x \<and> xe_error y = xe_error x \<and> xe_completed_at y = xe_completed_at x"
proof -
  let ?u = "x\<lparr>xe_node_executions := map (set_node_status (ev_task_id ev) (expected_terminal_node_status ev)) (xe_node_executions x),
      xe_updated_at := io_now env, xe_version := xe_version x + 1\<rparr>"
  have linked: "linked_task (ev_task_id ev) x"
    using assms by (cases "linked_task (ev_task_id ev) x")
      (simp_all add: task_event_row_def task_failed_row_def task_completed_row_def update_node_status_def split: if_splits)
  consider r where "y = ?u\<lparr>xe_status := XS_FAILED, xe_error := Some (''Task '' @ r), xe_updated_at := io_later env,
      xe_completed_at := Some (io_later env)\<rparr>"
    | "y = ?u\<lparr>xe_status := XS_COMPLETED, xe_updated_at := io_later env, xe_completed_at := Some (io_later env)\<rparr>"
    | "y = ?u"
    using assms linked
    by (cases "task_failed_event ev")
      (auto simp: task_event_row_def task_failed_row_def task_completed_row_def update_node_status_def
        expected_terminal_node_status_def split: if_splits)
  then have "(\<exists>t. y = x\<lparr>xe_node_executions := map (set_node_status (ev_task_id ev) (expected_terminal_node_status ev)) (xe_node_executions x),
        xe_status := xe_status y, xe_error := xe_error y, xe_updated_at := t, xe_completed_at := xe_completed_at y,
        xe_version := xe_version x + 1\<rparr>) \<and>
     (xe_status y = XS_FAILED \<and> (\<exists>r. xe_error y = Some (''Task '' @ r)) \<and> xe_completed_at y \<noteq> None \<or>
      xe_status y = XS_COMPLETED \<and> xe_error y = xe_error x \<and> xe_completed_at y \<noteq> None \<or>
      xe_status y = xe_status x \<and> xe_error y = xe_error x \<and> xe_completed_at y = xe_completed_at x)"
  proof cases
    case 1
    show ?thesis by (intro conjI exI[of _ "io_later env"]) (simp_all add: 1)
  next
    case 2
    show ?thesis by (intro conjI exI[of _ "io_later env"]) (simp_all add: 2)
  next
    case 3
    show ?thesis by (intro conjI exI[of _ "io_now env"]) (simp_all add: 3)
  qed
  with linked show "linked_task (ev_task_id ev) x"
    and "\<exists>t. y = x\<lparr>xe_node_executions := map (set_node_status (ev_task_id ev) (expected_terminal_node_status ev)) (xe_node_executions x),
        xe_status := xe_status y, xe_error := xe_error y, xe_updated_at := t, xe_completed_at := xe_completed_at y,
        xe_version := xe_version x + 1\<rparr>"
    and "xe_status y = XS_FAILED \<and> (\<exists>r. xe_error y = Some (''Task '' @ r)) \<and> xe_completed_at y \<noteq> None \<or>
      xe_status y = XS_COMPLETED \<and> xe_error y = xe_error x \<and> xe_completed_at y \<noteq> None \<or>
      xe_status y = xe_status x \<and> xe_error y = xe_error x \<and> xe_completed_at y = xe_completed_at x"
    by simp_all
qed

lemma task_event_row_same:
  "task_event_row env x ev = Inr y \<Longrightarrow> xe_id y = xe_id x \<and> xe_version y = xe_version x + 1"
  by (drule task_event_row_Inr(2), erule exE, erule ssubst) simp

lemma task_event_row_nodes:
  "task_event_row env x ev = Inr y \<Longrightarrow>
   xe_node_executions y = map (set_node_status (ev_task_id ev) (expected_terminal_node_status ev)) (xe_node_executions x)"
  by (drule task_event_row_Inr(2), erule exE, erule ssubst) simp

lemma decided_same_row: "decided old new \<Longrightarrow> xe_id new = xe_id old \<and> xe_version new = xe_version old + 1"
  using task_event_row_same
  by (auto simp: decided_def cancelled_row_def completed_row_def failed_row_def)

lemma set_node_status_ok:
  assumes "node_execution_ok ne" and "status \<in> set TASK_LINKED_STATUSES"
  shows "node_execution_ok (set_node_status task_id status ne)"
  using assms by (auto simp: set_node_status_def node_execution_ok_def TASK_LINKED_STATUSES_def split: if_splits)

lemma set_node_status_id: "ne_node_id (set_node_status task_id status ne) = ne_node_id ne"
  by (simp add: set_node_status_def)

lemma set_node_status_task: "ne_task_id (set_node_status task_id status ne) = ne_task_id ne"
  by (simp add: set_node_status_def)

lemma not_blank_prefix: "not_blank s \<Longrightarrow> not_blank (s @ r)"
  by (simp add: not_blank_def blank_def)

lemma updated_nodes_ok:
  assumes "execution_ok x" and "status \<in> set TASK_LINKED_STATUSES"
  shows "list_all node_execution_ok (map (set_node_status task_id status) (xe_node_executions x))"
    and "distinct (map ne_node_id (map (set_node_status task_id status) (xe_node_executions x)))"
  using assms by (auto simp: execution_ok_def list_all_iff set_node_status_ok comp_def set_node_status_id)

lemma decided_ok:
  assumes "execution_ok old" and "decided old new"
  shows "execution_ok new"
proof -
  have open_row: "xe_completed_at old = None" "xe_error old = None"
    using assms by (auto simp: execution_ok_def decided_def TERMINAL_EXECUTION_STATUSES_def split: if_splits)
  have blank: "not_blank (''Task '' @ s)" for s by (rule not_blank_prefix) code_simp
  from assms(2) consider "\<exists>now. new = cancelled_row now old" | "\<exists>now. new = completed_row now old"
    | "\<exists>now err. not_blank err \<and> new = failed_row now err old"
    | env ev where "task_event_row env old ev = Inr new" "xe_status old \<notin> set TERMINAL_EXECUTION_STATUSES"
    by (auto simp: decided_def)
  then show ?thesis
  proof cases
    case (4 env ev)
    have st: "expected_terminal_node_status ev \<in> set TASK_LINKED_STATUSES"
      by (simp add: TASK_LINKED_STATUSES_def expected_terminal_node_status_def)
    note nodes = updated_nodes_ok[OF assms(1) st, of "ev_task_id ev"]
    obtain t where y: "new = old\<lparr>xe_node_executions := map (set_node_status (ev_task_id ev) (expected_terminal_node_status ev)) (xe_node_executions old),
        xe_status := xe_status new, xe_error := xe_error new, xe_updated_at := t, xe_completed_at := xe_completed_at new,
        xe_version := xe_version old + 1\<rparr>" using task_event_row_Inr(2)[OF 4(1)] by blast
    have keep: "not_blank (xe_definition_id old) \<and> 1 \<le> xe_definition_revision old \<and> not_blank (xe_activated_by old) \<and>
        not_blank (xe_project old) \<and> 1 \<le> xe_version old" "xe_status old \<noteq> XS_FAILED"
      using assms(1) 4(2) by (auto simp: execution_ok_def TERMINAL_EXECUTION_STATUSES_def)
    from task_event_row_Inr(3)[OF 4(1)] show ?thesis
      by (subst y, unfold execution_ok_def)
        (use keep open_row nodes blank 4(2) in \<open>auto simp: TERMINAL_EXECUTION_STATUSES_def\<close>)
  qed (use assms(1) open_row in \<open>auto simp: execution_ok_def cancelled_row_def completed_row_def failed_row_def
      TERMINAL_EXECUTION_STATUSES_def\<close>)
qed

text \<open>A save that succeeds rests on the row that is stored: nothing is lost.\<close>

lemma save_rests_on_current:
  assumes "history_ok (rows, seen)" and "old \<in> seen" and "decided old new"
    and "save_execution False new rows = Inr rows'"
  shows "rows (xe_id old) = Some old \<and> rows' = rows(xe_id old \<mapsto> new)"
proof -
  have "execution_ok old" using assms(1,2) by (auto simp: history_ok_def)
  then have v: "1 \<le> xe_version old" by (simp add: execution_ok_def)
  note same = decided_same_row[OF assms(3)]
  with assms(4) v obtain row where row: "rows (xe_id old) = Some row" "xe_version row = xe_version old"
    and rows': "rows' = rows(xe_id old \<mapsto> new)"
    by (auto simp: save_execution_def split: if_splits option.splits)
  with assms(1,2) have "row = old" by (auto simp: history_ok_def)
  with row rows' show ?thesis by simp
qed

lemma history_ok_step:
  assumes "lifecycle_step s s'" and "history_ok s"
  shows "history_ok s'"
  using assms
proof cases
  case (activated x seen rows rows')
  with assms(2) show ?thesis
    by (auto simp: history_ok_def save_execution_def split: if_splits)
next
  case (saved old seen new rows rows')
  note inv = assms(2)[unfolded saved(1)]
  note cur = save_rests_on_current[OF inv saved(3-5)] and same = decided_same_row[OF saved(4)]
  have top: "y \<in> seen \<Longrightarrow> xe_id y = xe_id old \<Longrightarrow> xe_version y \<le> xe_version old" for y
    using cur inv by (auto simp: history_ok_def)
  have new: "execution_ok new" using inv saved(3) decided_ok[OF _ saved(4)] by (auto simp: history_ok_def)
  have uniq: "x \<in> insert new seen \<Longrightarrow> y \<in> insert new seen \<Longrightarrow> xe_id x = xe_id y \<Longrightarrow> xe_version x = xe_version y \<Longrightarrow> x = y" for x y
    using inv same top by (fastforce simp: history_ok_def)
  have top': "y \<in> insert new seen \<Longrightarrow> xe_id y = xe_id old \<Longrightarrow> xe_version y \<le> xe_version new" for y
    using top[of y] same by fastforce
  show ?thesis
    unfolding saved(2) history_ok_def prod.case
    using inv cur new uniq top' same by (auto simp: history_ok_def)
next
  case (deleted rows seen i)
  with assms(2) show ?thesis by (auto simp: history_ok_def)
qed

lemma history_ok_steps: "lifecycle_step\<^sup>*\<^sup>* s s' \<Longrightarrow> history_ok s \<Longrightarrow> history_ok s'"
  by (induction rule: rtranclp_induct) (auto intro: history_ok_step)

lemma reachable_history_ok: "lifecycle_reachable s \<Longrightarrow> history_ok s"
  unfolding lifecycle_reachable_def by (erule history_ok_steps) (simp add: history_ok_def)

text \<open>Along any steps a row only moves forward, and one that has ended does not move at all.\<close>

definition moves_on :: "workflow_execution \<Rightarrow> workflow_execution option \<Rightarrow> bool" where
  "moves_on x after \<longleftrightarrow> (\<forall>y. after = Some y \<longrightarrow> execution_ok y \<and> xe_version x \<le> xe_version y \<and>
     (xe_status x \<in> set TERMINAL_EXECUTION_STATUSES \<or> xe_version x = xe_version y \<longrightarrow> y = x))"

lemma moves_on_steps:
  assumes "lifecycle_step\<^sup>*\<^sup>* s s'" and "history_ok s" and "fst s i = Some x"
  shows "moves_on x (fst s' i)"
proof -
  have "x \<in> snd s' \<and> moves_on x (fst s' i) \<and> xe_id x = i"
    using assms
  proof (induction rule: rtranclp_induct)
    case base
    then show ?case by (cases s) (auto simp: history_ok_def moves_on_def)
  next
    case (step s1 s2)
    have inv: "history_ok s1" using history_ok_steps[OF step(1)] step(4) .
    have inv2: "history_ok s2" using history_ok_step[OF step(2) inv] .
    have IH: "x \<in> snd s1" "moves_on x (fst s1 i)" "xe_id x = i" using step by blast+
    from step(2) show ?case
    proof cases
      case (activated y seen rows rows')
      then have "rows' = rows(xe_id y \<mapsto> y)" by (auto simp: save_execution_def split: if_splits)
      moreover have "xe_id y \<noteq> i" using activated IH by auto
      ultimately show ?thesis using IH activated by simp
    next
      case (saved old seen new rows rows')
      note cur = save_rests_on_current[OF inv[unfolded saved(1)] saved(3-5)] and same = decided_same_row[OF saved(4)]
      have "decided old new" by (rule saved(4))
      then have live: "xe_status old \<notin> set TERMINAL_EXECUTION_STATUSES" by (simp add: decided_def)
      have "moves_on x (Some new)" if "xe_id old = i"
      proof -
        have m: "moves_on x (Some old)" using IH(2) cur that saved(1) by simp
        have "fst s2 i = Some new" using saved(2) cur that by simp
        then have "execution_ok new" using inv2 unfolding history_ok_def by (auto split: prod.splits)
        moreover have "xe_version x \<le> xe_version old" "xe_status x \<notin> set TERMINAL_EXECUTION_STATUSES"
          using m live unfolding moves_on_def by blast+
        ultimately show ?thesis using same by (simp add: moves_on_def)
      qed
      with cur IH saved(1,2) show ?thesis by auto
    next
      case (deleted rows seen j)
      with IH show ?thesis by (auto simp: moves_on_def)
    qed
  qed
  then show ?thesis by blast
qed

section \<open>The handlers are steps\<close>

text \<open>What others do between a read and a save is itself a sequence of steps.\<close>

definition orderly :: "(execution_store \<Rightarrow> execution_store) \<Rightarrow> bool" where
  "orderly f \<longleftrightarrow> (\<forall>rows seen. history_ok (rows, seen) \<longrightarrow> (\<exists>seen'. lifecycle_step\<^sup>*\<^sup>* (rows, seen) (f rows, seen')))"

datatype lifecycle_call =
    Call_Cancel io_env ident
  | Call_Complete io_env ident
  | Call_Fail io_env ident string
  | Call_Event event_env task_state_changed

fun run_call :: "lifecycle_call \<Rightarrow> execution_store \<Rightarrow> execution_store" where
  "run_call (Call_Cancel env i) rows = snd (cancel_execution env i rows)"
| "run_call (Call_Complete env i) rows = snd (complete_execution env i rows)"
| "run_call (Call_Fail env i err) rows = snd (fail_execution env i err rows)"
| "run_call (Call_Event env ev) rows = snd (handle_task_state_changed env ev rows)"

fun orderly_call :: "lifecycle_call \<Rightarrow> bool" where
  "orderly_call (Call_Cancel env i) = orderly (io_others env)"
| "orderly_call (Call_Complete env i) = orderly (io_others env)"
| "orderly_call (Call_Fail env i err) = (orderly (io_others env) \<and> not_blank err)"
| "orderly_call (Call_Event env ev) =
     (orderly (io_others (ee_first env)) \<and> orderly (ee_between env) \<and> orderly (io_others (ee_retry env)))"

lemma orderly_step: "history_ok (rows, seen) \<Longrightarrow> orderly f \<Longrightarrow> \<exists>seen'. lifecycle_step\<^sup>*\<^sup>* (rows, seen) (f rows, seen')"
  by (simp add: orderly_def)

lemma seen_mono: "lifecycle_step\<^sup>*\<^sup>* s s' \<Longrightarrow> snd s \<subseteq> snd s'"
proof (induction rule: rtranclp_induct)
  case (step s1 s2)
  from step(2) have "snd s1 \<subseteq> snd s2" by cases auto
  with step(3) show ?case by blast
qed simp

lemma save_row_steps:
  assumes "history_ok (rows, seen)" and "old \<in> seen" and "decided old new" and "orderly (io_others env)"
    and "save_row env new rows = (r, rows')"
  shows "\<exists>seen'. lifecycle_step\<^sup>*\<^sup>* (rows, seen) (rows', seen')"
    and "r = Inr y \<Longrightarrow> y = new \<and> io_others env rows (xe_id old) = Some old \<and> rows' = (io_others env rows)(xe_id old \<mapsto> new)"
proof -
  obtain seen1 where s1: "lifecycle_step\<^sup>*\<^sup>* (rows, seen) (io_others env rows, seen1)"
    using orderly_step[OF assms(1,4)] by blast
  have old: "old \<in> seen1" using seen_mono[OF s1] assms(2) by auto
  have inv: "history_ok (io_others env rows, seen1)" using history_ok_steps[OF s1 assms(1)] .
  show "\<exists>seen'. lifecycle_step\<^sup>*\<^sup>* (rows, seen) (rows', seen')"
  proof (cases "save_execution (io_save_fails env) new (io_others env rows)")
    case (Inl e)
    with assms(5) s1 show ?thesis by (auto simp: save_row_def)
  next
    case (Inr rows2)
    then have "save_execution False new (io_others env rows) = Inr rows2"
      by (auto simp: save_execution_def split: if_splits option.splits)
    from lifecycle_step.saved[OF old assms(3) this] s1 assms(5) Inr show ?thesis
      by (auto simp: save_row_def intro: rtranclp.rtrancl_into_rtrancl)
  qed
  assume "r = Inr y"
  with assms(5) have "y = new" "save_execution False new (io_others env rows) = Inr rows'"
    by (auto simp: save_row_def save_execution_def split: sum.splits if_splits option.splits)
  with save_rests_on_current[OF inv old assms(3)]
  show "y = new \<and> io_others env rows (xe_id old) = Some old \<and> rows' = (io_others env rows)(xe_id old \<mapsto> new)" by simp
qed

lemma get_execution_Some:
  "get_execution fails i rows = Inr (Some x) \<Longrightarrow> rows i = Some x \<and> execution_ok x"
  by (auto simp: get_execution_def split: if_splits option.splits)

lemma load_running_Inr: "load_running fails i rows = Inr x \<Longrightarrow> rows i = Some x \<and> execution_ok x \<and> xe_status x = XS_RUNNING"
  by (auto simp: load_running_def dest!: get_execution_Some split: sum.splits option.splits if_splits)

lemma find_by_task_id_Some:
  assumes "find_by_task_id fails scan task_id rows = Inr (Some x)"
  shows "\<exists>i. rows i = Some x \<and> execution_ok x \<and> xe_status x = XS_RUNNING \<and> linked_task task_id x"
  using assms
  by (auto simp: find_by_task_id_def find_Some_iff dest!: get_execution_Some split: if_splits option.splits)

lemma stored_seen: "history_ok (rows, seen) \<Longrightarrow> rows i = Some x \<Longrightarrow> x \<in> seen \<and> xe_id x = i"
  by (auto simp: history_ok_def)

lemma open_statuses [simp]:
  "XS_RUNNING \<notin> set TERMINAL_EXECUTION_STATUSES" "XS_PENDING \<notin> set TERMINAL_EXECUTION_STATUSES"
  by (simp_all add: TERMINAL_EXECUTION_STATUSES_def)

lemma dispatch_steps:
  assumes "history_ok (rows, seen)" and "x \<in> seen" and "xe_status x \<notin> set TERMINAL_EXECUTION_STATUSES"
    and "orderly (io_others env)" and "dispatch_task_handler env x ev rows = (r, rows')"
  shows "\<exists>seen'. lifecycle_step\<^sup>*\<^sup>* (rows, seen) (rows', seen')"
proof (cases "task_event_row env x ev")
  case (Inl e)
  with assms(5) show ?thesis by (auto simp: dispatch_task_handler_def)
next
  case (Inr row)
  obtain r0 where "save_row env row rows = (r0, rows')"
    using assms(5) Inr by (auto simp: dispatch_task_handler_def split: prod.splits)
  from save_row_steps(1)[OF assms(1,2) _ assms(4) this] assms(3) Inr show ?thesis
    by (auto simp: decided_def)
qed

lemma retry_steps:
  assumes "history_ok (rows, seen)" and "orderly (io_others env)"
    and "retry_after_version_conflict env x ev rows = (r, rows')"
  shows "\<exists>seen'. lifecycle_step\<^sup>*\<^sup>* (rows, seen) (rows', seen')"
proof -
  consider "rows' = rows" | y r0 where "rows (xe_id x) = Some y" "xe_status y \<notin> set TERMINAL_EXECUTION_STATUSES"
      "dispatch_task_handler env y ev rows = (r0, rows')"
    using assms(3)
    by (auto simp: retry_after_version_conflict_def TERMINAL_EXECUTION_STATUSES_def dest!: get_execution_Some
        split: sum.splits option.splits if_splits prod.splits lifecycle_error.splits save_error.splits)
  then show ?thesis
  proof cases
    case (2 y r0)
    show ?thesis using dispatch_steps[OF assms(1) conjunct1[OF stored_seen[OF assms(1) 2(1)]] 2(2) assms(2) 2(3)] .
  qed auto
qed

lemma event_rows:
  "snd (handle_task_state_changed env ev rows) = rows \<or>
   (\<exists>x i. rows i = Some x \<and> xe_status x = XS_RUNNING \<and>
     snd (handle_task_state_changed env ev rows) \<in>
       {snd (dispatch_task_handler (ee_first env) x ev rows),
        snd (retry_after_version_conflict (ee_retry env) x ev (ee_between env (snd (dispatch_task_handler (ee_first env) x ev rows))))})"
proof (cases "find_by_task_id (io_read_fails (ee_first env)) (ee_scan env) (ev_task_id ev) rows")
  case (Inr found)
  show ?thesis
  proof (cases found)
    case (Some x)
    obtain r1 rows1 where d: "dispatch_task_handler (ee_first env) x ev rows = (r1, rows1)" by fastforce
    have "snd (handle_task_state_changed env ev rows) \<in> {rows, rows1,
        snd (retry_after_version_conflict (ee_retry env) x ev (ee_between env rows1))}"
      by (cases r1) (simp_all add: handle_task_state_changed_def Inr Some d split: lifecycle_error.split save_error.split)
    with find_by_task_id_Some[OF Inr[unfolded Some]] d show ?thesis by auto
  qed (simp add: handle_task_state_changed_def Inr)
qed (simp add: handle_task_state_changed_def)

lemma event_steps:
  assumes "history_ok (rows, seen)" and "orderly_call (Call_Event env ev)"
  shows "\<exists>seen'. lifecycle_step\<^sup>*\<^sup>* (rows, seen) (run_call (Call_Event env ev) rows, seen')"
proof (cases "snd (handle_task_state_changed env ev rows) = rows")
  case False
  with event_rows[of env ev rows] obtain x i where 1: "rows i = Some x" "xe_status x = XS_RUNNING"
    "snd (handle_task_state_changed env ev rows) \<in> {snd (dispatch_task_handler (ee_first env) x ev rows),
        snd (retry_after_version_conflict (ee_retry env) x ev (ee_between env (snd (dispatch_task_handler (ee_first env) x ev rows))))}"
    by blast
  obtain r1 rows1 where d: "dispatch_task_handler (ee_first env) x ev rows = (r1, rows1)" by fastforce
  have x: "x \<in> seen" using stored_seen[OF assms(1) 1(1)] by simp
  obtain seen1 where s1: "lifecycle_step\<^sup>*\<^sup>* (rows, seen) (rows1, seen1)"
    using dispatch_steps[OF assms(1) x _ _ d] 1(2) assms(2) by auto
  from orderly_step[OF history_ok_steps[OF s1 assms(1)]] assms(2)
  obtain seen2 where s2: "lifecycle_step\<^sup>*\<^sup>* (rows, seen) (ee_between env rows1, seen2)"
    using rtranclp_trans[OF s1] by (metis orderly_call.simps(4))
  obtain r3 rows3 where r: "retry_after_version_conflict (ee_retry env) x ev (ee_between env rows1) = (r3, rows3)" by fastforce
  obtain seen3 where s3: "lifecycle_step\<^sup>*\<^sup>* (ee_between env rows1, seen2) (rows3, seen3)"
    using retry_steps[OF history_ok_steps[OF s2 assms(1)] _ r] assms(2) by auto
  from 1(3) d r have "snd (handle_task_state_changed env ev rows) \<in> {rows1, rows3}" by simp
  with s1 rtranclp_trans[OF s2 s3] show ?thesis by auto
qed auto

lemma load_running_steps:
  assumes "history_ok (rows, seen)" and "load_running fails i rows = Inr x" and "orderly (io_others env)"
    and "new = completed_row now x \<or> not_blank err \<and> new = failed_row now err x"
  shows "\<exists>seen'. lifecycle_step\<^sup>*\<^sup>* (rows, seen) (snd (save_row env new rows), seen')"
proof -
  have x: "rows i = Some x" "xe_status x = XS_RUNNING" using load_running_Inr[OF assms(2)] by simp_all
  have "decided x new" using assms(4) x(2) by (auto simp: decided_def)
  from save_row_steps(1)[OF assms(1) conjunct1[OF stored_seen[OF assms(1) x(1)]] this assms(3)]
  show ?thesis by (metis prod.collapse)
qed

lemma cancel_rows:
  "snd (cancel_execution env i rows) = rows \<or>
   (\<exists>x. rows i = Some x \<and> xe_status x \<notin> set TERMINAL_EXECUTION_STATUSES \<and>
      snd (cancel_execution env i rows) = snd (save_row env (cancelled_row (io_now env) x) rows))"
  by (cases "save_row env (cancelled_row (io_now env) (the (rows i))) rows")
    (auto simp: cancel_execution_def dest!: get_execution_Some
      split: sum.splits option.splits if_splits lifecycle_error.splits save_error.splits)

lemma call_steps:
  assumes "history_ok (rows, seen)" and "orderly_call c"
  shows "\<exists>seen'. lifecycle_step\<^sup>*\<^sup>* (rows, seen) (run_call c rows, seen')"
proof (cases c)
  case (Call_Cancel env i)
  from cancel_rows[of env i rows] show ?thesis
  proof
    assume "\<exists>x. rows i = Some x \<and> xe_status x \<notin> set TERMINAL_EXECUTION_STATUSES \<and>
      snd (cancel_execution env i rows) = snd (save_row env (cancelled_row (io_now env) x) rows)"
    then obtain x where x: "rows i = Some x" "xe_status x \<notin> set TERMINAL_EXECUTION_STATUSES"
      "snd (cancel_execution env i rows) = snd (save_row env (cancelled_row (io_now env) x) rows)" by blast
    have "decided x (cancelled_row (io_now env) x)" using x(2) by (auto simp: decided_def)
    from save_row_steps(1)[OF assms(1) conjunct1[OF stored_seen[OF assms(1) x(1)]] this] assms(2) x(3) Call_Cancel
    show ?thesis by (metis orderly_call.simps(1) prod.collapse run_call.simps(1))
  qed (auto simp: Call_Cancel)
next
  case (Call_Complete env i)
  show ?thesis
  proof (cases "load_running (io_read_fails env) i rows")
    case (Inr x)
    with load_running_steps[OF assms(1) Inr, of env] assms(2) Call_Complete show ?thesis
      by (auto simp: complete_execution_def)
  qed (auto simp: Call_Complete complete_execution_def)
next
  case (Call_Fail env i err)
  show ?thesis
  proof (cases "load_running (io_read_fails env) i rows")
    case (Inr x)
    with load_running_steps[OF assms(1) Inr, of env] assms(2) Call_Fail show ?thesis
      by (auto simp: fail_execution_def)
  qed (auto simp: Call_Fail fail_execution_def)
next
  case (Call_Event env ev)
  with event_steps[OF assms(1)] assms(2) show ?thesis by simp
qed

section \<open>Undisturbed handling\<close>

definition quiet :: "io_env \<Rightarrow> bool" where
  "quiet env \<longleftrightarrow> \<not> io_read_fails env \<and> \<not> io_save_fails env \<and> io_others env = (\<lambda>rows. rows)"

definition terminal_task_event :: "task_state_changed \<Rightarrow> bool" where
  "terminal_task_event ev \<longleftrightarrow> ev_mutation_type ev = MT_TRANSITION \<and> ev_new_status ev \<in> Some ` set TERMINAL_TASK_STATUSES"

text \<open>No other running row has the task.\<close>

definition sole_owner :: "execution_store \<Rightarrow> ident \<Rightarrow> ident \<Rightarrow> bool" where
  "sole_owner rows i task_id \<longleftrightarrow> (\<forall>j y. rows j = Some y \<longrightarrow> j \<noteq> i \<longrightarrow> xe_status y = XS_RUNNING \<longrightarrow> \<not> linked_task task_id y)"

lemma find_only:
  assumes "P x" and "\<And>y. P y \<Longrightarrow> y = x"
  shows "x \<in> set xs \<Longrightarrow> find P xs = Some x"
proof (induction xs)
  case (Cons a xs)
  show ?case
  proof (cases "P a")
    case True
    from assms(2)[OF this] True show ?thesis by simp
  next
    case False
    with Cons assms(1) show ?thesis by (cases "x = a") simp_all
  qed
qed simp

lemma find_owner:
  assumes "rows i = Some x" and "execution_ok x" and "xe_status x = XS_RUNNING" and "linked_task task_id x"
    and "sole_owner rows i task_id" and "i \<in> set scan"
  shows "find_by_task_id False scan task_id rows = Inr (Some x)"
proof -
  let ?P = "\<lambda>j. case rows j of None \<Rightarrow> False | Some y \<Rightarrow> xe_status y = XS_RUNNING \<and> linked_task task_id y"
  have "?P i" using assms(1,3,4) by simp
  moreover have "j = i" if "?P j" for j
    using that assms(5) by (auto simp: sole_owner_def split: option.splits)
  ultimately have "find ?P scan = Some i" using find_only[of ?P i scan] assms(6) by blast
  then show ?thesis using assms(1,2) by (simp add: find_by_task_id_def get_execution_def)
qed

lemma find_none:
  assumes "\<forall>j y. rows j = Some y \<longrightarrow> xe_status y = XS_RUNNING \<longrightarrow> \<not> linked_task task_id y"
  shows "find_by_task_id False scan task_id rows = Inr None"
proof -
  have "find (\<lambda>j. case rows j of None \<Rightarrow> False | Some y \<Rightarrow> xe_status y = XS_RUNNING \<and> linked_task task_id y) scan = None"
    using assms by (auto simp: find_None_iff split: option.splits)
  then show ?thesis by (simp add: find_by_task_id_def)
qed

lemma task_event_row_linked: "linked_task (ev_task_id ev) x \<Longrightarrow> \<exists>y. task_event_row env x ev = Inr y"
  by (simp add: task_event_row_def task_failed_row_def task_completed_row_def update_node_status_def)

lemma save_row_quiet:
  assumes "quiet env" and "rows i = Some x" and "xe_id x = i" and "1 \<le> xe_version x"
    and "xe_id y = i" and "xe_version y = xe_version x + 1"
  shows "save_row env y rows = (Inr y, rows(i \<mapsto> y))"
  using assms by (simp add: save_row_def save_execution_def quiet_def)

lemma dispatch_quiet:
  assumes "quiet env" and "rows i = Some x" and "xe_id x = i" and "execution_ok x" and "linked_task (ev_task_id ev) x"
  shows "dispatch_task_handler env x ev rows = (Inr (), rows(i \<mapsto> projr (task_event_row env x ev)))"
proof -
  obtain y where y: "task_event_row env x ev = Inr y" using task_event_row_linked[OF assms(5)] by blast
  have "1 \<le> xe_version x" using assms(4) by (simp add: execution_ok_def)
  from save_row_quiet[where rows = rows and i = i, OF assms(1-3) this] task_event_row_same[OF y] assms(3) y show ?thesis
    by (simp add: dispatch_task_handler_def)
qed

lemma handle_quiet:
  assumes "quiet (ee_first env)" and "i \<in> set (ee_scan env)" and "rows i = Some x" and "xe_id x = i"
    and "execution_ok x" and "xe_status x = XS_RUNNING" and "terminal_task_event ev"
    and "linked_task (ev_task_id ev) x" and "sole_owner rows i (ev_task_id ev)"
  shows "handle_task_state_changed env ev rows = (Inr (), rows(i \<mapsto> projr (task_event_row (ee_first env) x ev)))"
  using find_owner[OF assms(3,5,6,8,9,2)] dispatch_quiet[where rows = rows and i = i, OF assms(1,3,4,5,8)] assms(1,7)
  by (simp add: handle_task_state_changed_def terminal_task_event_def quiet_def)

lemma handle_unowned:
  assumes "quiet (ee_first env)" and "\<forall>j y. rows j = Some y \<longrightarrow> xe_status y = XS_RUNNING \<longrightarrow> \<not> linked_task (ev_task_id ev) y"
  shows "handle_task_state_changed env ev rows = (Inr (), rows)"
  using find_none[OF assms(2)] assms(1) by (simp add: handle_task_state_changed_def quiet_def)

subsection \<open>When everything is done\<close>

text \<open>The tasks a row still waits for.\<close>

definition outstanding :: "workflow_execution \<Rightarrow> ident set" where
  "outstanding x = {t. \<exists>ne \<in> set (xe_node_executions x). ne_task_id ne = Some t \<and> ne_status ne \<noteq> NS_TASK_COMPLETED}"

definition awaits_tasks :: "workflow_execution \<Rightarrow> bool" where
  "awaits_tasks x \<longleftrightarrow> list_all (\<lambda>ne. ne_status ne \<noteq> NS_SKIPPED \<longrightarrow>
     (ne_node_type ne = NT_TASK \<longrightarrow> ne_status ne \<in> {NS_TASK_CREATED, NS_TASK_COMPLETED}) \<and>
     (ne_node_type ne = NT_SUBWORKFLOW \<longrightarrow> ne_status ne = NS_SUBWORKFLOW_COMPLETED)) (xe_node_executions x)"

lemma all_tasks_completed_iff:
  "all_tasks_completed nes \<longleftrightarrow> (\<forall>ne \<in> set nes. ne_status ne \<noteq> NS_SKIPPED \<longrightarrow>
     (ne_node_type ne = NT_TASK \<longrightarrow> ne_status ne = NS_TASK_COMPLETED) \<and>
     (ne_node_type ne = NT_SUBWORKFLOW \<longrightarrow> ne_status ne = NS_SUBWORKFLOW_COMPLETED))"
  by (induction nes) auto

lemma all_tasks_completed_outstanding:
  assumes "list_all node_execution_ok (xe_node_executions x)" and "awaits_tasks x"
  shows "all_tasks_completed (xe_node_executions x) \<longleftrightarrow> outstanding x = {}"
proof -
  have "(ne_status ne \<noteq> NS_SKIPPED \<longrightarrow> (ne_node_type ne = NT_TASK \<longrightarrow> ne_status ne = NS_TASK_COMPLETED) \<and>
      (ne_node_type ne = NT_SUBWORKFLOW \<longrightarrow> ne_status ne = NS_SUBWORKFLOW_COMPLETED)) \<longleftrightarrow>
     (ne_task_id ne = None \<or> ne_status ne = NS_TASK_COMPLETED)"
    if "ne \<in> set (xe_node_executions x)" for ne
  proof -
    have "node_execution_ok ne" using assms(1) that by (simp add: list_all_iff)
    moreover have "ne_status ne \<noteq> NS_SKIPPED \<longrightarrow>
       (ne_node_type ne = NT_TASK \<longrightarrow> ne_status ne \<in> {NS_TASK_CREATED, NS_TASK_COMPLETED}) \<and>
       (ne_node_type ne = NT_SUBWORKFLOW \<longrightarrow> ne_status ne = NS_SUBWORKFLOW_COMPLETED)"
      using assms(2) that by (simp add: awaits_tasks_def list_all_iff)
    ultimately show ?thesis
      by (cases "ne_status ne") (auto simp: node_execution_ok_def TASK_LINKED_STATUSES_def)
  qed
  then have "all_tasks_completed (xe_node_executions x) \<longleftrightarrow>
      (\<forall>ne \<in> set (xe_node_executions x). ne_task_id ne = None \<or> ne_status ne = NS_TASK_COMPLETED)"
    unfolding all_tasks_completed_iff by blast
  then show ?thesis by (force simp: outstanding_def)
qed

lemma linked_node_is_task:
  assumes "execution_ok x" and "ne \<in> set (xe_node_executions x)" and "ne_task_id ne = Some t"
  shows "ne_node_type ne = NT_TASK"
proof -
  have "node_execution_ok ne" using assms(1,2) by (simp add: execution_ok_def list_all_iff)
  with assms(3) show ?thesis by (simp add: node_execution_ok_def split: if_splits)
qed

lemma completed_event_row:
  assumes "execution_ok x" and "xe_status x = XS_RUNNING" and "awaits_tasks x" and "linked_task (ev_task_id ev) x"
    and "ev_new_status ev = Some COMPLETED"
  shows "let y = projr (task_event_row env x ev) in
    task_event_row env x ev = Inr y \<and> execution_ok y \<and> awaits_tasks y \<and> outstanding y = outstanding x - {ev_task_id ev} \<and>
    xe_id y = xe_id x \<and> xe_status y = (if outstanding x \<subseteq> {ev_task_id ev} then XS_COMPLETED else XS_RUNNING) \<and>
    (\<forall>t. linked_task t y \<longleftrightarrow> linked_task t x) \<and> xe_version y = xe_version x + 1 \<and> xe_error y = None"
proof -
  obtain y where y: "task_event_row env x ev = Inr y" using task_event_row_linked[OF assms(4)] by blast
  let ?nes = "map (set_node_status (ev_task_id ev) NS_TASK_COMPLETED) (xe_node_executions x)"
  have nes: "xe_node_executions y = ?nes"
    using task_event_row_nodes[OF y] assms(5) by (simp add: expected_terminal_node_status_def task_failed_event_def)
  have ok: "execution_ok y" using decided_ok[OF assms(1), of y] assms(2) y by (auto simp: decided_def)
  have aw: "awaits_tasks y"
    using assms(3) linked_node_is_task[OF assms(1)] unfolding awaits_tasks_def nes
    by (fastforce simp: list_all_iff set_node_status_def)
  have out: "outstanding y = outstanding x - {ev_task_id ev}"
    unfolding outstanding_def nes by (auto simp: set_node_status_def split: if_splits)
  have "list_all node_execution_ok (xe_node_executions y)" using ok by (simp add: execution_ok_def)
  from all_tasks_completed_outstanding[OF this aw] nes out
  have all: "all_tasks_completed ?nes \<longleftrightarrow> outstanding x \<subseteq> {ev_task_id ev}" by auto
  have st: "xe_status y = (if outstanding x \<subseteq> {ev_task_id ev} then XS_COMPLETED else XS_RUNNING)" and err: "xe_error y = xe_error x"
    using y assms(2,4,5) unfolding all[symmetric]
    by (auto simp: task_event_row_def task_failed_event_def task_completed_row_def update_node_status_def)
  have "xe_error x = None" using assms(1,2) by (simp add: execution_ok_def)
  moreover have "linked_task t y \<longleftrightarrow> linked_task t x" for t
    by (simp add: linked_task_def nes list_ex_iff set_node_status_task)
  ultimately show ?thesis using y ok aw out st err task_event_row_same[OF y] by simp
qed

definition handle_all :: "(event_env \<times> task_state_changed) list \<Rightarrow> execution_store \<Rightarrow> execution_store" where
  "handle_all evs rows = fold (\<lambda>(env, ev) rows. snd (handle_task_state_changed env ev rows)) evs rows"

definition completion_of :: "execution_store \<Rightarrow> workflow_execution \<Rightarrow> event_env \<Rightarrow> task_state_changed \<Rightarrow> bool" where
  "completion_of rows x env ev \<longleftrightarrow> quiet (ee_first env) \<and> xe_id x \<in> set (ee_scan env) \<and> terminal_task_event ev \<and>
     ev_new_status ev = Some COMPLETED \<and> linked_task (ev_task_id ev) x \<and> sole_owner rows (xe_id x) (ev_task_id ev)"

definition in_progress :: "workflow_execution \<Rightarrow> bool" where
  "in_progress x \<longleftrightarrow> execution_ok x \<and> awaits_tasks x \<and>
     xe_status x = (if outstanding x = {} then XS_COMPLETED else XS_RUNNING)"

lemma completion_step:
  assumes "rows (xe_id x) = Some x" and "in_progress x" and "completion_of rows x env ev"
  shows "\<exists>y. handle_task_state_changed env ev rows = (Inr (), rows(xe_id x \<mapsto> y)) \<and> xe_id y = xe_id x \<and> in_progress y \<and>
    outstanding y = outstanding x - {ev_task_id ev} \<and> (\<forall>t. linked_task t y \<longleftrightarrow> linked_task t x)"
proof (cases "outstanding x = {}")
  case True
  then have "xe_status x \<noteq> XS_RUNNING" using assms(2) by (simp add: in_progress_def)
  then have "\<forall>j y. rows j = Some y \<longrightarrow> xe_status y = XS_RUNNING \<longrightarrow> \<not> linked_task (ev_task_id ev) y"
    using assms(1,3) unfolding completion_of_def sole_owner_def by (metis option.inject)
  from handle_unowned[OF _ this] assms True show ?thesis
    by (intro exI[of _ x]) (simp add: completion_of_def fun_upd_idem)
next
  case False
  have c: "quiet (ee_first env)" "xe_id x \<in> set (ee_scan env)" "terminal_task_event ev" "ev_new_status ev = Some COMPLETED"
    "linked_task (ev_task_id ev) x" "sole_owner rows (xe_id x) (ev_task_id ev)"
    using assms(3) by (simp_all add: completion_of_def)
  have x: "execution_ok x" "xe_status x = XS_RUNNING" "awaits_tasks x" using assms(2) False by (simp_all add: in_progress_def)
  define y where "y = projr (task_event_row (ee_first env) x ev)"
  have "handle_task_state_changed env ev rows = (Inr (), rows(xe_id x \<mapsto> y))"
    unfolding y_def by (rule handle_quiet[OF c(1,2) assms(1) refl x(1,2) c(3,5,6)])
  moreover note completed_event_row[OF x c(5,4), of "ee_first env", folded y_def, unfolded Let_def]
  ultimately show ?thesis by (intro exI[of _ y]) (simp add: in_progress_def)
qed

lemma completion_steps:
  assumes "rows (xe_id x) = Some x" and "in_progress x" and "\<forall>(env, ev) \<in> set evs. completion_of rows x env ev"
  shows "\<exists>y. handle_all evs rows = rows(xe_id x \<mapsto> y) \<and> in_progress y \<and>
    outstanding y = outstanding x - (\<lambda>(env, ev). ev_task_id ev) ` set evs"
  using assms
proof (induction evs arbitrary: rows x)
  case Nil
  then show ?case by (intro exI[of _ x]) (simp add: handle_all_def fun_upd_idem)
next
  case (Cons p evs)
  obtain env ev where p: "p = (env, ev)" by fastforce
  have "completion_of rows x env ev" using Cons.prems(3) p by simp
  from completion_step[OF Cons.prems(1,2) this] obtain y where
    y: "handle_task_state_changed env ev rows = (Inr (), rows(xe_id x \<mapsto> y))" "xe_id y = xe_id x" "in_progress y"
    "outstanding y = outstanding x - {ev_task_id ev}" "\<forall>t. linked_task t y \<longleftrightarrow> linked_task t x" by blast
  have "completion_of (rows(xe_id x \<mapsto> y)) y env' ev'" if "(env', ev') \<in> set evs" for env' ev'
  proof -
    have "completion_of rows x env' ev'" using Cons.prems(3) that by auto
    then show ?thesis using y(2,5) by (simp add: completion_of_def sole_owner_def)
  qed
  then have "\<forall>(env, ev) \<in> set evs. completion_of (rows(xe_id x \<mapsto> y)) y env ev" by blast
  from Cons.IH[OF _ y(3) this, unfolded y(2) fun_upd_upd] obtain z where
    "handle_all evs (rows(xe_id x \<mapsto> y)) = rows(xe_id x \<mapsto> z)" "in_progress z"
    "outstanding z = outstanding y - (\<lambda>(env, ev). ev_task_id ev) ` set evs" by (meson fun_upd_same)
  with y p show ?case by (intro exI[of _ z]) (auto simp: handle_all_def)
qed

subsection \<open>A lost race\<close>

text \<open>A first attempt that meets the row another handler has written meanwhile.\<close>

lemma save_row_conflict:
  assumes "\<not> io_save_fails env" and "io_others env rows (xe_id y) = Some z" and "xe_version z \<noteq> xe_version y - 1"
    and "xe_version y \<noteq> 1"
  shows "save_row env y rows = (Inl (Write_Failed Execution_Conflict), io_others env rows)"
  using assms by (simp add: save_row_def save_execution_def)

lemma dispatch_conflict:
  assumes "\<not> io_save_fails env" and "io_others env rows (xe_id x) = Some z" and "xe_version z \<noteq> xe_version x"
    and "execution_ok x" and "linked_task (ev_task_id ev) x"
  shows "dispatch_task_handler env x ev rows = (Inl (Write_Failed Execution_Conflict), io_others env rows)"
proof -
  obtain y where y: "task_event_row env x ev = Inr y" using task_event_row_linked[OF assms(5)] by blast
  note same = task_event_row_same[OF y]
  have "1 \<le> xe_version x" using assms(4) by (simp add: execution_ok_def)
  with save_row_conflict[of env rows y z] same assms(1-3) y show ?thesis by (simp add: dispatch_task_handler_def)
qed

lemma node_status_for_task_map:
  assumes "t \<noteq> t'"
  shows "node_status_for_task (map (set_node_status t' status) nes) t = node_status_for_task nes t"
proof (induction nes)
  case (Cons ne nes)
  have "set_node_status t' status ne = ne" if "ne_task_id ne = Some t" using that assms by (simp add: set_node_status_def)
  with Cons show ?case by (simp add: set_node_status_task)
qed simp

lemma linked_event_row: "task_event_row env x ev = Inr y \<Longrightarrow> linked_task t y = linked_task t x"
  by (simp add: linked_task_def task_event_row_nodes list_ex_iff set_node_status_task)

lemma retry_quiet:
  assumes "quiet env" and "rows (xe_id x) = Some y" and "execution_ok y" and "xe_id y = xe_id x"
    and "linked_task (ev_task_id ev) y" and "xe_status y \<in> {XS_RUNNING, XS_COMPLETED, XS_FAILED}"
    and "node_status_for_task (xe_node_executions y) (ev_task_id ev) \<noteq> Some (expected_terminal_node_status ev)"
  shows "retry_after_version_conflict env x ev rows =
    (Inr (), if xe_status y = XS_RUNNING then rows(xe_id x \<mapsto> projr (task_event_row env y ev)) else rows)"
proof -
  have "get_execution (io_read_fails env) (xe_id x) rows = Inr (Some y)"
    using assms(1-3) by (simp add: get_execution_def quiet_def)
  moreover have "dispatch_task_handler env y ev rows = (Inr (), rows(xe_id x \<mapsto> projr (task_event_row env y ev)))"
    using dispatch_quiet[where rows = rows and i = "xe_id x", OF assms(1,2,4,3,5)] .
  ultimately show ?thesis using assms(6,7) by (auto simp: retry_after_version_conflict_def)
qed

section \<open>A sample execution\<close>

definition demo_task_node :: "string \<Rightarrow> string \<Rightarrow> node_execution" where
  "demo_task_node n t = \<lparr>ne_node_id = n, ne_node_type = NT_TASK, ne_status = NS_TASK_CREATED, ne_task_id = Some t,
     ne_skipped_reason = None\<rparr>"

definition demo_execution :: workflow_execution where
  "demo_execution = \<lparr>xe_id = ''e'', xe_definition_id = ''d'', xe_definition_revision = 1, xe_status = XS_RUNNING,
     xe_node_executions = [demo_task_node ''a'' ''t1'', demo_task_node ''b'' ''t2''], xe_activated_by = ''u'',
     xe_project = ''p'', xe_created_at = 0, xe_updated_at = 0, xe_completed_at = None, xe_error = None, xe_version = 1\<rparr>"

definition quiet_io :: "int \<Rightarrow> io_env" where
  "quiet_io now = \<lparr>io_read_fails = False, io_others = (\<lambda>rows. rows), io_save_fails = False, io_reread_fails = False,
     io_now = now, io_later = now + 1\<rparr>"

definition quiet_events :: "int \<Rightarrow> event_env" where
  "quiet_events now = \<lparr>ee_scan = [''e''], ee_first = quiet_io now, ee_between = (\<lambda>rows. rows), ee_retry = quiet_io (now + 2)\<rparr>"

definition demo_event :: "string \<Rightarrow> task_status \<Rightarrow> task_state_changed" where
  "demo_event t s = \<lparr>ev_mutation_type = MT_TRANSITION, ev_request_id = ''r'', ev_requested_by = ''u'', ev_task_id = t,
     ev_task = None, ev_previous_status = None, ev_new_status = Some s, ev_version = 2, ev_reason = None\<rparr>"

definition demo_rows :: execution_store where "demo_rows = [''e'' \<mapsto> demo_execution]"

lemma demo_execution_ok: "execution_ok demo_execution"
  by code_simp

lemma demo_execution_simps [simp]:
  "xe_id demo_execution = ''e''" "xe_status demo_execution = XS_RUNNING" "xe_version demo_execution = 1"
  by (simp_all add: demo_execution_def)

lemma demo_rows_reachable: "lifecycle_reachable (demo_rows, {demo_execution})"
proof -
  have "lifecycle_step (Map.empty, {}) (demo_rows, insert demo_execution {})"
    using demo_execution_ok by (intro lifecycle_step.activated) (simp_all add: save_execution_def demo_rows_def)
  then show ?thesis by (simp add: lifecycle_reachable_def)
qed

lemma demo_linked: "linked_task t demo_execution \<longleftrightarrow> t \<in> {''t1'', ''t2''}"
  by (auto simp: linked_task_def demo_execution_def demo_task_node_def)

lemma demo_sole_owner: "sole_owner demo_rows ''e'' t"
  by (auto simp: sole_owner_def demo_rows_def)

lemma quiet_io_quiet [simp]: "quiet (quiet_io now)"
  by (simp add: quiet_def quiet_io_def)

lemma quiet_events_simps [simp]:
  "ee_first (quiet_events now) = quiet_io now" "ee_scan (quiet_events now) = [''e'']"
  "ee_retry (quiet_events now) = quiet_io (now + 2)" "ee_between (quiet_events now) = (\<lambda>rows. rows)"
  by (simp_all add: quiet_events_def)

lemma demo_event_simps [simp]:
  "ev_task_id (demo_event t s) = t" "ev_new_status (demo_event t s) = Some s"
  "terminal_task_event (demo_event t s) \<longleftrightarrow> s \<in> set TERMINAL_TASK_STATUSES"
  by (auto simp: demo_event_def terminal_task_event_def)

lemma orderly_id: "orderly (\<lambda>rows. rows)"
  by (auto simp: orderly_def)

lemma orderly_run_call: "orderly_call c \<Longrightarrow> orderly (run_call c)"
  using call_steps by (auto simp: orderly_def)

section \<open>What holds of the lifecycle\<close>

text \<open>C13. Whatever cancellations, completions, failures and task events run on an execution, in
  whatever interleaving of their reads and saves, a stored row stays valid, its version
  never decreases, and a row that has reached a terminal status is never written again.\<close>

theorem ended_execution_is_final:
  assumes "lifecycle_reachable (rows, seen)" and "orderly_call c" and "rows i = Some x" and "run_call c rows i = Some y"
  shows "execution_ok y \<and> xe_version x \<le> xe_version y \<and>
    (xe_status x \<in> {XS_COMPLETED, XS_FAILED, XS_CANCELLED} \<longrightarrow> y = x)"
proof -
  have inv: "history_ok (rows, seen)" using reachable_history_ok[OF assms(1)] .
  obtain seen' where "lifecycle_step\<^sup>*\<^sup>* (rows, seen) (run_call c rows, seen')" using call_steps[OF inv assms(2)] by blast
  from moves_on_steps[OF this inv] assms(3,4) show ?thesis
    by (auto simp: moves_on_def TERMINAL_EXECUTION_STATUSES_def)
qed

lemma ended_execution_is_final_witness:
  defines "c \<equiv> Call_Complete ((quiet_io 5)\<lparr>io_others := run_call (Call_Cancel (quiet_io 3) ''e'')\<rparr>) ''e''"
  shows "case run_call c demo_rows ''e'' of None \<Rightarrow> False | Some y \<Rightarrow> execution_ok y \<and> xe_status y = XS_CANCELLED"
proof -
  have c: "orderly_call c" by (simp add: c_def orderly_run_call quiet_io_def orderly_id)
  have y: "run_call c demo_rows ''e'' = Some (cancelled_row 3 demo_execution)"
    using demo_execution_ok
    by (simp add: c_def complete_execution_def load_running_def get_execution_def demo_rows_def quiet_io_def
        cancel_execution_def save_row_def save_execution_def completed_row_def cancelled_row_def)
  from ended_execution_is_final[OF demo_rows_reachable c _ y] have "execution_ok (cancelled_row 3 demo_execution)"
    by (simp add: demo_rows_def)
  then show ?thesis unfolding y by (simp add: cancelled_row_def)
qed

text \<open>A cancellation that returns a row has written it over a live row that nobody touched
  between its read and its save; one that fails has written nothing.\<close>

theorem cancel_loses_no_update:
  assumes "lifecycle_reachable (rows, seen)" and "orderly (io_others env)" and "cancel_execution env i rows = (r, rows')"
  shows "case r of
      Inl _ \<Rightarrow> rows' = rows \<or> rows' = io_others env rows
    | Inr y \<Rightarrow> \<exists>x. rows i = Some x \<and> io_others env rows i = Some x \<and>
        xe_status x \<notin> {XS_COMPLETED, XS_FAILED, XS_CANCELLED} \<and>
        y = cancelled_row (io_now env) x \<and> rows' = (io_others env rows)(i \<mapsto> y)"
proof -
  have inv: "history_ok (rows, seen)" using reachable_history_ok[OF assms(1)] .
  have saved: "(case r0 of Inl _ \<Rightarrow> rows0 = io_others env rows | Inr y \<Rightarrow> y = cancelled_row (io_now env) x \<and>
      io_others env rows i = Some x \<and> rows0 = (io_others env rows)(i \<mapsto> y))"
    if s: "save_row env (cancelled_row (io_now env) x) rows = (r0, rows0)" and x: "rows i = Some x"
      "xe_status x \<notin> set TERMINAL_EXECUTION_STATUSES" for x r0 rows0
  proof (cases r0)
    case (Inl e)
    with s show ?thesis by (auto simp: save_row_def split: sum.splits)
  next
    case (Inr y)
    note seen = stored_seen[OF inv x(1)]
    have "decided x (cancelled_row (io_now env) x)" using x(2) by (auto simp: decided_def)
    from save_row_steps(2)[OF inv conjunct1[OF seen] this assms(2) s Inr] seen Inr show ?thesis by simp
  qed
  obtain r0 rows0 where s: "save_row env (cancelled_row (io_now env) (the (rows i))) rows = (r0, rows0)" by fastforce
  show ?thesis
  proof (cases "get_execution (io_read_fails env) i rows")
    case (Inl e)
    with assms(3) show ?thesis by (auto simp: cancel_execution_def)
  next
    case (Inr found)
    show ?thesis
    proof (cases "found = None \<or> xe_status (the found) \<in> set TERMINAL_EXECUTION_STATUSES")
      case True
      with assms(3) Inr show ?thesis by (cases found) (auto simp: cancel_execution_def)
    next
      case False
      then obtain x where x: "found = Some x" "xe_status x \<notin> set TERMINAL_EXECUTION_STATUSES" by auto
      have row: "rows i = Some x" using get_execution_Some Inr x(1) by blast
      note sv = saved[OF s[unfolded row option.sel] row x(2)]
      have "(r = r0 \<or> (\<exists>e e'. r = Inl e \<and> r0 = Inl e')) \<and> rows' = rows0"
        using assms(3) Inr x s row
        by (auto simp: cancel_execution_def split: sum.splits lifecycle_error.splits save_error.splits)
      with sv row x(2) show ?thesis by (auto simp: TERMINAL_EXECUTION_STATUSES_def split: sum.splits)
    qed
  qed
qed

text \<open>C15. A terminal event of a task of a running execution, handled undisturbed, sets exactly that
  task's nodes, bumps the version once and ends the execution as its outcome asks: a failed or
  cancelled task fails it with that message, the last completion completes it, any
  other completion leaves it running.\<close>

theorem task_event_settles_execution:
  assumes "rows i = Some x" and "xe_id x = i" and "execution_ok x" and "xe_status x = XS_RUNNING" and "awaits_tasks x"
    and "linked_task t x" and "sole_owner rows i t" and "i \<in> set (ee_scan env)" and "quiet (ee_first env)"
    and "ev_mutation_type ev = MT_TRANSITION" and "ev_task_id ev = t" and "ev_new_status ev \<in> {Some COMPLETED, Some FAILED, Some CANCELLED}"
  shows "\<exists>y. handle_task_state_changed env ev rows = (Inr (), rows(i \<mapsto> y)) \<and> execution_ok y \<and>
    xe_version y = xe_version x + 1 \<and>
    xe_node_executions y = map (\<lambda>ne. if ne_task_id ne = Some t
      then ne\<lparr>ne_status := (if ev_new_status ev = Some COMPLETED then NS_TASK_COMPLETED else NS_TASK_FAILED)\<rparr> else ne)
      (xe_node_executions x) \<and>
    (if ev_new_status ev = Some COMPLETED
     then xe_status y = (if outstanding x \<subseteq> {t} then XS_COMPLETED else XS_RUNNING) \<and> xe_error y = None
     else xe_status y = XS_FAILED \<and>
       xe_error y = Some (''Task '' @ t @ (if ev_new_status ev = Some CANCELLED then '' cancelled'' else '' failed'')))"
proof -
  have ev: "terminal_task_event ev" using assms(10,12) by (auto simp: terminal_task_event_def TERMINAL_TASK_STATUSES_def)
  have linked: "linked_task (ev_task_id ev) x" using assms(6,11) by simp
  have failed: "task_failed_event ev \<longleftrightarrow> ev_new_status ev \<noteq> Some COMPLETED" using assms(12) by (auto simp: task_failed_event_def)
  obtain y where y: "task_event_row (ee_first env) x ev = Inr y" using task_event_row_linked[OF linked] by blast
  have "handle_task_state_changed env ev rows = (Inr (), rows(i \<mapsto> y))"
    using handle_quiet[where rows = rows and i = i, OF assms(9,8,1-4) ev linked] assms(7,11) y by simp
  moreover have "execution_ok y" using decided_ok[OF assms(3), of y] assms(4) y by (auto simp: decided_def)
  moreover have "xe_version y = xe_version x + 1" using task_event_row_same[OF y] by simp
  moreover have "xe_node_executions y = map (\<lambda>ne. if ne_task_id ne = Some t
      then ne\<lparr>ne_status := (if ev_new_status ev = Some COMPLETED then NS_TASK_COMPLETED else NS_TASK_FAILED)\<rparr> else ne)
      (xe_node_executions x)"
    using task_event_row_nodes[OF y] failed assms(11) by (simp add: expected_terminal_node_status_def set_node_status_def)
  moreover have "ev_new_status ev = Some COMPLETED \<Longrightarrow>
      xe_status y = (if outstanding x \<subseteq> {t} then XS_COMPLETED else XS_RUNNING) \<and> xe_error y = None"
    using completed_event_row[OF assms(3-5) linked, of "ee_first env"] y assms(11) by (simp add: Let_def)
  moreover have "ev_new_status ev \<noteq> Some COMPLETED \<Longrightarrow> xe_status y = XS_FAILED \<and>
      xe_error y = Some (''Task '' @ t @ (if ev_new_status ev = Some CANCELLED then '' cancelled'' else '' failed''))"
    using y linked failed assms(11) by (auto simp: task_event_row_def task_failed_row_def update_node_status_def)
  ultimately show ?thesis by (intro exI[of _ y] conjI) simp_all
qed

lemma task_event_settles_execution_witness:
  "case handle_task_state_changed (quiet_events 1) (demo_event ''t1'' FAILED) demo_rows of (r, rows') \<Rightarrow>
     r = Inr () \<and> map_option xe_status (rows' ''e'') = Some XS_FAILED"
proof -
  have "awaits_tasks demo_execution" by code_simp
  then show ?thesis
    using task_event_settles_execution[of demo_rows "''e''" demo_execution "''t1''" "quiet_events 1" "demo_event ''t1'' FAILED"]
    by (auto simp: demo_rows_def demo_execution_ok demo_linked demo_sole_owner[unfolded demo_rows_def] demo_event_def)
qed

lemma completions_spec:
  assumes "rows i = Some x" and "xe_id x = i" and "execution_ok x" and "xe_status x = XS_RUNNING" and "awaits_tasks x"
    and "outstanding x \<noteq> {}" and "\<forall>(env, ev) \<in> set evs. completion_of rows x env ev"
  shows "\<exists>y. handle_all evs rows = rows(i \<mapsto> y) \<and> execution_ok y \<and>
    outstanding y = outstanding x - (\<lambda>(env, ev). ev_task_id ev) ` set evs \<and>
    xe_status y = (if outstanding x \<subseteq> (\<lambda>(env, ev). ev_task_id ev) ` set evs then XS_COMPLETED else XS_RUNNING)"
proof -
  have "in_progress x" using assms(3-6) by (simp add: in_progress_def)
  from completion_steps[of rows x evs, OF _ this assms(7)] assms(1,2) obtain y where
    y: "handle_all evs rows = rows(i \<mapsto> y)" "in_progress y"
      "outstanding y = outstanding x - (\<lambda>(env, ev). ev_task_id ev) ` set evs" by auto
  then show ?thesis by (intro exI[of _ y]) (auto simp: in_progress_def)
qed


lemma line_outcome:
  "(case fst (activate demo_activation [''w3'' \<mapsto> line_workflow] ''w3'' Map.empty demo_world) of
      Inl _ \<Rightarrow> None
    | Inr x \<Rightarrow> Some (xe_status x, List.map_filter ne_task_id (xe_node_executions x))) = Some (XS_RUNNING, [''t'', ''tt''])"
  "construct_definition (\<lambda>_. False) line_workflow = Inr ()"
  by code_simp+


text \<open>C14. An event that loses the race for the row to the event of another task is not lost: the retry
  leaves the same rows as handling the two events one after the other.\<close>

theorem lost_race_is_made_good:
  assumes "rows i = Some x" and "xe_id x = i" and "execution_ok x" and "xe_status x = XS_RUNNING"
    and "terminal_task_event a" and "terminal_task_event b" and "ev_task_id a \<noteq> ev_task_id b"
    and "linked_task (ev_task_id a) x" and "linked_task (ev_task_id b) x"
    and "sole_owner rows i (ev_task_id a)" and "sole_owner rows i (ev_task_id b)"
    and "node_status_for_task (xe_node_executions x) (ev_task_id a) \<noteq> Some (expected_terminal_node_status a)"
    and "i \<in> set (ee_scan enva)" and "i \<in> set (ee_scan envb)" and "quiet (ee_first envb)" and "quiet (ee_retry enva)"
    and "\<not> io_read_fails (ee_first enva)" and "\<not> io_save_fails (ee_first enva)" and "ee_between enva = (\<lambda>rows. rows)"
    and "io_others (ee_first enva) = (\<lambda>rows. snd (handle_task_state_changed envb b rows))"
  shows "handle_task_state_changed enva a rows =
    handle_task_state_changed (enva\<lparr>ee_first := ee_retry enva\<rparr>) a (snd (handle_task_state_changed envb b rows))"
proof -
  obtain y where y: "task_event_row (ee_first envb) x b = Inr y" using task_event_row_linked[OF assms(9)] by blast
  note same = task_event_row_same[OF y]
  have ok: "execution_ok y" using decided_ok[OF assms(3), of y] assms(4) y by (auto simp: decided_def)
  have linked: "linked_task t y = linked_task t x" for t by (rule linked_event_row[OF y])
  have b: "handle_task_state_changed envb b rows = (Inr (), rows(i \<mapsto> y))"
    using handle_quiet[where rows = rows and i = i, OF assms(15,14,1-4,6,9,11)] y by simp
  have st: "xe_status y \<in> {XS_RUNNING, XS_COMPLETED, XS_FAILED}"
    using task_event_row_Inr(3)[OF y] assms(4) by auto
  have node: "node_status_for_task (xe_node_executions y) (ev_task_id a) \<noteq> Some (expected_terminal_node_status a)"
    unfolding task_event_row_nodes[OF y] node_status_for_task_map[OF assms(7)] by (rule assms(12))
  have "dispatch_task_handler (ee_first enva) x a rows = (Inl (Write_Failed Execution_Conflict), rows(i \<mapsto> y))"
    using dispatch_conflict[of "ee_first enva" rows x y a] assms(2,3,8,18,20) b same by simp
  moreover have "find_by_task_id False (ee_scan enva) (ev_task_id a) rows = Inr (Some x)"
    by (rule find_owner[OF assms(1,3,4,8,10,13)])
  ultimately have lhs: "handle_task_state_changed enva a rows = retry_after_version_conflict (ee_retry enva) x a (rows(i \<mapsto> y))"
    using assms(5,17,19) by (simp add: handle_task_state_changed_def terminal_task_event_def)
  have retry: "retry_after_version_conflict (ee_retry enva) x a (rows(i \<mapsto> y)) =
      (Inr (), if xe_status y = XS_RUNNING then rows(i \<mapsto> projr (task_event_row (ee_retry enva) y a)) else rows(i \<mapsto> y))"
    using retry_quiet[of "ee_retry enva" "rows(i \<mapsto> y)" x y a] assms(2,8,16) ok same linked st node by simp
  show ?thesis
  proof (cases "xe_status y = XS_RUNNING")
    case True
    have "sole_owner (rows(i \<mapsto> y)) i (ev_task_id a)" using assms(10) by (simp add: sole_owner_def)
    from handle_quiet[where env = "enva\<lparr>ee_first := ee_retry enva\<rparr>" and rows = "rows(i \<mapsto> y)" and i = i and x = y and ev = a,
        OF _ _ _ _ ok True assms(5) _ this]
    show ?thesis using lhs retry True assms(2,8,13,16) same linked b by simp
  next
    case False
    have "handle_task_state_changed (enva\<lparr>ee_first := ee_retry enva\<rparr>) a (rows(i \<mapsto> y)) = (Inr (), rows(i \<mapsto> y))"
      by (rule handle_unowned) (use assms(10,16) False in \<open>auto simp: sole_owner_def split: if_splits\<close>)
    then show ?thesis using lhs retry False b by simp
  qed
qed

lemma lost_race_is_made_good_witness:
  defines "env \<equiv> (quiet_events 1)\<lparr>ee_first := (quiet_io 1)\<lparr>io_others :=
      (\<lambda>rows. snd (handle_task_state_changed (quiet_events 7) (demo_event ''t2'' COMPLETED) rows))\<rparr>\<rparr>"
  shows "handle_task_state_changed env (demo_event ''t1'' COMPLETED) demo_rows =
    handle_task_state_changed (env\<lparr>ee_first := ee_retry env\<rparr>) (demo_event ''t1'' COMPLETED)
      (snd (handle_task_state_changed (quiet_events 7) (demo_event ''t2'' COMPLETED) demo_rows))"
  by (rule lost_race_is_made_good[where x = demo_execution and i = "''e''" and envb = "quiet_events 7" and b = "demo_event ''t2'' COMPLETED"])
    (simp_all add: env_def demo_rows_def demo_execution_ok demo_linked demo_sole_owner[unfolded demo_rows_def]
      TERMINAL_TASK_STATUSES_def quiet_io_def[of 1] expected_terminal_node_status_def task_failed_event_def,
     simp_all add: demo_execution_def demo_task_node_def)

section \<open>Where the code departs from its documentation\<close>

text \<open>A cancelled task never ends its execution: a cancel is no transition.\<close>

lemma cancel_event_ignored:
  "handle_task_state_changed env (build_state_changed_event (Cancel_Task m) res) rows = (Inr (), rows)"
  by (simp add: handle_task_state_changed_def build_state_changed_event_def)

text \<open>Nor does a rejected one, although REJECTED is terminal.\<close>

lemma rejected_event_ignored:
  "ev_new_status ev = Some REJECTED \<Longrightarrow> handle_task_state_changed env ev rows = (Inr (), rows)"
  by (auto simp: handle_task_state_changed_def TERMINAL_TASK_STATUSES_def)

text \<open>An execution failed with a blank message is stored, and cannot be read again.\<close>

lemma blank_failure_unreadable:
  "let (r, rows') = fail_execution (quiet_io 3) ''e'' '' '' demo_rows in
     (\<exists>y. r = Inr y) \<and> get_execution False ''e'' rows' = Inl (Row_Malformed ''e'')"
proof -
  have "\<not> not_blank '' ''" by code_simp
  then have bad: "\<not> execution_ok (failed_row 3 '' '' demo_execution)" by (simp add: execution_ok_def failed_row_def)
  have "fail_execution (quiet_io 3) ''e'' '' '' demo_rows = (Inr (failed_row 3 '' '' demo_execution), demo_rows(''e'' \<mapsto> failed_row 3 '' '' demo_execution))"
    using demo_execution_ok
    by (simp add: fail_execution_def load_running_def get_execution_def demo_rows_def quiet_io_def save_row_def save_execution_def failed_row_def)
  with bad show ?thesis by (simp add: get_execution_def)
qed

end
