(* ===== verification/Spec2Isabelle.thy ===== *)
theory Spec2Isabelle
  imports Board_Lifecycle Task_Engine_Properties Engine_Loop Resource_Lock Plan_Dispatch Initiative_Rollup Workflow_Lifecycle
begin

text \<open>
  A verification of the core of SynthOrg, the engine of an organisation of agents
  (Python, under \<open>src/src/synthorg\<close>).

  \<^bold>\<open>The program.\<close> An objective becomes a task. A planner splits the task into
  subtasks, level by level, until each fits one agent (\<open>engine/decomposition\<close>). The tree
  becomes a durable plan a human reviews, edits and approves (\<open>core/plan.py\<close>). At approval
  the plan is rebuilt into a tree, routed to agents and cut into waves
  (\<open>engine/coordination\<close>); the groups of a wave take their resource locks and run. All
  along, the state of every task is written by one actor, the task engine
  (\<open>engine/task_engine*.py\<close>), under the lifecycle tables of \<open>core/*_transitions.py\<close>. What
  the subtasks of a parent came to is rolled up into a status of the parent, and whenever a
  task of a plan moves, the plan, its project and its objective are derived again from the
  stored rows (\<open>engine/initiative\<close>). Besides plans, people draw workflows: graphs of tasks,
  conditions, parallel branches and calls of other workflows. Activating one files its tasks
  with the task engine and keeps an execution row that follows what becomes of them
  (\<open>engine/workflow\<close>). Text that
  agents or operators wrote reaches a prompt only inside a fence.

  \<^bold>\<open>Theories and sources.\<close>
  \<^item> \<open>Prelude\<close>: strings, sequences, error results; what the components use of Python.
  \<^item> \<open>State_Machine\<close> (\<open>core/state_machine.py\<close>): tables, successor order, validation, the
    breadth-first \<open>path_to\<close>, the exit check. \<open>path_to\<close> is a loop with a measure; it is proved
    to return a shortest walk. The locales \<open>covered_machine\<close> and \<open>lifecycle\<close> say what a
    machine promises; every lifecycle below interprets one of them.
  \<^item> \<open>Task_Lifecycle\<close>, \<open>Plan_Lifecycle\<close>, \<open>Board_Lifecycle\<close> (\<open>core/task_enums.py\<close>,
    \<open>core/task_transitions.py\<close>, \<open>core/plan_*.py\<close>, \<open>core/project_*.py\<close>,
    \<open>engine/workflow/kanban_columns.py\<close>, \<open>client/models.py\<close>): the tables and their machines;
    which statuses guard completion, that no status is a dead end, and that a move on the
    board drives the task through legal hops only.
  \<^item> \<open>Task_Model\<close> (\<open>core/task.py\<close>, \<open>core/_task_invariants.py\<close>): the task row, its rules,
    \<open>with_transition\<close>.
  \<^item> \<open>Task_Engine\<close>, \<open>Task_Engine_Properties\<close>, \<open>Engine_Loop\<close> (\<open>engine/task_engine_models.py\<close>,
    \<open>task_engine_version.py\<close>, \<open>task_engine_apply.py\<close>, \<open>task_engine_apply_helpers.py\<close>,
    \<open>task_delete_guard.py\<close>, \<open>task_engine.py\<close>, \<open>task_engine_loops.py\<close>): requests and results,
    the five appliers over a repository (locale \<open>keyed_store\<close>), and the actor as a step
    relation. Every reachable state is the sequential application of the processed
    requests; stored rows are valid; a stale writer is refused; failures change nothing;
    every admitted request is answered.
  \<^item> \<open>Dependency_Graph\<close> (\<open>engine/decomposition/dag.py\<close>): the depth-first cycle check, Kahn's
    sort with a heap and the parallel groups, each proved exact against acyclicity of the
    dependency relation; all are total, by measures.
  \<^item> \<open>Decomposition_Tree\<close> (\<open>engine/decomposition/models.py\<close>, \<open>core/plan_validation.py\<close>): units,
    levels, the tree and its flat dispatch view, which is proved to be a valid graph that
    keeps every ordering of the levels it came from.
  \<^item> \<open>Execution_Waves\<close> (\<open>engine/coordination/group_builder.py\<close>, \<open>engine/parallel_models.py\<close>,
    \<open>engine/coordination/_dependency_gate.py\<close>, \<open>engine/decomposition/rollup.py\<close>,
    \<open>status_rollup.py\<close>): the groups of a tree, the gate before a dispatch, the derived status
    of a parent. The locale \<open>wave_source\<close> is what the builder needs of a graph; the tree is
    its interpretation.
  \<^item> \<open>Resource_Lock\<close> (\<open>engine/resource_lock.py\<close>, \<open>engine/parallel_locks.py\<close>): the lock protocol
    as a locale, the in-memory lock as its interpretation, all-or-nothing acquisition,
    exclusion under interleaving.
  \<^item> \<open>Plan_Tree\<close>, \<open>Plan_Entity\<close> (\<open>core/plan.py\<close>, \<open>core/plan_tree_validation.py\<close>,
    \<open>core/plan_tree.py\<close>): plan items, the rules of their containment tree and of the plan, the
    views of the tree. The two reductions that look for cycles interpret the locale
    \<open>cycle_check\<close>. The walks along parent and child links have no bound of their own in the
    code; they are \<open>partial_function\<close>s, and are proved to return on every accepted plan.
  \<^item> \<open>Prompt_Fence\<close> (\<open>engine/prompt_safety.py\<close>), \<open>Assembly\<close> (\<open>engine/assembly.py\<close>,
    \<open>engine/decomposition/plan_context.py\<close>): the fence and why text cannot leave it; the brief,
    stakes and evidence paths of a container and why no two containers share a path.
  \<^item> \<open>Plan_Mapping\<close>, \<open>Plan_Dispatch\<close> (\<open>engine/decomposition/plan_mapping.py\<close>, \<open>_item_tasks.py\<close>,
    \<open>_artifacts.py\<close>, \<open>_ids.py\<close>): both projections between a decomposition and a plan. Rebuilding
    recurses per level under the interpreter's limit, which is an argument; as many levels
    as the plan has items are always enough. A decomposition is a valid plan, a valid plan
    with work is a valid decomposition, and the way there and back keeps the items.
  \<^item> \<open>Initiative_Progress\<close> (\<open>engine/initiative/completion.py\<close>, \<open>item_progress.py\<close>,
    \<open>confirmed_stall.py\<close>, \<open>extension_state.py\<close>): what the rows of a plan say of its items, when a
    plan is stalled, the status of a plan and of its project that follows.
  \<^item> \<open>Initiative_Store\<close> (\<open>engine/initiative/rollup_plan_advance.py\<close>, \<open>project_writes.py\<close>,
    \<open>stage_state.py\<close>, \<open>head_stages.py\<close>, \<open>tail_stages.py\<close>, \<open>api/services/plan_service*.py\<close>): programs
    over shared rows, interrupted by the turns of others at every access, and the versioned
    writes. The locale \<open>program_logic\<close> proves what every run of a program keeps along its
    text; \<open>versioned_table\<close> is what a row with a version promises, plans and projects
    interpret it. A write is retried three times, as in the code.
  \<^item> \<open>Initiative_Rollup\<close> (\<open>engine/initiative/rollup.py\<close>, \<open>rollup_stages.py\<close>, \<open>stall_route.py\<close>,
    \<open>stall_escalation.py\<close>, \<open>extension_escalation.py\<close>, \<open>rollup_parent_task.py\<close>,
    \<open>engine/coordination/parent_rollup.py\<close>): one recompute of an initiative. It makes only
    legal moves whatever the others do, decides every stalled plan, and holds the objective
    open until delivery. Three concrete runs show where a write of another slips through.
  \<^item> \<open>Workflow_Condition\<close> (\<open>engine/workflow/condition_eval.py\<close>): the language of conditions, from its
    tokenizer to its recursive descent. It is proved to accept exactly the phrases of a
    grammar, to evaluate them as the grammar says, and to read back what is written out.
  \<^item> \<open>Workflow_Graph\<close> (\<open>engine/workflow/definition.py\<close>, \<open>graph_utils.py\<close>, \<open>validate_*.py\<close>,
    \<open>validation.py\<close>): definitions and their construction rules, adjacency, Kahn's sort, the
    coloring cycle check, the validator. The locale \<open>worklist\<close> is a search with visited nodes and
    what it has found when it ends; every search of the package interprets it.
  \<^item> \<open>Workflow_Frames\<close>, \<open>Workflow_Activation\<close> (\<open>engine/workflow/execution_models.py\<close>,
    \<open>subworkflow_binding.py\<close>, \<open>execution_walk_state.py\<close>, \<open>execution_activation_helpers.py\<close>,
    \<open>execution_node_dispatch.py\<close>, \<open>execution_service.py\<close>): frames, bindings, the node handlers, the
    walk of a graph and of those it calls, the activation. The walk ends because the depth of
    calls is bounded by a setting. The locale \<open>walk_invariant\<close> carries an invariant through every
    walk; one interpretation gives the valid row with every node in it, the other that
    tasks wait only for tasks filed before them.
  \<^item> \<open>Workflow_Lifecycle\<close> (\<open>engine/workflow/execution_lifecycle.py\<close>,
    \<open>persistence/sqlite/workflow_execution_repo.py\<close>): cancelling, completing and failing an execution,
    and the events of its tasks, with what others write between a read and a save. A step
    relation takes all reads and saves apart: an ended execution never changes, no
    update is lost. An undisturbed execution ends with its last task.
  \<^item> This theory composes them: from an approved plan to the groups that run.

  \<^bold>\<open>How code is read.\<close> A model that validates on construction is a record with a function
  into an error result whose errors carry what the message names. Floats are rationals,
  aware datetimes instants, a \<open>UUID\<close> its canonical text; characters are the code points below
  256. A dictionary is an association list in insertion order where order can be observed
  and a map elsewhere. Coroutines interleave at their awaits, and a step of a relation is the
  code between two of them. Whether a deadline parses is the parameter \<open>is_iso\<close>; the clock,
  fresh identifiers, and what other writers do to the database are arguments of a call.

  \<^bold>\<open>Not modelled.\<close> Log records. SQL and its adapters: the task engine meets persistence as an
  environment that may refuse or raise. Calls of language models, tools and sandboxes, and
  with them the planning sessions and the execution loop of an agent, whose results enter
  through the modelled validation. Of workflows: the registry of subworkflows and its checks
  at publication, versions, exports, blueprints and the sprints; a node's configuration is
  JSON data, and what \<open>str\<close> gives for a value other than a text, a number or a truth value
  comes with the value. The observer loop and the read-through queries of the task
  engine, the time-bounded wait of a lock release, the advisory patterns that scan for
  injections, notifications and the texts of decisions, the insides of the replan trigger, of
  the driver and of the staged jobs (ports of the rollup), the HTTP surface, and the packages that the manifest lists as left out; of
  these, budget accounting, autonomy and approval rules, sprints and rate limits are the
  next to be added.
\<close>

section \<open>From an approved plan to its waves\<close>

text \<open>
  C22. An approved plan always runs, in the order it declares. With room for as many
  levels as the plan has items, and an objective that is a valid task outside the plan,
  a valid plan with a resolved structure that holds any work is rebuilt into a
  decomposition that passes every check, and the wave builder schedules it whatever the
  routing is: each work item that was routed together with everything it waits for,
  once; every item in a group after the groups of all its dependencies and of all the
  items split out of it. A plan of nothing but decisions is refused for want of a
  subtask, and there is no other error.
\<close>

theorem approved_plan_dispatches:
  assumes "plan_entity_valid p" and "p_task_structure p \<noteq> STRUCTURE_AUTO" and "task_valid is_iso objective"
    and "not_blank (t_id objective)" and "t_id objective \<notin> pi_id ` set (p_items p)" and "length (p_items p) < room"
    and "opt_all (\<lambda>n. 1 \<le> n) (cc_max_concurrency_per_wave cfg)"
  shows "case decomposition_from_plan room is_iso now p objective of
      Inl e \<Rightarrow> e = Bad_Unit No_Subtasks \<and> (\<forall>i \<in> set (p_items p). pi_kind i = DECISION)
    | Inr r \<Rightarrow> tree_ok r \<and> dr_parent r = t_id objective \<and>
        (\<exists>gs. build_execution_waves r routing cfg wss = Inr gs \<and>
           mset (map aa_task_id (concat (map eg_assignments gs))) =
             mset (filter (can_run r routing) (map pi_id (dispatchable p))) \<and>
           (\<forall>k < length gs. \<forall>a \<in> set (eg_assignments (gs ! k)). \<forall>i \<in> set (dispatchable p).
              (pi_id i = aa_task_id a \<longrightarrow>
                 (\<forall>d \<in> set (pi_dependencies i). \<exists>j < k. d \<in> aa_task_id ` set (eg_assignments (gs ! j)))) \<and>
              (pi_parent_id i = Some (aa_task_id a) \<longrightarrow>
                 (\<exists>j < k. pi_id i \<in> aa_task_id ` set (eg_assignments (gs ! j))))))"
proof (cases "\<exists>i \<in> set (p_items p). pi_kind i = WORK")
  case True
  from rebuilt_spec[OF assms(1-6) True, of now] obtain r items where
    r: "decomposition_from_plan room is_iso now p objective = Inr r" "tree_ok r" "dr_parent r = t_id objective" and
    items: "items_from_decomposition r = Inr items" "mset items = image_mset (raised (tree_of (dispatchable p))) (mset (dispatchable p))"
    by blast
  obtain gs where gs: "build_execution_waves r routing cfg wss = Inr gs" "groups_ok 0 (tree_waves r) gs"
      "mset (map aa_task_id (concat (map eg_assignments gs))) = mset (filter (can_run r routing) (map su_id (all_subtasks r)))"
    using build_execution_waves_groups[OF r(2) assms(7)] by blast
  have earlier: "\<exists>j < k. d \<in> aa_task_id ` set (eg_assignments (gs ! j))"
    if "k < length gs" "a \<in> set (eg_assignments (gs ! k))" "(d, aa_task_id a) \<in> depends (graph_of (dispatch_subtasks r))" for k a d
    using group_dependency[OF r(2) gs(2,3) that] by blast
  have "mset (map su_id (all_subtasks r)) = image_mset pi_id (mset items)"
    using items(1) unit_items_ids[of r None] by (metis items_from_decomposition_def mset_map walk_levels_Inr)
  also have "\<dots> = mset (map pi_id (dispatchable p))"
    by (simp add: items(2) image_mset.compositionality comp_def raised_def)
  finally have "mset (filter (can_run r routing) (map su_id (all_subtasks r))) =
      mset (filter (can_run r routing) (map pi_id (dispatchable p)))" by (metis mset_filter)
  moreover note links = plan_links[OF r(2) items]
  ultimately show ?thesis using r gs(1,3) earlier by simp (metis links)
next
  case False
  then have "\<forall>i \<in> set (p_items p). pi_kind i = DECISION" by (metis plan_item_kind.exhaust)
  then show ?thesis using decisions_only[OF False assms(4)] assms(6) by simp
qed

theorem approved_plan_dispatches_witness:
  "\<exists>r gs. decomposition_from_plan 4 (\<lambda>_. True) 0 demo_plan demo_objective = Inr r \<and> tree_ok r \<and>
     build_execution_waves r [\<lparr>rd_subtask_id = demo_b, rd_agent_id = ''ada''\<rparr>]
       \<lparr>cc_max_concurrency_per_wave = Some 5, cc_fail_fast = False\<rparr> [] = Inr gs"
proof -
  have cfg: "opt_all (\<lambda>n. 1 \<le> n) (cc_max_concurrency_per_wave \<lparr>cc_max_concurrency_per_wave = Some 5, cc_fail_fast = False\<rparr>)"
    by simp
  have "\<not> (\<forall>i \<in> set (p_items demo_plan). pi_kind i = DECISION)"
    by (simp add: demo_plan_def demo_items_def demo_item_def)
  with approved_plan_dispatches[OF demo_plan_valid demo_objective_ok cfg, where now = 0 and wss = "[]" and
    routing = "[\<lparr>rd_subtask_id = demo_b, rd_agent_id = ''ada''\<rparr>]"]
  show ?thesis by (cases "decomposition_from_plan 4 (\<lambda>_. True) 0 demo_plan demo_objective") auto
qed

end
